(* ===== verification/Prelude.thy ===== *)
theory Prelude
  imports Main "HOL-Library.Word" "HOL-Library.Multiset"
begin

text \<open>
  Shared material of the development: the machine types of the library, the faults a call can
  end in, byte-addressed memory with \<^theory_text>\<open>memcpy\<close>, separation of memory blocks, sequencing of
  fallible steps, and reachability of a transition system.
\<close>

section \<open>Types\<close>

type_synonym byte = "8 word"

text \<open>\<^verbatim>\<open>using Label = uint16_t\<close> (Message.h, Mailbox.h, MailboxData.h).\<close>
type_synonym label = "16 word"

text \<open>\<^verbatim>\<open>size_t\<close> on the 64-bit targets the build files name.\<close>
type_synonym size_t = "64 word"

text \<open>
  Addresses are natural numbers and \<^verbatim>\<open>nullptr\<close> is 0. A mailbox is named by a number of its own
  (the address of the \<^verbatim>\<open>Mailbox\<close> object); a \<^verbatim>\<open>Mailbox *\<close> is an option of that, \<^verbatim>\<open>nullptr\<close> being
  \<open>None\<close>.
\<close>
type_synonym addr = nat
type_synonym mbox = nat

abbreviation (input) nullptr :: addr where "nullptr \<equiv> 0"

text \<open>
  What a call of the library can end in besides returning: the calling thread locks a
  \<^verbatim>\<open>std::mutex\<close> it already holds, a null \<^verbatim>\<open>unique_ptr\<close> is dereferenced, a destroyed mailbox or
  timer is used, or an exception leaves the function.
\<close>
datatype fault =
    Self_Deadlock
  | Null_Deref
  | Dangling_Mailbox
  | Dangling_Timer
  | Bad_Alloc
  | Runtime_Error string

section \<open>Collections of facts\<close>

text \<open>
  \<open>ok_simps\<close>: how sequenced fallible steps compute; \<open>mem_simps\<close>: reads after writes.
\<close>
named_theorems ok_simps
named_theorems mem_simps

section \<open>Sequencing of fallible steps\<close>

definition and_then :: "'e + 'a \<Rightarrow> ('a \<Rightarrow> 'e + 'b) \<Rightarrow> 'e + 'b" where
  "and_then x f = (case x of Inl e \<Rightarrow> Inl e | Inr a \<Rightarrow> f a)"

lemma and_then_Inl [simp, ok_simps]: "and_then (Inl e) f = Inl e"
  by (simp add: and_then_def)

lemma and_then_Inr [simp, ok_simps]: "and_then (Inr a) f = f a"
  by (simp add: and_then_def)

lemma and_then_eq_Inr: "and_then x f = Inr b \<longleftrightarrow> (\<exists>a. x = Inr a \<and> f a = Inr b)"
  by (cases x) simp_all

lemma and_then_eq_Inl:
  "and_then x f = Inl e \<longleftrightarrow> x = Inl e \<or> (\<exists>a. x = Inr a \<and> f a = Inl e)"
  by (cases x) simp_all

lemma and_then_cong [fundef_cong]:
  "x = y \<Longrightarrow> (\<And>a. y = Inr a \<Longrightarrow> f a = g a) \<Longrightarrow> and_then x f = and_then y g"
  by (cases y) simp_all

section \<open>Memory\<close>

type_synonym mem = "addr \<Rightarrow> byte"

text \<open>\<^verbatim>\<open>memcpy(p, &t, sizeof(T))\<close>, with \<open>t\<close> the object's bytes.\<close>

fun memcpy :: "mem \<Rightarrow> addr \<Rightarrow> byte list \<Rightarrow> mem" where
  "memcpy m p [] = m"
| "memcpy m p (b # bs) = memcpy (m(p := b)) (Suc p) bs"

definition bytes_at :: "mem \<Rightarrow> addr \<Rightarrow> nat \<Rightarrow> byte list" where
  "bytes_at m p n = map m [p..<p + n]"

definition disjoint_blocks :: "addr \<Rightarrow> nat \<Rightarrow> addr \<Rightarrow> nat \<Rightarrow> bool" where
  "disjoint_blocks p n q k \<longleftrightarrow> p + n \<le> q \<or> q + k \<le> p"

lemma disjoint_blocks_sym: "disjoint_blocks p n q k \<Longrightarrow> disjoint_blocks q k p n"
  by (auto simp: disjoint_blocks_def)

lemma disjoint_blocks_shrink:
  "disjoint_blocks p n q k \<Longrightarrow> n' \<le> n \<Longrightarrow> k' \<le> k \<Longrightarrow> disjoint_blocks p n' q k'"
  by (auto simp: disjoint_blocks_def)

lemma memcpy_outside [mem_simps]:
  "a < p \<or> p + length bs \<le> a \<Longrightarrow> memcpy m p bs a = m a"
  by (induction m p bs rule: memcpy.induct) auto

lemma length_bytes_at [simp]: "length (bytes_at m p n) = n"
  by (simp add: bytes_at_def)

lemma bytes_at_memcpy_same [simp, mem_simps]:
  "bytes_at (memcpy m p bs) p (length bs) = bs"
proof (induction m p bs rule: memcpy.induct)
  case (1 m p)
  show ?case by (simp add: bytes_at_def)
next
  case (2 m p b bs)
  have "[p..<p + length (b # bs)] = p # [Suc p..<Suc p + length bs]"
    by (rule trans [OF upt_conv_Cons]) simp_all
  with 2 show ?case
    by (simp only: bytes_at_def list.map memcpy.simps) (simp add: memcpy_outside)
qed

lemma bytes_at_memcpy_disjoint [mem_simps]:
  "disjoint_blocks p (length bs) q k \<Longrightarrow> bytes_at (memcpy m p bs) q k = bytes_at m q k"
  by (auto simp: bytes_at_def disjoint_blocks_def memcpy_outside)

section \<open>Sets of live blocks\<close>

text \<open>
  The blocks a client holds of a memory resource: a map from the address to the size. Blocks are
  separate when none is at \<^verbatim>\<open>nullptr\<close> and no two overlap.
\<close>

type_synonym blocks = "addr \<rightharpoonup> nat"

definition separate :: "blocks \<Rightarrow> bool" where
  "separate L \<longleftrightarrow> L nullptr = None \<and>
     (\<forall>p n q k. L p = Some n \<longrightarrow> L q = Some k \<longrightarrow> p \<noteq> q \<longrightarrow> disjoint_blocks p n q k)"

lemma separate_empty [simp]: "separate Map.empty"
  by (simp add: separate_def)

lemma separate_disjoint:
  "separate L \<Longrightarrow> L p = Some n \<Longrightarrow> L q = Some k \<Longrightarrow> p \<noteq> q \<Longrightarrow> disjoint_blocks p n q k"
  by (auto simp: separate_def)

lemma separate_not_null: "separate L \<Longrightarrow> L p = Some n \<Longrightarrow> p \<noteq> nullptr"
  unfolding separate_def by (metis option.distinct(1))

lemma separate_subset: "separate L \<Longrightarrow> L' \<subseteq>\<^sub>m L \<Longrightarrow> separate L'"
  unfolding separate_def map_le_def by (metis domI domIff)

section \<open>Reachability\<close>

text \<open>The states a system with initial states \<open>init\<close> and steps \<open>step\<close> can get into.\<close>

inductive reach :: "('s \<Rightarrow> bool) \<Rightarrow> ('s \<Rightarrow> 's \<Rightarrow> bool) \<Rightarrow> 's \<Rightarrow> bool"
  for init :: "'s \<Rightarrow> bool" and step :: "'s \<Rightarrow> 's \<Rightarrow> bool" where
  reach_init: "init s \<Longrightarrow> reach init step s"
| reach_step: "reach init step s \<Longrightarrow> step s t \<Longrightarrow> reach init step t"

lemma reach_invariant:
  assumes "reach init step s"
    and "\<And>s. init s \<Longrightarrow> I s"
    and "\<And>s t. reach init step s \<Longrightarrow> I s \<Longrightarrow> step s t \<Longrightarrow> I t"
  shows "I s"
  using assms(1) by (induction rule: reach.induct) (auto intro: assms(2,3))

section \<open>Sums over the threads\<close>

text \<open>A weight per program counter, summed over the list of all threads' counters.\<close>

definition tally :: "('p \<Rightarrow> nat) \<Rightarrow> 'p list \<Rightarrow> nat" where
  "tally f pcs = sum_list (map f pcs)"

lemma tally_update:
  "t < length pcs \<Longrightarrow> tally f (pcs[t := p]) + f (pcs ! t) = tally f pcs + f p"
proof (induction pcs arbitrary: t)
  case (Cons q pcs)
  then show ?case by (cases t) (auto simp: tally_def)
qed simp

lemma tally_zero: "tally f pcs = 0 \<longleftrightarrow> (\<forall>p \<in> set pcs. f p = 0)"
  by (auto simp: tally_def)

lemma tally_replicate [simp]: "tally f (replicate n p) = n * f p"
  by (induction n) (simp_all add: tally_def)

lemma tally_member: "t < length pcs \<Longrightarrow> f (pcs ! t) \<le> tally f pcs"
  unfolding tally_def by (metis elem_le_sum_list length_map nth_map)

end
