(* ===== verification/MemoryResource.thy ===== *)
theory MemoryResource
  imports Prelude
begin

text \<open>
  The \<^verbatim>\<open>std::pmr::memory_resource\<close> interface as a record of its virtual functions over the
  resource's state, the contract the library relies on as a locale, and the resources the code
  wires together: \<^verbatim>\<open>null_memory_resource\<close>, \<^verbatim>\<open>monotonic_buffer_resource\<close> over a null upstream
  (MailboxData.h, TimerManagerData.h), \<^verbatim>\<open>synchronized_pool_resource\<close> over an upstream, and the
  repository's own \<^verbatim>\<open>DiagResource\<close> (sandbox/DiagResource.h).
\<close>

section \<open>The interface\<close>

text \<open>
  \<^verbatim>\<open>do_allocate\<close> gives the block or, with \<open>None\<close>, throws; \<^verbatim>\<open>do_deallocate\<close> tells whether it
  returned normally.
\<close>

record 'r pmr =
  do_allocate :: "'r \<Rightarrow> size_t \<Rightarrow> size_t \<Rightarrow> addr option \<times> 'r"
  do_deallocate :: "'r \<Rightarrow> addr \<Rightarrow> size_t \<Rightarrow> size_t \<Rightarrow> bool \<times> 'r"

text \<open>
  \<open>owns r L\<close>: in state \<open>r\<close> the blocks \<open>L\<close> are the client's. The first locale is what an upstream
  resource promises to one that never gives memory back; the second adds deallocation.
\<close>

locale pmr_upstream =
  fixes mr :: "'r pmr" and owns :: "'r \<Rightarrow> blocks \<Rightarrow> bool"
  assumes owns_separate: "owns r L \<Longrightarrow> separate L"
    and allocate_owns:
      "owns r L \<Longrightarrow> do_allocate mr r n a = (Some p, r') \<Longrightarrow>
         p \<notin> dom L \<and> owns r' (L(p \<mapsto> unat n))"
    and allocate_throws: "owns r L \<Longrightarrow> do_allocate mr r n a = (None, r') \<Longrightarrow> owns r' L"

locale pmr_resource = pmr_upstream +
  assumes deallocate_owns:
    "owns r L \<Longrightarrow> L p = Some (unat n) \<Longrightarrow>
       \<exists>r'. do_deallocate mr r p n a = (True, r') \<and> owns r' (L(p := None))"

context pmr_upstream begin

lemma allocate_fresh:
  assumes "owns r L" and "do_allocate mr r n a = (Some p, r')"
  shows "p \<noteq> nullptr \<and> L p = None \<and> owns r' (L(p \<mapsto> unat n)) \<and>
    (\<forall>q k. L q = Some k \<longrightarrow> disjoint_blocks p (unat n) q k)"
proof -
  from allocate_owns [OF assms] have fresh: "L p = None" and o: "owns r' (L(p \<mapsto> unat n))"
    by auto
  have sep: "separate (L(p \<mapsto> unat n))" by (rule owns_separate [OF o])
  have "p \<noteq> nullptr" by (rule separate_not_null [OF sep]) simp
  moreover have "disjoint_blocks p (unat n) q k" if "L q = Some k" for q k
    using sep that fresh by (auto intro!: separate_disjoint [OF sep])
  ultimately show ?thesis using fresh o by blast
qed

end

section \<open>null_memory_resource\<close>

definition null_pmr :: "unit pmr" where
  "null_pmr = \<lparr>do_allocate = (\<lambda>r n a. (None, r)), do_deallocate = (\<lambda>r p n a. (True, r))\<rparr>"

interpretation null_res: pmr_resource null_pmr "\<lambda>r L. L = Map.empty"
  by unfold_locales (auto simp: null_pmr_def)

section \<open>monotonic_buffer_resource over a null upstream\<close>

text \<open>
  The unused part of the buffer is \<open>[mb_cur, mb_end)\<close>. Allocation aligns the current address and
  advances it (a request of no bytes takes one, so that pointers differ); when the buffer is
  used up the null upstream throws. Deallocation does nothing.
\<close>

record monotonic =
  mb_cur :: addr
  mb_end :: addr

definition align_up :: "nat \<Rightarrow> nat \<Rightarrow> nat" where
  "align_up a x = (x + (a - 1)) div a * a"

definition monotonic_allocate :: "monotonic \<Rightarrow> size_t \<Rightarrow> size_t \<Rightarrow> addr option \<times> monotonic" where
  "monotonic_allocate s n a =
     (let p = max (mb_cur s) (align_up (unat a) (mb_cur s)); k = max 1 (unat n)
      in if p + k \<le> mb_end s then (Some p, s\<lparr>mb_cur := p + k\<rparr>) else (None, s))"

definition monotonic_pmr :: "monotonic pmr" where
  "monotonic_pmr = \<lparr>do_allocate = monotonic_allocate, do_deallocate = (\<lambda>s p n a. (True, s))\<rparr>"

definition monotonic_new :: "addr \<Rightarrow> size_t \<Rightarrow> monotonic" where
  "monotonic_new base n = \<lparr>mb_cur = base, mb_end = base + unat n\<rparr>"

definition monotonic_owns :: "monotonic \<Rightarrow> blocks \<Rightarrow> bool" where
  "monotonic_owns s L \<longleftrightarrow> 0 < mb_cur s \<and> separate L \<and>
     (\<forall>p n. L p = Some n \<longrightarrow> p < mb_cur s \<and> p + n \<le> mb_cur s)"

lemma monotonic_new_owns: "0 < base \<Longrightarrow> monotonic_owns (monotonic_new base n) Map.empty"
  by (simp add: monotonic_owns_def monotonic_new_def)

lemma monotonic_allocate_owns:
  assumes o: "monotonic_owns s L" and al: "monotonic_allocate s n a = (Some p, s')"
  shows "p \<notin> dom L \<and> monotonic_owns s' (L(p \<mapsto> unat n))"
proof -
  from al have p: "mb_cur s \<le> p" and s': "s' = s\<lparr>mb_cur := p + max 1 (unat n)\<rparr>"
    by (auto simp: monotonic_allocate_def Let_def split: if_splits)
  have fresh: "p \<notin> dom L" using o p by (fastforce simp: monotonic_owns_def)
  have "disjoint_blocks q k p (unat n)" if "L q = Some k" for q k
    using o p that by (fastforce simp: monotonic_owns_def disjoint_blocks_def)
  then have "separate (L(p \<mapsto> unat n))"
    using o p by (auto simp: monotonic_owns_def separate_def intro: disjoint_blocks_sym)
  moreover have "q < p + max 1 (unat n) \<and> q + k \<le> p + max 1 (unat n)"
    if "(L(p \<mapsto> unat n)) q = Some k" for q k
    using o p that by (fastforce simp: monotonic_owns_def split: if_splits)
  ultimately show ?thesis using fresh o p by (simp add: monotonic_owns_def s')
qed

interpretation mono_res: pmr_resource monotonic_pmr monotonic_owns
proof
  fix r L n a p r'
  assume "monotonic_owns r L" "do_allocate monotonic_pmr r n a = (Some p, r')"
  then show "p \<notin> dom L \<and> monotonic_owns r' (L(p \<mapsto> unat n))"
    using monotonic_allocate_owns [of r L n a p r'] by (simp add: monotonic_pmr_def)
next
  fix r L p n a
  assume o: "monotonic_owns r L"
  have "separate (L(p := None))"
    using o by (auto simp: monotonic_owns_def intro: separate_subset simp: map_le_def)
  then show "\<exists>r'. do_deallocate monotonic_pmr r p n a = (True, r') \<and> monotonic_owns r' (L(p := None))"
    using o by (auto simp: monotonic_pmr_def monotonic_owns_def)
qed (auto simp: monotonic_pmr_def monotonic_allocate_def monotonic_owns_def Let_def split: if_splits)

section \<open>synchronized_pool_resource\<close>

text \<open>
  A pool keeps what is given back and hands it out again to a request of the same size and
  alignment; otherwise it asks its upstream. Its own mutex makes each call atomic, so a call is
  one function on the state. How many blocks an implementation fetches ahead is its own choice;
  this one fetches none.
\<close>

type_synonym free_block = "addr \<times> size_t \<times> size_t"

record 'u sync_pool =
  sp_free :: "free_block list"
  sp_up :: 'u

fun take_free :: "size_t \<Rightarrow> size_t \<Rightarrow> free_block list \<Rightarrow> (addr \<times> free_block list) option" where
  "take_free n a [] = None"
| "take_free n a ((p, k, b) # fs) =
     (if k = n \<and> b = a then Some (p, fs)
      else map_option (\<lambda>(q, gs). (q, (p, k, b) # gs)) (take_free n a fs))"

definition sync_pool_allocate ::
  "'u pmr \<Rightarrow> 'u sync_pool \<Rightarrow> size_t \<Rightarrow> size_t \<Rightarrow> addr option \<times> 'u sync_pool" where
  "sync_pool_allocate up s n a =
     (case take_free n a (sp_free s) of
        Some (p, fs) \<Rightarrow> (Some p, s\<lparr>sp_free := fs\<rparr>)
      | None \<Rightarrow> (let (x, u) = do_allocate up (sp_up s) n a in (x, s\<lparr>sp_up := u\<rparr>)))"

definition sync_pool_pmr :: "'u pmr \<Rightarrow> 'u sync_pool pmr" where
  "sync_pool_pmr up =
     \<lparr>do_allocate = sync_pool_allocate up,
      do_deallocate = (\<lambda>s p n a. (True, s\<lparr>sp_free := (p, n, a) # sp_free s\<rparr>))\<rparr>"

definition sync_pool_new :: "'u \<Rightarrow> 'u sync_pool" where
  "sync_pool_new u = \<lparr>sp_free = [], sp_up = u\<rparr>"

definition free_map :: "free_block list \<Rightarrow> blocks" where
  "free_map fs = map_of (map (\<lambda>(p, n, a). (p, unat n)) fs)"

text \<open>What the upstream granted is what the client holds together with the free list.\<close>

definition sync_pool_owns ::
  "('u \<Rightarrow> blocks \<Rightarrow> bool) \<Rightarrow> 'u sync_pool \<Rightarrow> blocks \<Rightarrow> bool" where
  "sync_pool_owns up_owns s L \<longleftrightarrow>
     distinct (map fst (sp_free s)) \<and> dom L \<inter> fst ` set (sp_free s) = {} \<and>
     up_owns (sp_up s) (L ++ free_map (sp_free s))"

lemma free_map_Nil [simp]: "free_map [] = Map.empty"
  by (simp add: free_map_def)

lemma free_map_Cons [simp]: "free_map ((p, n, a) # fs) = (free_map fs)(p \<mapsto> unat n)"
  by (simp add: free_map_def)

lemma dom_free_map [simp]: "dom (free_map fs) = fst ` set fs"
proof (induction fs)
  case (Cons f fs)
  then show ?case by (cases f) (simp del: fun_upd_apply)
qed simp

lemma free_map_not_in: "p \<notin> fst ` set fs \<Longrightarrow> free_map fs p = None"
  by (metis dom_free_map domIff)

lemma take_free_Some:
  assumes "take_free n a fs = Some (p, gs)" and "distinct (map fst fs)"
  shows "distinct (map fst gs) \<and> fst ` set fs = insert p (fst ` set gs) \<and>
    p \<notin> fst ` set gs \<and> free_map fs = (free_map gs)(p \<mapsto> unat n)"
  using assms
proof (induction n a fs arbitrary: gs rule: take_free.induct)
  case (2 n a q k b fs)
  show ?case
  proof (cases "k = n \<and> b = a")
    case True
    with 2 show ?thesis by auto
  next
    case False
    with 2(2) obtain hs where hs: "take_free n a fs = Some (p, hs)" and gs: "gs = (q, k, b) # hs"
      by (auto split: prod.splits)
    with False 2(1,3) have ih: "distinct (map fst hs)" "fst ` set fs = insert p (fst ` set hs)"
        "p \<notin> fst ` set hs" "free_map fs = (free_map hs)(p \<mapsto> unat n)"
      by auto
    have "q \<noteq> p" using ih(2) 2(3) by auto
    then show ?thesis using ih 2(3) by (auto simp: gs fun_upd_twist)
  qed
qed simp

lemma sync_pool_resource:
  assumes "pmr_upstream up up_owns"
  shows "pmr_resource (sync_pool_pmr up) (sync_pool_owns up_owns)"
proof
  fix r L
  assume "sync_pool_owns up_owns r L"
  then have "separate (L ++ free_map (sp_free r))" and "L \<subseteq>\<^sub>m L ++ free_map (sp_free r)"
    using pmr_upstream.owns_separate [OF assms]
    by (auto simp: sync_pool_owns_def map_le_def map_add_def free_map_not_in disjoint_iff
        split: option.splits)
  then show "separate L" by (rule separate_subset)
next
  fix r L n a p r'
  assume o: "sync_pool_owns up_owns r L"
    and al: "do_allocate (sync_pool_pmr up) r n a = (Some p, r')"
  show "p \<notin> dom L \<and> sync_pool_owns up_owns r' (L(p \<mapsto> unat n))"
  proof (cases "take_free n a (sp_free r)")
    case (Some pg)
    with al obtain gs where tf: "take_free n a (sp_free r) = Some (p, gs)"
        and r': "r' = r\<lparr>sp_free := gs\<rparr>"
      by (cases pg) (auto simp: sync_pool_pmr_def sync_pool_allocate_def)
    from o have "distinct (map fst (sp_free r))" by (simp add: sync_pool_owns_def)
    note t = take_free_Some [OF tf this]
    then have "L(p \<mapsto> unat n) ++ free_map gs = L ++ free_map (sp_free r)"
      by (auto simp: map_add_def fun_eq_iff free_map_not_in split: option.splits)
    then show ?thesis using o t by (auto simp: sync_pool_owns_def r')
  next
    case None
    with al obtain u where u: "do_allocate up (sp_up r) n a = (Some p, u)"
        and r': "r' = r\<lparr>sp_up := u\<rparr>"
      by (auto simp: sync_pool_pmr_def sync_pool_allocate_def split: prod.splits)
    from o have uo: "up_owns (sp_up r) (L ++ free_map (sp_free r))"
      by (simp add: sync_pool_owns_def)
    from pmr_upstream.allocate_owns [OF assms uo u]
    have "p \<notin> dom L \<union> fst ` set (sp_free r)"
        and "up_owns u ((L ++ free_map (sp_free r))(p \<mapsto> unat n))"
      by (simp_all del: fun_upd_apply)
    moreover from this(1) have
      "(L ++ free_map (sp_free r))(p \<mapsto> unat n) = L(p \<mapsto> unat n) ++ free_map (sp_free r)"
      by (auto simp: map_add_def fun_eq_iff free_map_not_in split: option.splits)
    ultimately show ?thesis using o by (simp add: sync_pool_owns_def r')
  qed
next
  fix r L n a r'
  assume o: "sync_pool_owns up_owns r L" and al: "do_allocate (sync_pool_pmr up) r n a = (None, r')"
  then obtain u where "do_allocate up (sp_up r) n a = (None, u)" and "r' = r\<lparr>sp_up := u\<rparr>"
    by (auto simp: sync_pool_pmr_def sync_pool_allocate_def split: option.splits prod.splits)
  then show "sync_pool_owns up_owns r' L"
    using o pmr_upstream.allocate_throws [OF assms] by (auto simp: sync_pool_owns_def)
next
  fix r L p and n a :: size_t
  assume o: "sync_pool_owns up_owns r L" and p: "L p = Some (unat n)"
  then have "p \<notin> fst ` set (sp_free r)" by (auto simp: sync_pool_owns_def)
  moreover from this p have
    "L(p := None) ++ (free_map (sp_free r))(p \<mapsto> unat n) = L ++ free_map (sp_free r)"
    by (auto simp: map_add_def fun_eq_iff free_map_not_in split: option.splits)
  ultimately show "\<exists>r'. do_deallocate (sync_pool_pmr up) r p n a = (True, r') \<and>
      sync_pool_owns up_owns r' (L(p := None))"
    using o by (auto simp: sync_pool_pmr_def sync_pool_owns_def)
qed

interpretation pool_res:
  pmr_resource "sync_pool_pmr monotonic_pmr" "sync_pool_owns monotonic_owns"
  by (rule sync_pool_resource [OF mono_res.pmr_upstream_axioms])

lemma sync_pool_new_owns:
  "up_owns u Map.empty \<Longrightarrow> sync_pool_owns up_owns (sync_pool_new u) Map.empty"
  by (simp add: sync_pool_owns_def sync_pool_new_def)

section \<open>DiagResource\<close>

text \<open>
  The logging resource of the sandbox. Each \<^verbatim>\<open>spdlog::trace\<close> call is an event of the log; when
  the upstream throws, the second trace of \<^verbatim>\<open>do_allocate\<close> is not reached.
\<close>

datatype diag_event =
    Alloc_Request string size_t size_t
  | Alloc_Result string addr
  | Dealloc_Request string addr size_t size_t

record 'u diag =
  dg_name :: string
  dg_log :: "diag_event list"
  dg_up :: 'u

definition DiagResource_do_allocate ::
  "'u pmr \<Rightarrow> 'u diag \<Rightarrow> size_t \<Rightarrow> size_t \<Rightarrow> addr option \<times> 'u diag" where
  "DiagResource_do_allocate up s n a =
     (let s1 = s\<lparr>dg_log := dg_log s @ [Alloc_Request (dg_name s) n a]\<rparr>;
          (result, u) = do_allocate up (dg_up s1) n a;
          s2 = s1\<lparr>dg_up := u\<rparr>
      in case result of
           None \<Rightarrow> (None, s2)
         | Some p \<Rightarrow> (Some p, s2\<lparr>dg_log := dg_log s2 @ [Alloc_Result (dg_name s) p]\<rparr>))"

definition DiagResource_do_deallocate ::
  "'u pmr \<Rightarrow> 'u diag \<Rightarrow> addr \<Rightarrow> size_t \<Rightarrow> size_t \<Rightarrow> bool \<times> 'u diag" where
  "DiagResource_do_deallocate up s p n a =
     (let s1 = s\<lparr>dg_log := dg_log s @ [Dealloc_Request (dg_name s) p n a]\<rparr>;
          (ok, u) = do_deallocate up (dg_up s1) p n a
      in (ok, s1\<lparr>dg_up := u\<rparr>))"

definition DiagResource_pmr :: "'u pmr \<Rightarrow> 'u diag pmr" where
  "DiagResource_pmr up =
     \<lparr>do_allocate = DiagResource_do_allocate up, do_deallocate = DiagResource_do_deallocate up\<rparr>"

definition DiagResource_new :: "string \<Rightarrow> 'u \<Rightarrow> 'u diag" where
  "DiagResource_new name upstream = \<lparr>dg_name = name, dg_log = [], dg_up = upstream\<rparr>"

text \<open>Resources are compared by identity; \<open>this\<close> and \<open>other\<close> are their addresses.\<close>

definition DiagResource_do_is_equal :: "addr \<Rightarrow> addr \<Rightarrow> bool" where
  "DiagResource_do_is_equal this other \<longleftrightarrow> this = other"

lemma DiagResource_resource:
  fixes up :: "'a pmr"
  assumes "pmr_resource up up_owns"
  shows "pmr_resource (DiagResource_pmr up) (\<lambda>s. up_owns (dg_up s))"
proof -
  have u: "pmr_upstream up up_owns" using assms by (simp add: pmr_resource_def)
  show ?thesis
  proof
    fix r :: "'a diag" and L p and n a :: size_t
    assume "up_owns (dg_up r) L" "L p = Some (unat n)"
    from pmr_resource.deallocate_owns [OF assms this, of a]
    show "\<exists>r'. do_deallocate (DiagResource_pmr up) r p n a = (True, r') \<and>
        up_owns (dg_up r') (L(p := None))"
      by (auto simp: DiagResource_pmr_def DiagResource_do_deallocate_def
          split: prod.splits simp del: fun_upd_apply)
  qed (auto simp: DiagResource_pmr_def DiagResource_do_allocate_def Let_def
      split: prod.splits option.splits
      dest: pmr_upstream.owns_separate [OF u] pmr_upstream.allocate_owns [OF u]
        pmr_upstream.allocate_throws [OF u])
qed

text \<open>The chain of resources the sandbox programs build.\<close>

interpretation diag_res:
  pmr_resource "sync_pool_pmr (DiagResource_pmr monotonic_pmr)"
    "sync_pool_owns (\<lambda>s. monotonic_owns (dg_up s))"
proof (rule sync_pool_resource)
  from DiagResource_resource [OF mono_res.pmr_resource_axioms]
  show "pmr_upstream (DiagResource_pmr monotonic_pmr) (\<lambda>s. monotonic_owns (dg_up s))"
    by (simp add: pmr_resource_def)
qed

end
