(* ===== verification/BytePool.thy ===== *)
theory BytePool
  imports MemoryResource
begin

text \<open>
  \<^verbatim>\<open>DataBlock\<close> and \<^verbatim>\<open>BytePool\<close> (detail/BytePool.h), over any \<^verbatim>\<open>std::pmr::memory_resource\<close>. The
  pool's state is its three counters; the resource's state is threaded through \<^verbatim>\<open>alloc\<close> and
  \<^verbatim>\<open>free\<close>, as both pools of the mailbox share one resource.
\<close>

section \<open>DataBlock\<close>

record DataBlock =
  db_size :: size_t
  db_data :: addr

definition DataBlock_new :: "size_t \<Rightarrow> addr \<Rightarrow> DataBlock" where
  "DataBlock_new sz ptr = \<lparr>db_size = sz, db_data = ptr\<rparr>"

definition DataBlock_null :: DataBlock where
  "DataBlock_null = \<lparr>db_size = 0, db_data = nullptr\<rparr>"

text \<open>
  \<open>t\<close> is an object of a type that the \<^verbatim>\<open>static_assert\<close> accepts, so the last conjunct of the
  run-time test is true.
\<close>

definition DataBlock_put :: "DataBlock \<Rightarrow> byte list \<Rightarrow> mem \<Rightarrow> bool \<times> mem" where
  "DataBlock_put db t m =
     (if db_data db \<noteq> nullptr \<and> length t \<le> unat (db_size db)
      then (True, memcpy m (db_data db) t) else (False, m))"

lemma DataBlock_simps [simp]:
  "db_size (DataBlock_new n p) = n" "db_data (DataBlock_new n p) = p"
  "db_size DataBlock_null = 0" "db_data DataBlock_null = nullptr"
  by (simp_all add: DataBlock_new_def DataBlock_null_def)

section \<open>BytePool\<close>

text \<open>\<open>bp_size\<close> counts the elements that are left, not those handed out.\<close>

record BytePool =
  bp_eltSize :: size_t
  bp_size :: size_t
  bp_capacity :: size_t

definition BytePool_new :: "size_t \<Rightarrow> size_t \<Rightarrow> BytePool" where
  "BytePool_new eltSize capacity =
     \<lparr>bp_eltSize = eltSize, bp_size = capacity, bp_capacity = capacity\<rparr>"

text \<open>\<^verbatim>\<open>polymorphic_allocator<std::byte>\<close> asks for \<^verbatim>\<open>m_eltSize\<close> bytes at alignment 1.\<close>

definition BytePool_alloc :: "'r pmr \<Rightarrow> BytePool \<Rightarrow> 'r \<Rightarrow> DataBlock \<times> BytePool \<times> 'r" where
  "BytePool_alloc mr b r =
     (if bp_size b > 0 then
        (case do_allocate mr r (bp_eltSize b) 1 of
           (Some result, r') \<Rightarrow>
             (DataBlock_new (bp_eltSize b) result, b\<lparr>bp_size := bp_size b - 1\<rparr>, r')
         | (None, r') \<Rightarrow> (DataBlock_null, b, r'))
      else (DataBlock_null, b, r))"

definition BytePool_free :: "'r pmr \<Rightarrow> BytePool \<Rightarrow> 'r \<Rightarrow> addr \<Rightarrow> BytePool \<times> 'r" where
  "BytePool_free mr b r t =
     (if t \<noteq> nullptr then
        (case do_deallocate mr r t (bp_eltSize b) 1 of
           (True, r') \<Rightarrow> (b\<lparr>bp_size := bp_size b + 1\<rparr>, r')
         | (False, r') \<Rightarrow> (b, r'))
      else (b, r))"

lemma BytePool_alloc_frame:
  "BytePool_alloc mr b r = (db, b', r') \<Longrightarrow>
     bp_eltSize b' = bp_eltSize b \<and> bp_capacity b' = bp_capacity b"
  by (auto simp: BytePool_alloc_def split: if_splits prod.splits option.splits)

lemma BytePool_free_frame:
  "BytePool_free mr b r p = (b', r') \<Longrightarrow>
     bp_eltSize b' = bp_eltSize b \<and> bp_capacity b' = bp_capacity b"
  by (auto simp: BytePool_free_def split: if_splits prod.splits bool.splits)

section \<open>The counter agrees with the blocks that are out\<close>

definition pool_inv :: "BytePool \<Rightarrow> addr set \<Rightarrow> bool" where
  "pool_inv b S \<longleftrightarrow> finite S \<and> unat (bp_size b) + card S = unat (bp_capacity b)"

lemma pool_inv_new: "pool_inv (BytePool_new n c) {}"
  by (simp add: pool_inv_def BytePool_new_def)

lemma unat_pred: "(x :: size_t) > 0 \<Longrightarrow> unat (x - 1) = unat x - 1"
  by (simp add: unat_minus_one word_neq_0_conv)

lemma unat_succ: "unat (x :: size_t) < unat (y :: size_t) \<Longrightarrow> unat (x + 1) = unat x + 1"
proof -
  assume "unat x < unat y"
  moreover have "unat y < 2 ^ 64" using unsigned_less [of y] by simp
  ultimately show ?thesis by (simp add: unat_word_ariths)
qed

lemma pool_inv_take:
  assumes "pool_inv b S" and "bp_size b > 0" and "p \<notin> S"
  shows "pool_inv (b\<lparr>bp_size := bp_size b - 1\<rparr>) (insert p S)"
proof -
  have "unat (bp_size b) > 0" using assms(2) by (simp add: word_less_nat_alt)
  then show ?thesis using assms by (auto simp: pool_inv_def unat_pred)
qed

lemma pool_inv_give:
  assumes "pool_inv b S" and "p \<in> S"
  shows "pool_inv (b\<lparr>bp_size := bp_size b + 1\<rparr>) (S - {p})"
proof -
  have fin: "finite S" using assms(1) by (simp add: pool_inv_def)
  note c = card_Suc_Diff1 [OF fin assms(2), symmetric]
  from c have "unat (bp_size b) < unat (bp_capacity b)"
    using assms(1) by (simp only: pool_inv_def) linarith
  from unat_succ [OF this] show ?thesis
    using assms(1) fin c by (simp only: pool_inv_def) simp
qed

text \<open>
  The pool can hand out \<open>k\<close> blocks in a row: its counter allows it and the resource serves \<open>k\<close>
  requests.
\<close>

fun serves :: "'r pmr \<Rightarrow> size_t \<Rightarrow> nat \<Rightarrow> 'r \<Rightarrow> bool" where
  "serves mr n 0 r \<longleftrightarrow> True"
| "serves mr n (Suc k) r \<longleftrightarrow>
     (case do_allocate mr r n 1 of (Some _, r') \<Rightarrow> serves mr n k r' | (None, _) \<Rightarrow> False)"

definition pool_stock :: "'r pmr \<Rightarrow> BytePool \<Rightarrow> 'r \<Rightarrow> nat \<Rightarrow> bool" where
  "pool_stock mr b r k \<longleftrightarrow> k \<le> unat (bp_size b) \<and> serves mr (bp_eltSize b) k r"

lemma pool_stock_step:
  assumes "pool_stock mr b r (Suc k)"
  obtains p r' where "do_allocate mr r (bp_eltSize b) 1 = (Some p, r')" "bp_size b > 0"
    "pool_stock mr (b\<lparr>bp_size := bp_size b - 1\<rparr>) r' k"
proof -
  from assms have n: "Suc k \<le> unat (bp_size b)" by (simp add: pool_stock_def)
  then have "bp_size b > 0" by (simp add: word_less_nat_alt)
  with n assms show thesis
    by (auto simp: pool_stock_def unat_pred intro: that split: prod.splits option.splits)
qed

context pmr_resource begin

lemma pool_alloc_owned:
  assumes o: "owns r L" and i: "pool_inv b S" and S: "S \<subseteq> dom L"
    and al: "BytePool_alloc mr b r = (db, b', r')"
  obtains (exhausted) "db = DataBlock_null" "b' = b" "owns r' L" "\<And>k. \<not> pool_stock mr b r (Suc k)"
    | (block) p where "db = DataBlock_new (bp_eltSize b) p" "p \<noteq> nullptr" "L p = None"
        "owns r' (L(p \<mapsto> unat (bp_eltSize b)))" "pool_inv b' (insert p S)"
        "\<And>q k. L q = Some k \<Longrightarrow> disjoint_blocks p (unat (bp_eltSize b)) q k"
        "\<And>k. pool_stock mr b r (Suc k) \<Longrightarrow> pool_stock mr b' r' k"
proof (cases "bp_size b > 0")
  case False
  then show ?thesis using al o
    by (intro exhausted) (auto simp: BytePool_alloc_def elim: pool_stock_step)
next
  case True
  obtain x r1 where d: "do_allocate mr r (bp_eltSize b) 1 = (x, r1)" by fastforce
  show ?thesis
  proof (cases x)
    case None
    then show ?thesis using al d True allocate_throws [OF o]
      by (intro exhausted) (auto simp: BytePool_alloc_def elim: pool_stock_step)
  next
    case (Some p)
    note f = allocate_fresh [OF o d [unfolded Some]]
    from al d True Some have "db = DataBlock_new (bp_eltSize b) p" "r' = r1"
        "b' = b\<lparr>bp_size := bp_size b - 1\<rparr>"
      by (auto simp: BytePool_alloc_def)
    moreover have "p \<notin> S" using f S by auto
    ultimately show ?thesis
      using f pool_inv_take [OF i True] d Some
      by (intro block) (auto elim!: pool_stock_step)
  qed
qed

lemma pool_free_owned:
  assumes o: "owns r L" and i: "pool_inv b S" and p: "p \<in> S" "L p = Some (unat (bp_eltSize b))"
  obtains r' where "BytePool_free mr b r p = (b\<lparr>bp_size := bp_size b + 1\<rparr>, r')"
    "owns r' (L(p := None))" "pool_inv (b\<lparr>bp_size := bp_size b + 1\<rparr>) (S - {p})"
proof -
  have "p \<noteq> nullptr" by (rule separate_not_null [OF owns_separate [OF o] p(2)])
  with deallocate_owns [OF o p(2), of 1] show ?thesis
    by (auto simp: BytePool_free_def intro: that pool_inv_give [OF i p(1)])
qed

end

section \<open>Sequences of calls\<close>

text \<open>
  \<open>out\<close> are the elements handed out and not returned, in the order of their allocation;
  \<open>Pool_free i\<close> returns the \<open>i\<close>-th of them.
\<close>

datatype pool_op = Pool_alloc | Pool_free nat

fun pool_step ::
  "'r pmr \<Rightarrow> pool_op \<Rightarrow> BytePool \<times> 'r \<times> addr list \<Rightarrow> BytePool \<times> 'r \<times> addr list" where
  "pool_step mr Pool_alloc (b, r, out) =
     (let (db, b', r') = BytePool_alloc mr b r
      in (b', r', if db_data db \<noteq> nullptr then out @ [db_data db] else out))"
| "pool_step mr (Pool_free i) (b, r, out) =
     (if i < length out then
        (let (b', r') = BytePool_free mr b r (out ! i) in (b', r', take i out @ drop (Suc i) out))
      else (b, r, out))"

definition pool_run ::
  "'r pmr \<Rightarrow> pool_op list \<Rightarrow> BytePool \<times> 'r \<times> addr list \<Rightarrow> BytePool \<times> 'r \<times> addr list" where
  "pool_run mr ops s = fold (pool_step mr) ops s"

definition out_blocks :: "nat \<Rightarrow> addr list \<Rightarrow> blocks" where
  "out_blocks n out = (\<lambda>p. if p \<in> set out then Some n else None)"

lemma out_blocks_simps [simp]:
  "out_blocks n [] = Map.empty" "dom (out_blocks n out) = set out"
  "p \<in> set out \<Longrightarrow> out_blocks n out p = Some n"
  "out_blocks n (out @ [p]) = (out_blocks n out)(p \<mapsto> n)"
  by (auto simp: out_blocks_def split: if_splits)

lemma remove_nth:
  assumes "i < length xs" and "distinct xs"
  shows "set (take i xs @ drop (Suc i) xs) = set xs - {xs ! i}" "distinct (take i xs @ drop (Suc i) xs)"
    "length (take i xs @ drop (Suc i) xs) = length xs - 1"
proof -
  have xs: "xs = take i xs @ xs ! i # drop (Suc i) xs" by (rule id_take_nth_drop [OF assms(1)])
  with assms(2) have d: "distinct (take i xs @ xs ! i # drop (Suc i) xs)" by simp
  have "set xs = set (take i xs @ xs ! i # drop (Suc i) xs)" using xs by simp
  then show "set (take i xs @ drop (Suc i) xs) = set xs - {xs ! i}" using d by auto
  show "distinct (take i xs @ drop (Suc i) xs)" using d by simp
  show "length (take i xs @ drop (Suc i) xs) = length xs - 1" using assms(1) by simp
qed

definition pool_state_inv ::
  "('r \<Rightarrow> blocks \<Rightarrow> bool) \<Rightarrow> size_t \<Rightarrow> size_t \<Rightarrow> BytePool \<times> 'r \<times> addr list \<Rightarrow> bool" where
  "pool_state_inv owns n c s \<longleftrightarrow>
     (case s of (b, r, out) \<Rightarrow> bp_eltSize b = n \<and> bp_capacity b = c \<and> distinct out \<and>
        pool_inv b (set out) \<and> owns r (out_blocks (unat n) out))"

context pmr_resource begin

lemma pool_step_inv:
  assumes "pool_state_inv owns n c s"
  shows "pool_state_inv owns n c (pool_step mr x s)"
proof -
  obtain b r out where s: "s = (b, r, out)" by (cases s)
  from assms have i: "bp_eltSize b = n" "bp_capacity b = c" "distinct out" "pool_inv b (set out)"
      "owns r (out_blocks (unat n) out)"
    by (simp_all add: pool_state_inv_def s)
  show ?thesis
  proof (cases x)
    case Pool_alloc
    obtain db b' r' where al: "BytePool_alloc mr b r = (db, b', r')" by (metis prod_cases3)
    note frame = BytePool_alloc_frame [OF al]
    have dom: "set out \<subseteq> dom (out_blocks (unat n) out)" by simp
    from i(5,4) dom al show ?thesis
    proof (cases rule: pool_alloc_owned)
      case exhausted
      then show ?thesis using i frame by (simp add: pool_state_inv_def s Pool_alloc al)
    next
      case (block p)
      then have "p \<notin> set out" by (metis out_blocks_simps(3) option.distinct(1))
      with block show ?thesis using i frame
        by (simp add: pool_state_inv_def s Pool_alloc al del: fun_upd_apply)
    qed
  next
    case (Pool_free j)
    show ?thesis
    proof (cases "j < length out")
      case False
      then show ?thesis using assms by (simp add: s Pool_free)
    next
      case True
      then have p: "out ! j \<in> set out" by simp
      then have "out_blocks (unat n) out (out ! j) = Some (unat (bp_eltSize b))" by (simp add: i(1))
      from pool_free_owned [OF i(5,4) p this] obtain r' where
          f: "BytePool_free mr b r (out ! j) = (b\<lparr>bp_size := bp_size b + 1\<rparr>, r')"
          "owns r' ((out_blocks (unat n) out)(out ! j := None))"
          "pool_inv (b\<lparr>bp_size := bp_size b + 1\<rparr>) (set out - {out ! j})"
        by blast
      note rem = remove_nth [OF True i(3)]
      have "(out_blocks (unat n) out)(out ! j := None) =
          out_blocks (unat n) (take j out @ drop (Suc j) out)"
        unfolding out_blocks_def rem(1) by auto
      then show ?thesis using f True rem(1,2) i(1,2)
        by (simp add: pool_state_inv_def s Pool_free del: fun_upd_apply set_append)
    qed
  qed
qed

lemma pool_run_inv: "pool_state_inv owns n c s \<Longrightarrow> pool_state_inv owns n c (pool_run mr ops s)"
  unfolding pool_run_def by (induction ops arbitrary: s) (simp_all add: pool_step_inv)

end

text \<open>
  C20. Over any memory resource, after any calls of \<^verbatim>\<open>alloc\<close> and \<^verbatim>\<open>free\<close> on a new pool: the elements
  that are out are distinct, non-null and do not overlap; their number and \<^verbatim>\<open>size()\<close> (what is left)
  add up to the capacity; and a further \<^verbatim>\<open>alloc\<close> fails if all are out.
\<close>
theorem pool_accounting:
  fixes mr :: "'r pmr"
  assumes "pmr_resource mr owns" and "owns r Map.empty"
    and "pool_run mr ops (BytePool_new n c, r, []) = (b, r', out)"
  shows "distinct out \<and> nullptr \<notin> set out \<and>
    (\<forall>p \<in> set out. \<forall>q \<in> set out. p \<noteq> q \<longrightarrow> disjoint_blocks p (unat n) q (unat n)) \<and>
    unat (bp_size b) + length out = unat c \<and>
    (length out = unat c \<longrightarrow> fst (BytePool_alloc mr b r') = DataBlock_null)"
proof -
  have "pool_state_inv owns n c (BytePool_new n c, r, [])"
    using assms(2) by (simp add: pool_state_inv_def BytePool_new_def pool_inv_def)
  from pmr_resource.pool_run_inv [OF assms(1) this, of ops] assms(3)
  have i: "distinct out" "pool_inv b (set out)" "owns r' (out_blocks (unat n) out)" "bp_capacity b = c"
    by (simp_all add: pool_state_inv_def)
  have sep: "separate (out_blocks (unat n) out)"
    by (rule pmr_upstream.owns_separate [where mr = mr and owns = owns, OF _ i(3)])
      (use assms(1) in \<open>simp add: pmr_resource_def\<close>)
  have "nullptr \<notin> set out" using separate_not_null [OF sep] by force
  moreover have "disjoint_blocks p (unat n) q (unat n)" if "p \<in> set out" "q \<in> set out" "p \<noteq> q" for p q
    using separate_disjoint [OF sep] that by simp
  moreover have total: "unat (bp_size b) + length out = unat c"
    using i by (simp add: pool_inv_def distinct_card)
  moreover have "fst (BytePool_alloc mr b r') = DataBlock_null" if "length out = unat c"
    using that total by (simp add: BytePool_alloc_def word_less_nat_alt)
  ultimately show ?thesis using i(1) by blast
qed

lemma mono_start: "sync_pool_owns monotonic_owns (sync_pool_new (monotonic_new 4096 64)) Map.empty"
  by (intro sync_pool_new_owns monotonic_new_owns) simp

theorem pool_accounting_witness:
  "\<exists>b r p. pool_run (sync_pool_pmr monotonic_pmr) [Pool_alloc, Pool_alloc, Pool_free 0]
      (BytePool_new 16 2, sync_pool_new (monotonic_new 4096 64), []) = (b, r, [p]) \<and>
     unat (bp_size b) + length [p] = 2"
proof -
  obtain b r p where run: "pool_run (sync_pool_pmr monotonic_pmr) [Pool_alloc, Pool_alloc, Pool_free 0]
      (BytePool_new 16 2, sync_pool_new (monotonic_new 4096 64), []) = (b, r, [p])"
    by (simp add: pool_run_def BytePool_new_def BytePool_alloc_def BytePool_free_def
        sync_pool_pmr_def sync_pool_new_def monotonic_pmr_def monotonic_new_def
        sync_pool_allocate_def monotonic_allocate_def align_up_def Let_def)
  show ?thesis
    using pool_accounting [OF pool_res.pmr_resource_axioms mono_start run] run by auto
qed

end
