(* ===== verification/Receiver.thy ===== *)
theory Receiver
  imports Prelude
begin

text \<open>
  \<^verbatim>\<open>struct Receivers\<close> (detail/Receiver.h): the up to three mailboxes registered for one label.
\<close>

definition MAX_RECEIVERS :: nat where "MAX_RECEIVERS = 3"

record Receivers =
  m_receivers :: "mbox option list"

definition Receivers_new :: Receivers where
  "Receivers_new = \<lparr>m_receivers = [None, None, None]\<rparr>"

text \<open>\<^verbatim>\<open>operator=\<close>; the test for self-assignment does not change the result.\<close>

definition Receivers_assign :: "Receivers \<Rightarrow> Receivers \<Rightarrow> Receivers" where
  "Receivers_assign this rhs = this\<lparr>m_receivers := m_receivers rhs\<rparr>"

fun add_loop :: "mbox option \<Rightarrow> mbox option list \<Rightarrow> bool \<times> mbox option list" where
  "add_loop mb [] = (False, [])"
| "add_loop mb (r # rs) =
     (if r = None then (True, mb # rs)
      else (let (ok, rs') = add_loop mb rs in (ok, r # rs')))"

definition Receivers_add :: "Receivers \<Rightarrow> mbox option \<Rightarrow> bool \<times> Receivers" where
  "Receivers_add R mb =
     (let (ok, rs) = add_loop mb (m_receivers R) in (ok, R\<lparr>m_receivers := rs\<rparr>))"

function remove_loop ::
  "mbox option \<Rightarrow> nat \<Rightarrow> bool \<Rightarrow> mbox option list \<Rightarrow> bool \<times> mbox option list" where
  "remove_loop mb i remove rs =
     (if i < MAX_RECEIVERS then
        (let rs' = (if rs ! i = mb then rs[i := None] else rs)
         in remove_loop mb (Suc i) (remove \<and> rs' ! i = None) rs')
      else (remove, rs))"
  by pat_completeness auto
termination
  by (relation "measure (\<lambda>(mb, i, remove, rs). MAX_RECEIVERS - i)") auto

declare remove_loop.simps [simp del]

definition Receivers_remove :: "Receivers \<Rightarrow> mbox option \<Rightarrow> bool \<times> Receivers" where
  "Receivers_remove R mb =
     (let (gone, rs) = remove_loop mb 0 True (m_receivers R) in (gone, R\<lparr>m_receivers := rs\<rparr>))"

section \<open>Well-formed receivers\<close>

definition Receivers_wf :: "Receivers \<Rightarrow> bool" where
  "Receivers_wf R \<longleftrightarrow> length (m_receivers R) = MAX_RECEIVERS"

lemma Receivers_new_wf [simp]: "Receivers_wf Receivers_new"
  by (simp add: Receivers_wf_def Receivers_new_def MAX_RECEIVERS_def)

lemma Receivers_assign_eq: "m_receivers (Receivers_assign R S) = m_receivers S"
  by (simp add: Receivers_assign_def)

lemma add_loop_full: "None \<notin> set rs \<Longrightarrow> add_loop mb rs = (False, rs)"
proof (induction rs)
  case (Cons r rs)
  then show ?case by (cases r) auto
qed simp

lemma add_loop_first:
  "None \<notin> set as \<Longrightarrow> add_loop mb (as @ None # bs) = (True, as @ mb # bs)"
proof (induction as)
  case (Cons r as)
  then show ?case by (cases r) auto
qed simp

lemma add_loop_cases:
  obtains (full) "None \<notin> set rs" "add_loop mb rs = (False, rs)"
    | (slot) as bs where "rs = as @ None # bs" "None \<notin> set as"
        "add_loop mb rs = (True, as @ mb # bs)"
proof (cases "None \<in> set rs")
  case True
  then obtain as bs where "rs = as @ None # bs" "None \<notin> set as"
    using split_list_first by metis
  then show ?thesis by (auto intro: slot add_loop_first)
qed (auto intro: full add_loop_full)

text \<open>Receivers are three slots; over three slots the index loop is a map.\<close>

lemma three_slots: "Receivers_wf R \<Longrightarrow> \<exists>a b c. m_receivers R = [a, b, c]"
  by (auto simp: Receivers_wf_def MAX_RECEIVERS_def length_Suc_conv eval_nat_numeral)

lemma remove_loop_map:
  assumes "length rs = MAX_RECEIVERS"
  shows "remove_loop mb 0 True rs =
    (list_all (\<lambda>r. r = None) (map (\<lambda>r. if r = mb then None else r) rs),
     map (\<lambda>r. if r = mb then None else r) rs)"
proof -
  obtain a b c where "rs = [a, b, c]"
    using three_slots [of "\<lparr>m_receivers = rs\<rparr>"] assms by (auto simp: Receivers_wf_def)
  then show ?thesis
    by (simp add: remove_loop.simps MAX_RECEIVERS_def Let_def eval_nat_numeral)
qed

lemma Receivers_add_wf:
  "Receivers_add R mb = (ok, R') \<Longrightarrow> Receivers_wf R \<Longrightarrow> Receivers_wf R'"
  by (cases rule: add_loop_cases [of "m_receivers R" mb])
    (auto simp: Receivers_add_def Receivers_wf_def)

lemma Receivers_remove_wf:
  "Receivers_remove R mb = (gone, R') \<Longrightarrow> Receivers_wf R \<Longrightarrow> Receivers_wf R'"
  by (auto simp: Receivers_remove_def Receivers_wf_def remove_loop_map)

section \<open>What the operations do\<close>

text \<open>
  \<^verbatim>\<open>add\<close> succeeds exactly if a slot is free; it then takes the first free slot and leaves the
  others alone, and on failure it changes nothing.
\<close>
lemma receivers_add_result:
  assumes "Receivers_wf R" and "Receivers_add R mb = (ok, R')"
  shows "(ok \<longleftrightarrow> None \<in> set (m_receivers R)) \<and> (\<not> ok \<longrightarrow> R' = R) \<and>
    (ok \<longrightarrow> (\<exists>i < MAX_RECEIVERS. m_receivers R ! i = None \<and>
       (\<forall>j < i. m_receivers R ! j \<noteq> None) \<and> m_receivers R' = (m_receivers R)[i := mb]))"
proof (cases rule: add_loop_cases [of "m_receivers R" mb])
  case full
  then show ?thesis using assms(2) by (simp add: Receivers_add_def)
next
  case (slot as bs)
  from assms(2) slot(3) have "ok" "m_receivers R' = as @ mb # bs" by (auto simp: Receivers_add_def)
  moreover have "length as < MAX_RECEIVERS" using assms(1) slot(1) by (simp add: Receivers_wf_def)
  moreover have "m_receivers R ! j \<noteq> None" if "j < length as" for j
    using slot(1,2) that by (metis nth_append nth_mem)
  moreover have "m_receivers R ! length as = None" "m_receivers R' = (m_receivers R)[length as := mb]"
    using slot(1) \<open>m_receivers R' = _\<close> by simp_all
  ultimately show ?thesis using slot(1) by auto
qed

lemma receivers_add_result_example:
  "\<exists>i < MAX_RECEIVERS. m_receivers \<lparr>m_receivers = [Some 4, None, None]\<rparr> ! i = None \<and>
     m_receivers (snd (Receivers_add \<lparr>m_receivers = [Some 4, None, None]\<rparr> (Some 5))) =
       [Some 4, None, None][i := Some 5]"
  using receivers_add_result [of "\<lparr>m_receivers = [Some 4, None, None]\<rparr>" "Some 5" True
      "snd (Receivers_add \<lparr>m_receivers = [Some 4, None, None]\<rparr> (Some 5))"]
  by (auto simp: Receivers_wf_def MAX_RECEIVERS_def Receivers_add_def)

text \<open>
  C31. \<^verbatim>\<open>remove\<close> takes back what \<^verbatim>\<open>add\<close> did: adding a mailbox that is not registered and removing
  it gives the receivers as they were. A mailbox added more than once is removed from all its
  slots, and the result tells whether no receiver is left.
\<close>
theorem receivers_roundtrip:
  assumes "Receivers_wf R" and "Receivers_add R (Some m) = (True, R')"
  shows "(Some m \<notin> set (m_receivers R) \<longrightarrow>
      Receivers_remove R' (Some m) = (set (m_receivers R) \<subseteq> {None}, R)) \<and>
    Some m \<notin> set (m_receivers (snd (Receivers_remove R' (Some m)))) \<and>
    (fst (Receivers_remove R' (Some m)) \<longleftrightarrow> set (m_receivers R) \<subseteq> {None, Some m})"
proof (cases rule: add_loop_cases [of "m_receivers R" "Some m"])
  case full
  then show ?thesis using assms(2) by (simp add: Receivers_add_def)
next
  case (slot as bs)
  let ?f = "map (\<lambda>r. if r = Some m then None else r)"
  from assms(2) slot(3) have R': "R' = R\<lparr>m_receivers := as @ Some m # bs\<rparr>"
    by (auto simp: Receivers_add_def)
  have len: "length (as @ Some m # bs) = MAX_RECEIVERS" using assms(1) slot(1) by (simp add: Receivers_wf_def)
  have rem: "Receivers_remove R' (Some m) =
      (list_all (\<lambda>r. r = None) (?f (as @ Some m # bs)), R\<lparr>m_receivers := ?f (as @ Some m # bs)\<rparr>)"
    using remove_loop_map [OF len, of "Some m"] by (simp add: Receivers_remove_def R')
  have "?f (as @ Some m # bs) = m_receivers R" if "Some m \<notin> set (m_receivers R)"
  proof -
    have "?f xs = xs" if "Some m \<notin> set xs" for xs using that by (induction xs) auto
    then show ?thesis using that slot(1) by simp
  qed
  then show ?thesis using slot(1) by (auto simp: rem list_all_iff)
qed

theorem receivers_roundtrip_witness:
  "Receivers_remove (snd (Receivers_add \<lparr>m_receivers = [None, Some 4, None]\<rparr> (Some 5))) (Some 5) =
     (False, \<lparr>m_receivers = [None, Some 4, None]\<rparr>)"
  using receivers_roundtrip [of "\<lparr>m_receivers = [None, Some 4, None]\<rparr>" 5
      "snd (Receivers_add \<lparr>m_receivers = [None, Some 4, None]\<rparr> (Some 5))"]
  by (simp add: Receivers_wf_def MAX_RECEIVERS_def Receivers_add_def)

end
