(* ===== verification/MailboxData.thy ===== *)
theory MailboxData
  imports BytePool Receiver
begin

text \<open>
  \<^verbatim>\<open>Resources\<close> and \<^verbatim>\<open>MailboxData\<close> (detail/MailboxData.h): the state all mailboxes share. The
  mutex is a flag, since a call here is made by one thread: a second lock by the same thread is
  \<open>Self_Deadlock\<close>, which is what locking a \<^verbatim>\<open>std::mutex\<close> the thread holds comes to.
\<close>

section \<open>Resources\<close>

definition LARGE_SIZE :: size_t where "LARGE_SIZE = 2048"
definition SMALL_SIZE :: size_t where "SMALL_SIZE = 256"
definition LARGE_CAP :: size_t where "LARGE_CAP = 200"
definition SMALL_CAP :: size_t where "SMALL_CAP = 200"
definition MAX_MAILBOX :: nat where "MAX_MAILBOX = 65536"

text \<open>
  What \<^verbatim>\<open>Resources\<close> takes from the standard library: the virtual functions of its
  \<^verbatim>\<open>synchronized_pool_resource\<close>, and that resource set up over a monotonic buffer of the given
  number of bytes (\<open>None\<close>: an allocation throws).
\<close>

record 'r lib =
  lib_mr :: "'r pmr"
  lib_sync :: "size_t \<Rightarrow> 'r option"

text \<open>
  A label is 16 bits wide, so it is an index of the array of \<^verbatim>\<open>MAX_MAILBOX\<close> receivers; the
  array is a function on labels.
\<close>

record 'r Resources =
  rs_smallSize :: size_t
  rs_largeSize :: size_t
  rs_byteSize :: size_t
  rs_sync :: 'r
  rs_smallPool :: BytePool
  rs_largePool :: BytePool
  rs_mailboxes :: "label \<Rightarrow> Receivers"

definition Resources_new ::
  "'r lib \<Rightarrow> size_t \<Rightarrow> size_t \<Rightarrow> size_t \<Rightarrow> size_t \<Rightarrow> 'r Resources option" where
  "Resources_new lib smallSize smallCap largeSize largeCap =
     (let byteSize = smallSize * smallCap + largeSize * largeCap + 1000
      in case lib_sync lib byteSize of
           None \<Rightarrow> None
         | Some r \<Rightarrow> Some
             \<lparr>rs_smallSize = smallSize, rs_largeSize = largeSize, rs_byteSize = byteSize,
              rs_sync = r,
              rs_smallPool = BytePool_new smallSize smallCap,
              rs_largePool = BytePool_new largeSize largeCap,
              rs_mailboxes = (\<lambda>_. Receivers_new)\<rparr>)"

section \<open>MailboxData\<close>

record 'r MailboxData =
  md_locked :: bool
  md_initialized :: bool
  md_resources :: "'r Resources option"

definition MailboxData_new :: "'r MailboxData" where
  "MailboxData_new = \<lparr>md_locked = False, md_initialized = False, md_resources = None\<rparr>"

definition md_lock :: "'r MailboxData \<Rightarrow> fault + 'r MailboxData" where
  "md_lock d = (if md_locked d then Inl Self_Deadlock else Inr (d\<lparr>md_locked := True\<rparr>))"

definition md_unlock :: "'r MailboxData \<Rightarrow> 'r MailboxData" where
  "md_unlock d = d\<lparr>md_locked := False\<rparr>"

text \<open>
  \<^verbatim>\<open>Initialize(smallSize, smallCap, largeSize, largeCap)\<close>; an exception of \<^verbatim>\<open>make_unique\<close> is
  caught, after the guard has unlocked the mutex.
\<close>

definition MailboxData_Initialize ::
  "'r lib \<Rightarrow> size_t \<Rightarrow> size_t \<Rightarrow> size_t \<Rightarrow> size_t \<Rightarrow> 'r MailboxData \<Rightarrow>
    fault + (bool \<times> 'r MailboxData)" where
  "MailboxData_Initialize lib smallSize smallCap largeSize largeCap d =
     and_then (md_lock d) (\<lambda>d.
       if \<not> md_initialized d then
         (case Resources_new lib smallSize smallCap largeSize largeCap of
            Some rs \<Rightarrow>
              Inr (True, md_unlock (d\<lparr>md_resources := Some rs, md_initialized := True\<rparr>))
          | None \<Rightarrow> Inr (False, md_unlock d))
       else Inr (False, md_unlock d))"

definition MailboxData_Initialize_default ::
  "'r lib \<Rightarrow> 'r MailboxData \<Rightarrow> fault + (bool \<times> 'r MailboxData)" where
  "MailboxData_Initialize_default lib d =
     and_then (md_lock d) (\<lambda>d.
       if \<not> md_initialized d then
         (case Resources_new lib SMALL_SIZE SMALL_CAP LARGE_SIZE LARGE_CAP of
            Some rs \<Rightarrow>
              Inr (True, md_unlock (d\<lparr>md_resources := Some rs, md_initialized := True\<rparr>))
          | None \<Rightarrow> Inr (False, md_unlock d))
       else Inr (False, md_unlock d))"

text \<open>\<^verbatim>\<open>if (!m_initialized) { Initialize(); }\<close>, whose result the callers drop.\<close>

definition ensure_initialized :: "'r lib \<Rightarrow> 'r MailboxData \<Rightarrow> fault + 'r MailboxData" where
  "ensure_initialized lib d =
     (if \<not> md_initialized d
      then and_then (MailboxData_Initialize_default lib d) (\<lambda>(_, d). Inr d)
      else Inr d)"

definition deref_resources :: "'r MailboxData \<Rightarrow> fault + 'r Resources" where
  "deref_resources d =
     (case md_resources d of None \<Rightarrow> Inl Null_Deref | Some rs \<Rightarrow> Inr rs)"

definition MailboxData_RegisterForLabel ::
  "'r lib \<Rightarrow> label \<Rightarrow> mbox option \<Rightarrow> 'r MailboxData \<Rightarrow> fault + (bool \<times> 'r MailboxData)" where
  "MailboxData_RegisterForLabel lib lbl mb d =
     and_then (md_lock d) (\<lambda>d.
     and_then (ensure_initialized lib d) (\<lambda>d.
     and_then (deref_resources d) (\<lambda>rs.
       let (ok, R) = Receivers_add (rs_mailboxes rs lbl) mb
       in Inr (ok, md_unlock (d\<lparr>md_resources :=
            Some (rs\<lparr>rs_mailboxes := (rs_mailboxes rs)(lbl := R)\<rparr>)\<rparr>)))))"

definition MailboxData_UnregisterForLabel ::
  "'r lib \<Rightarrow> label \<Rightarrow> mbox option \<Rightarrow> 'r MailboxData \<Rightarrow> fault + (bool \<times> 'r MailboxData)" where
  "MailboxData_UnregisterForLabel lib lbl mb d =
     and_then (md_lock d) (\<lambda>d.
     and_then (ensure_initialized lib d) (\<lambda>d.
     and_then (deref_resources d) (\<lambda>rs.
       let (_, R) = Receivers_remove (rs_mailboxes rs lbl) mb
       in Inr (True, md_unlock (d\<lparr>md_resources :=
            Some (rs\<lparr>rs_mailboxes := (rs_mailboxes rs)(lbl := R)\<rparr>)\<rparr>)))))"

definition MailboxData_GetReceivers :: "label \<Rightarrow> 'r MailboxData \<Rightarrow> fault + Receivers" where
  "MailboxData_GetReceivers lbl d = and_then (deref_resources d) (\<lambda>rs. Inr (rs_mailboxes rs lbl))"

definition MailboxData_allocateSmall ::
  "'r lib \<Rightarrow> 'r MailboxData \<Rightarrow> fault + (DataBlock \<times> 'r MailboxData)" where
  "MailboxData_allocateSmall lib d =
     and_then (ensure_initialized lib d) (\<lambda>d.
     and_then (deref_resources d) (\<lambda>rs.
       let (db, b, r) = BytePool_alloc (lib_mr lib) (rs_smallPool rs) (rs_sync rs)
       in Inr (db, d\<lparr>md_resources := Some (rs\<lparr>rs_smallPool := b, rs_sync := r\<rparr>)\<rparr>)))"

definition MailboxData_allocateLarge ::
  "'r lib \<Rightarrow> 'r MailboxData \<Rightarrow> fault + (DataBlock \<times> 'r MailboxData)" where
  "MailboxData_allocateLarge lib d =
     and_then (ensure_initialized lib d) (\<lambda>d.
     and_then (deref_resources d) (\<lambda>rs.
       let (db, b, r) = BytePool_alloc (lib_mr lib) (rs_largePool rs) (rs_sync rs)
       in Inr (db, d\<lparr>md_resources := Some (rs\<lparr>rs_largePool := b, rs_sync := r\<rparr>)\<rparr>)))"

definition MailboxData_freeSmall :: "'r lib \<Rightarrow> addr \<Rightarrow> 'r MailboxData \<Rightarrow> 'r MailboxData" where
  "MailboxData_freeSmall lib msg d =
     (case md_resources d of
        Some rs \<Rightarrow>
          (let (b, r) = BytePool_free (lib_mr lib) (rs_smallPool rs) (rs_sync rs) msg
           in d\<lparr>md_resources := Some (rs\<lparr>rs_smallPool := b, rs_sync := r\<rparr>)\<rparr>)
      | None \<Rightarrow> d)"

definition MailboxData_freeLarge :: "'r lib \<Rightarrow> addr \<Rightarrow> 'r MailboxData \<Rightarrow> 'r MailboxData" where
  "MailboxData_freeLarge lib msg d =
     (case md_resources d of
        Some rs \<Rightarrow>
          (let (b, r) = BytePool_free (lib_mr lib) (rs_largePool rs) (rs_sync rs) msg
           in d\<lparr>md_resources := Some (rs\<lparr>rs_largePool := b, rs_sync := r\<rparr>)\<rparr>)
      | None \<Rightarrow> d)"

definition MailboxData_smallSize :: "'r MailboxData \<Rightarrow> size_t" where
  "MailboxData_smallSize d =
     (case md_resources d of Some rs \<Rightarrow> rs_smallSize rs | None \<Rightarrow> 0)"

definition MailboxData_largeSize :: "'r MailboxData \<Rightarrow> size_t" where
  "MailboxData_largeSize d =
     (case md_resources d of Some rs \<Rightarrow> rs_largeSize rs | None \<Rightarrow> 0)"

end
