(* ===== verification/Message.thy ===== *)
theory Message
  imports Prelude
begin

text \<open>
  \<^verbatim>\<open>struct Message\<close> (Message.h): its three constructors and \<^verbatim>\<open>as<T>()\<close>. A C++ type is what the
  code asks of it: its size and whether it is trivially copyable. An object of a trivially
  copyable type is its list of bytes.
\<close>

record cxx_type =
  size_of :: nat
  trivially_copyable :: bool

record Message =
  m_data :: addr
  m_label :: label
  m_size :: "16 word"

definition Message_default :: Message where
  "Message_default = \<lparr>m_data = nullptr, m_label = 0, m_size = 0\<rparr>"

definition Message_signal :: "label \<Rightarrow> Message" where
  "Message_signal lbl = Message_default\<lparr>m_label := lbl\<rparr>"

text \<open>
  The size parameter is a \<^verbatim>\<open>uint16_t\<close>: the callers pass \<^verbatim>\<open>sizeof(T)\<close>, which is narrowed here.
\<close>

definition Message_new :: "label \<Rightarrow> size_t \<Rightarrow> addr \<Rightarrow> Message" where
  "Message_new lbl sz data = \<lparr>m_data = data, m_label = lbl, m_size = ucast sz\<rparr>"

definition Message_as :: "cxx_type \<Rightarrow> Message \<Rightarrow> addr" where
  "Message_as T msg =
     (if m_data msg \<noteq> nullptr \<and> size_of T = unat (m_size msg) \<and> trivially_copyable T
      then m_data msg else nullptr)"

lemma Message_signal_simps [simp]:
  "m_data (Message_signal l) = nullptr" "m_label (Message_signal l) = l" "m_size (Message_signal l) = 0"
  by (simp_all add: Message_signal_def Message_default_def)

lemma Message_new_simps [simp]:
  "m_data (Message_new l n p) = p" "m_label (Message_new l n p) = l"
  "m_size (Message_new l n p) = ucast n"
  by (simp_all add: Message_new_def)

lemma unat_ucast_size: "n < 65536 \<Longrightarrow> unat (ucast (of_nat n :: size_t) :: 16 word) = n"
  by (simp add: unsigned_ucast_eq unsigned_of_nat take_bit_eq_mod)

end
