(* ===== verification/Queue.thy ===== *)
theory Queue
  imports Prelude
begin

text \<open>
  The bounded queue (detail/Queue.h), one call at a time: what each member function does to the
  deque while it holds \<^verbatim>\<open>m_mutex\<close>. How calls of several threads interleave, with the mutex and
  the condition variable, is theory QueueMonitor. A failure of the deque's allocator is not
  modelled.
\<close>

section \<open>The operations\<close>

record 'a Queue =
  q_queue :: "'a list"
  q_capacity :: size_t

definition Queue_new :: "size_t \<Rightarrow> 'a Queue" where
  "Queue_new cap = \<lparr>q_queue = [], q_capacity = cap\<rparr>"

definition Queue_tryPush :: "'a Queue \<Rightarrow> 'a \<Rightarrow> bool \<times> 'a Queue" where
  "Queue_tryPush q value =
     (if length (q_queue q) < unat (q_capacity q)
      then (True, q\<lparr>q_queue := q_queue q @ [value]\<rparr>) else (False, q))"

definition Queue_push :: "'a Queue \<Rightarrow> 'a \<Rightarrow> bool \<times> 'a Queue" where
  "Queue_push q value =
     (if length (q_queue q) < unat (q_capacity q)
      then (True, q\<lparr>q_queue := q_queue q @ [value]\<rparr>) else (False, q))"

text \<open>\<open>construct args\<close> is the element that \<^verbatim>\<open>emplace_back\<close> builds from the forwarded arguments.\<close>

definition Queue_emplace :: "('args \<Rightarrow> 'a) \<Rightarrow> 'a Queue \<Rightarrow> 'args \<Rightarrow> bool \<times> 'a Queue" where
  "Queue_emplace construct q args =
     (if length (q_queue q) < unat (q_capacity q)
      then (True, q\<lparr>q_queue := q_queue q @ [construct args]\<rparr>) else (False, q))"

text \<open>\<open>value\<close> is the caller's variable, passed by reference; it keeps its contents on failure.\<close>

definition Queue_tryPop :: "'a Queue \<Rightarrow> 'a \<Rightarrow> bool \<times> 'a \<times> 'a Queue" where
  "Queue_tryPop q value =
     (case q_queue q of
        [] \<Rightarrow> (False, value, q)
      | x # xs \<Rightarrow> (True, x, q\<lparr>q_queue := xs\<rparr>))"

text \<open>
  \<^verbatim>\<open>popWait\<close> when \<^verbatim>\<open>wait_for\<close> comes back: its value is the predicate's, whether or not the
  duration has passed.
\<close>

definition Queue_popWait :: "'a Queue \<Rightarrow> 'a \<Rightarrow> bool \<times> 'a \<times> 'a Queue" where
  "Queue_popWait q value =
     (if q_queue q \<noteq> [] then (True, hd (q_queue q), q\<lparr>q_queue := tl (q_queue q)\<rparr>)
      else (False, value, q))"

text \<open>\<^verbatim>\<open>pop\<close> blocks on an empty queue: \<open>None\<close>.\<close>

definition Queue_pop :: "'a Queue \<Rightarrow> ('a \<times> 'a Queue) option" where
  "Queue_pop q =
     (if q_queue q \<noteq> [] then Some (hd (q_queue q), q\<lparr>q_queue := tl (q_queue q)\<rparr>) else None)"

definition Queue_empty :: "'a Queue \<Rightarrow> bool" where
  "Queue_empty q \<longleftrightarrow> q_queue q = []"

definition Queue_size :: "'a Queue \<Rightarrow> size_t" where
  "Queue_size q = of_nat (length (q_queue q))"

section \<open>The contract of a bounded first-in first-out queue\<close>

locale bounded_fifo =
  fixes enq :: "'q \<Rightarrow> 'a \<Rightarrow> bool \<times> 'q" and deq :: "'q \<Rightarrow> ('a \<times> 'q) option"
    and items :: "'q \<Rightarrow> 'a list" and bound :: "'q \<Rightarrow> nat"
  assumes enq_full: "\<not> length (items q) < bound q \<Longrightarrow> enq q x = (False, q)"
    and enq_room: "length (items q) < bound q \<Longrightarrow>
      \<exists>q'. enq q x = (True, q') \<and> items q' = items q @ [x] \<and> bound q' = bound q"
    and deq_empty: "items q = [] \<Longrightarrow> deq q = None"
    and deq_item: "items q = x # xs \<Longrightarrow>
      \<exists>q'. deq q = Some (x, q') \<and> items q' = xs \<and> bound q' = bound q"

text \<open>
  A sequence of calls: \<open>Some x\<close> offers \<open>x\<close>, \<open>None\<close> takes an element (and does nothing where the
  queue is empty). The result is the queue, what was accepted and what was taken.
\<close>

fun fifo_step ::
  "('q \<Rightarrow> 'a \<Rightarrow> bool \<times> 'q) \<Rightarrow> ('q \<Rightarrow> ('a \<times> 'q) option) \<Rightarrow> 'a option \<Rightarrow> 'q \<Rightarrow>
    'q \<times> 'a list \<times> 'a list" where
  "fifo_step enq deq (Some x) q = (let (ok, q') = enq q x in (q', if ok then [x] else [], []))"
| "fifo_step enq deq None q =
     (case deq q of None \<Rightarrow> (q, [], []) | Some (y, q') \<Rightarrow> (q', [], [y]))"

fun fifo_run ::
  "('q \<Rightarrow> 'a \<Rightarrow> bool \<times> 'q) \<Rightarrow> ('q \<Rightarrow> ('a \<times> 'q) option) \<Rightarrow> 'a option list \<Rightarrow> 'q \<Rightarrow>
    'q \<times> 'a list \<times> 'a list" where
  "fifo_run enq deq [] q = (q, [], [])"
| "fifo_run enq deq (c # cs) q =
     (let (q1, ins, outs) = fifo_step enq deq c q; (q2, ins', outs') = fifo_run enq deq cs q1
      in (q2, ins @ ins', outs @ outs'))"

context bounded_fifo begin

lemma step_in_order:
  assumes "fifo_step enq deq c q = (q', ins, outs)"
  shows "items q @ ins = outs @ items q' \<and> bound q' = bound q \<and>
    (length (items q) \<le> bound q \<longrightarrow> length (items q') \<le> bound q')"
proof (cases c)
  case (Some x)
  then show ?thesis using assms enq_full [of q x] enq_room [of q x]
    by (cases "length (items q) < bound q") auto
next
  case None
  then show ?thesis using assms deq_empty [of q] deq_item [of q]
    by (cases "items q") auto
qed

lemma run_in_order:
  "fifo_run enq deq cs q = (q', ins, outs) \<Longrightarrow>
     items q @ ins = outs @ items q' \<and> bound q' = bound q \<and>
     (length (items q) \<le> bound q \<longrightarrow> length (items q') \<le> bound q')"
proof (induction cs arbitrary: q q' ins outs)
  case (Cons c cs)
  obtain q1 i os where s: "fifo_step enq deq c q = (q1, i, os)" by (metis prod_cases3)
  obtain q2 i' os' where r: "fifo_run enq deq cs q1 = (q2, i', os')" by (metis prod_cases3)
  have "q' = q2" "ins = i @ i'" "outs = os @ os'" using Cons.prems by (auto simp: s r)
  then show ?case using step_in_order [OF s] Cons.IH [OF r] by (metis append_assoc)
qed simp

end

section \<open>The queue meets it\<close>

abbreviation q_bound :: "'a Queue \<Rightarrow> nat" where
  "q_bound q \<equiv> unat (q_capacity q)"

interpretation push_fifo: bounded_fifo Queue_push Queue_pop q_queue q_bound
  by unfold_locales (auto simp: Queue_push_def Queue_pop_def)

lemma Queue_tryPush_push: "Queue_tryPush = Queue_push"
  by (auto simp: fun_eq_iff Queue_tryPush_def Queue_push_def)

lemma Queue_emplace_push: "Queue_emplace construct q args = Queue_push q (construct args)"
  by (simp add: Queue_emplace_def Queue_push_def)

lemma Queue_push_items:
  "Queue_push q x = (ok, q') \<Longrightarrow> ok = (length (q_queue q) < q_bound q) \<and>
     q_capacity q' = q_capacity q \<and> q_queue q' = q_queue q @ (if ok then [x] else [])"
  by (auto simp: Queue_push_def split: if_splits)

lemma Queue_pop_items:
  "Queue_pop q = Some (x, q') \<longleftrightarrow> q_queue q \<noteq> [] \<and> x = hd (q_queue q) \<and>
     q' = q\<lparr>q_queue := tl (q_queue q)\<rparr>"
  by (auto simp: Queue_pop_def)

section \<open>What the operations do\<close>

text \<open>
  First in, first out: after any sequence of pushes and pops on a new queue, what was accepted
  is what was taken followed by what is in the queue, in order; the queue never holds more than
  its capacity, and \<^verbatim>\<open>size()\<close> is the number of elements (no wrap-around).
\<close>
lemma queue_in_order:
  assumes "fifo_run Queue_push Queue_pop cs (Queue_new cap) = (q, ins, outs)"
  shows "ins = outs @ q_queue q \<and> length (q_queue q) \<le> unat cap \<and>
    unat (Queue_size q) = length ins - length outs"
proof -
  have new: "q_queue (Queue_new cap) = []" "q_bound (Queue_new cap) = unat cap"
    by (simp_all add: Queue_new_def)
  from push_fifo.run_in_order [OF assms] have r: "ins = outs @ q_queue q" "length (q_queue q) \<le> unat cap"
    by (simp_all add: new)
  have "unat cap < 2 ^ 64" using unsigned_less [of cap] by simp
  with r(2) have "length (q_queue q) < 2 ^ 64" by linarith
  then have "unat (Queue_size q) = length (q_queue q)"
    by (simp add: Queue_size_def unsigned_of_nat take_bit_eq_mod)
  then show ?thesis using r by simp
qed

lemma queue_in_order_example:
  "\<exists>q. fifo_run Queue_push Queue_pop [Some 4, Some 5, Some 6, None] (Queue_new 2) = (q, [4, 5], [4 :: nat]) \<and>
     [4, 5] = [4] @ q_queue q"
proof -
  obtain q where q: "fifo_run Queue_push Queue_pop [Some 4, Some 5, Some 6, None] (Queue_new 2) =
      (q, [4, 5], [4 :: nat])"
    by (simp add: Queue_new_def Queue_push_def Queue_pop_def)
  show ?thesis using queue_in_order [OF q] q by auto
qed

text \<open>
  The three ways to insert agree, and so do the three ways to take an element, apart from what
  they do on an empty queue: \<^verbatim>\<open>tryPop\<close> and \<^verbatim>\<open>popWait\<close> return false and leave the caller's variable,
  \<^verbatim>\<open>pop\<close> blocks. \<^verbatim>\<open>empty()\<close> tells which case it is.
\<close>
lemma queue_operations_agree:
  "Queue_tryPush q x = Queue_push q x \<and> Queue_emplace construct q args = Queue_push q (construct args) \<and>
   Queue_tryPop q v = Queue_popWait q v \<and>
   Queue_tryPop q v = (case Queue_pop q of None \<Rightarrow> (False, v, q) | Some (y, q') \<Rightarrow> (True, y, q')) \<and>
   (Queue_empty q \<longleftrightarrow> Queue_pop q = None)"
  by (cases "q_queue q")
    (auto simp: Queue_tryPush_def Queue_push_def Queue_emplace_def Queue_tryPop_def Queue_popWait_def
      Queue_pop_def Queue_empty_def)

end
