(* ===== verification/Mailbox.thy ===== *)
theory Mailbox
  imports MailboxData Message Queue
begin

text \<open>
  \<^verbatim>\<open>class Mailbox\<close> and \<^verbatim>\<open>class MessageGuard\<close> (Mailbox.h). The state is everything the program's
  mailboxes share: \<^verbatim>\<open>s_mailboxData\<close>, the queues of the mailboxes that exist, and the memory the
  data blocks lie in.
\<close>

record 'r world =
  w_data :: "'r MailboxData"
  w_queues :: "mbox \<Rightarrow> Message Queue option"
  w_mem :: mem

definition QUEUE_SIZE :: size_t where "QUEUE_SIZE = 256"

definition world_new :: "mem \<Rightarrow> 'r world" where
  "world_new m = \<lparr>w_data = MailboxData_new, w_queues = Map.empty, w_mem = m\<rparr>"

section \<open>Life time\<close>

definition Mailbox_new :: "mbox \<Rightarrow> size_t \<Rightarrow> 'r world \<Rightarrow> 'r world" where
  "Mailbox_new this queueSize w =
     w\<lparr>w_queues := (w_queues w)(this \<mapsto> Queue_new queueSize)\<rparr>"

definition Mailbox_default :: "mbox \<Rightarrow> 'r world \<Rightarrow> 'r world" where
  "Mailbox_default this w =
     w\<lparr>w_queues := (w_queues w)(this \<mapsto> Queue_new QUEUE_SIZE)\<rparr>"

text \<open>\<^verbatim>\<open>~Mailbox() = default\<close>: the queue goes, the registrations stay.\<close>

definition Mailbox_destroy :: "mbox \<Rightarrow> 'r world \<Rightarrow> 'r world" where
  "Mailbox_destroy this w = w\<lparr>w_queues := (w_queues w)(this := None)\<rparr>"

section \<open>Forwarding to the shared data\<close>

definition on_data ::
  "('r MailboxData \<Rightarrow> fault + (bool \<times> 'r MailboxData)) \<Rightarrow> 'r world \<Rightarrow> fault + (bool \<times> 'r world)" where
  "on_data f w = and_then (f (w_data w)) (\<lambda>(b, d). Inr (b, w\<lparr>w_data := d\<rparr>))"

definition Mailbox_Initialize ::
  "'r lib \<Rightarrow> size_t \<Rightarrow> size_t \<Rightarrow> size_t \<Rightarrow> size_t \<Rightarrow> 'r world \<Rightarrow> fault + (bool \<times> 'r world)" where
  "Mailbox_Initialize lib smallSize smallCap largeSize largeCap =
     on_data (MailboxData_Initialize lib smallSize smallCap largeSize largeCap)"

definition Mailbox_Initialize_default :: "'r lib \<Rightarrow> 'r world \<Rightarrow> fault + (bool \<times> 'r world)" where
  "Mailbox_Initialize_default lib = on_data (MailboxData_Initialize_default lib)"

definition Mailbox_RegisterForLabel ::
  "'r lib \<Rightarrow> mbox \<Rightarrow> label \<Rightarrow> 'r world \<Rightarrow> fault + (bool \<times> 'r world)" where
  "Mailbox_RegisterForLabel lib this lbl = on_data (MailboxData_RegisterForLabel lib lbl (Some this))"

definition Mailbox_UnregisterForLabel ::
  "'r lib \<Rightarrow> mbox \<Rightarrow> label \<Rightarrow> 'r world \<Rightarrow> fault + (bool \<times> 'r world)" where
  "Mailbox_UnregisterForLabel lib this lbl =
     on_data (MailboxData_UnregisterForLabel lib lbl (Some this))"

section \<open>Sending\<close>

text \<open>
  One round of the loop of \<^verbatim>\<open>SendMessage\<close>: \<open>t\<close> is the object's bytes, so \<^verbatim>\<open>sizeof(T)\<close> is their
  number. An \<^verbatim>\<open>emplace\<close> that fails leaves the block allocated.
\<close>

definition send_one ::
  "'r lib \<Rightarrow> bool \<Rightarrow> label \<Rightarrow> byte list \<Rightarrow> mbox option \<Rightarrow> bool \<times> 'r world \<Rightarrow>
    fault + (bool \<times> 'r world)" where
  "send_one lib isLarge lbl t receiver s =
     (case receiver of
        None \<Rightarrow> Inr s
      | Some m \<Rightarrow>
        (case s of (result, w) \<Rightarrow>
           and_then (if isLarge then MailboxData_allocateLarge lib (w_data w)
                     else MailboxData_allocateSmall lib (w_data w)) (\<lambda>(db, d).
             let w = w\<lparr>w_data := d\<rparr>
             in if db_data db \<noteq> nullptr then
                  (case DataBlock_put db t (w_mem w) of
                     (True, mem) \<Rightarrow>
                       (case w_queues w m of
                          None \<Rightarrow> Inl Dangling_Mailbox
                        | Some q \<Rightarrow>
                            (let (ok, q') = Queue_emplace (\<lambda>(l, n, p). Message_new l n p) q
                                              (lbl, of_nat (length t), db_data db)
                             in Inr (result \<and> ok,
                                  w\<lparr>w_mem := mem, w_queues := (w_queues w)(m \<mapsto> q')\<rparr>)))
                   | (False, mem) \<Rightarrow>
                       Inr (False, w\<lparr>w_mem := mem,
                                    w_data := MailboxData_freeSmall lib (db_data db) (w_data w)\<rparr>))
                else Inr (False, w))))"

fun send_loop ::
  "'r lib \<Rightarrow> bool \<Rightarrow> label \<Rightarrow> byte list \<Rightarrow> mbox option list \<Rightarrow> bool \<times> 'r world \<Rightarrow>
    fault + (bool \<times> 'r world)" where
  "send_loop lib isLarge lbl t [] s = Inr s"
| "send_loop lib isLarge lbl t (r # rs) s =
     and_then (send_one lib isLarge lbl t r s) (send_loop lib isLarge lbl t rs)"

definition unlock_world :: "'r world \<Rightarrow> 'r world" where
  "unlock_world w = w\<lparr>w_data := md_unlock (w_data w)\<rparr>"

definition Mailbox_SendMessage ::
  "'r lib \<Rightarrow> label \<Rightarrow> byte list \<Rightarrow> 'r world \<Rightarrow> fault + (bool \<times> 'r world)" where
  "Mailbox_SendMessage lib lbl t w =
     and_then (md_lock (w_data w)) (\<lambda>d.
       let w = w\<lparr>w_data := d\<rparr>
       in if length t > unat (MailboxData_largeSize d) then Inr (False, unlock_world w)
          else
            (let isLarge = length t > unat (MailboxData_smallSize d)
             in and_then (MailboxData_GetReceivers lbl d) (\<lambda>receivers.
                and_then (send_loop lib isLarge lbl t (m_receivers receivers) (True, w))
                  (\<lambda>(result, w). Inr (result, unlock_world w)))))"

text \<open>One round of the loop of \<^verbatim>\<open>SendSignal\<close>; the result of \<^verbatim>\<open>emplace\<close> is dropped.\<close>

definition signal_one :: "label \<Rightarrow> mbox option \<Rightarrow> 'r world \<Rightarrow> fault + 'r world" where
  "signal_one lbl receiver w =
     (case receiver of
        None \<Rightarrow> Inr w
      | Some m \<Rightarrow>
          (case w_queues w m of
             None \<Rightarrow> Inl Dangling_Mailbox
           | Some q \<Rightarrow>
               (let (_, q') = Queue_emplace Message_signal q lbl
                in Inr (w\<lparr>w_queues := (w_queues w)(m \<mapsto> q')\<rparr>))))"

fun signal_loop :: "label \<Rightarrow> mbox option list \<Rightarrow> 'r world \<Rightarrow> fault + 'r world" where
  "signal_loop lbl [] w = Inr w"
| "signal_loop lbl (r # rs) w = and_then (signal_one lbl r w) (signal_loop lbl rs)"

definition Mailbox_SendSignal :: "label \<Rightarrow> 'r world \<Rightarrow> fault + (bool \<times> 'r world)" where
  "Mailbox_SendSignal lbl w =
     and_then (md_lock (w_data w)) (\<lambda>d.
     and_then (MailboxData_GetReceivers lbl d) (\<lambda>receivers.
     and_then (signal_loop lbl (m_receivers receivers) (w\<lparr>w_data := d\<rparr>)) (\<lambda>w.
       Inr (True, unlock_world w))))"

section \<open>Receiving and releasing\<close>

text \<open>\<open>Inr None\<close>: the caller blocks, as its queue is empty.\<close>

definition Mailbox_Receive :: "mbox \<Rightarrow> 'r world \<Rightarrow> fault + (Message \<times> 'r world) option" where
  "Mailbox_Receive this w =
     (case w_queues w this of
        None \<Rightarrow> Inl Dangling_Mailbox
      | Some q \<Rightarrow>
          (case Queue_pop q of
             None \<Rightarrow> Inr None
           | Some (msg, q') \<Rightarrow>
               Inr (Some (msg, w\<lparr>w_queues := (w_queues w)(this \<mapsto> q')\<rparr>))))"

definition Mailbox_ReleaseMessage :: "'r lib \<Rightarrow> Message \<Rightarrow> 'r world \<Rightarrow> 'r world" where
  "Mailbox_ReleaseMessage lib msg w =
     (if m_data msg \<noteq> nullptr then
        (if unat (m_size msg) \<le> unat (MailboxData_smallSize (w_data w))
         then w\<lparr>w_data := MailboxData_freeSmall lib (m_data msg) (w_data w)\<rparr>
         else w\<lparr>w_data := MailboxData_freeLarge lib (m_data msg) (w_data w)\<rparr>)
      else w)"

text \<open>\<^verbatim>\<open>~MessageGuard()\<close>\<close>

definition MessageGuard_destroy :: "'r lib \<Rightarrow> Message \<Rightarrow> 'r world \<Rightarrow> 'r world" where
  "MessageGuard_destroy lib msg w =
     (if m_data msg \<noteq> nullptr then Mailbox_ReleaseMessage lib msg w else w)"

end
