(* ===== verification/MailboxInv.thy ===== *)
theory MailboxInv
  imports Mailbox "HOL-Library.Sublist"
begin

text \<open>
  The invariant of the mailbox system and what each operation does to it. \<open>S\<close> and \<open>G\<close> are the
  addresses of the small and large blocks that are out; every one of them is in exactly one
  place: in a queue, with a client that received it, or lost.
\<close>

section \<open>What the data promises\<close>

definition res_blocks :: "'r Resources \<Rightarrow> addr set \<Rightarrow> addr set \<Rightarrow> blocks" where
  "res_blocks rs S G p =
     (if p \<in> S then Some (unat (rs_smallSize rs))
      else if p \<in> G then Some (unat (rs_largeSize rs)) else None)"

definition res_inv ::
  "('r \<Rightarrow> blocks \<Rightarrow> bool) \<Rightarrow> 'r Resources \<Rightarrow> addr set \<Rightarrow> addr set \<Rightarrow> bool" where
  "res_inv owns rs S G \<longleftrightarrow>
     owns (rs_sync rs) (res_blocks rs S G) \<and> S \<inter> G = {} \<and>
     pool_inv (rs_smallPool rs) S \<and> pool_inv (rs_largePool rs) G \<and>
     bp_eltSize (rs_smallPool rs) = rs_smallSize rs \<and>
     bp_eltSize (rs_largePool rs) = rs_largeSize rs \<and>
     (\<forall>l. Receivers_wf (rs_mailboxes rs l))"

definition data_inv ::
  "('r \<Rightarrow> blocks \<Rightarrow> bool) \<Rightarrow> 'r MailboxData \<Rightarrow> addr set \<Rightarrow> addr set \<Rightarrow> bool" where
  "data_inv owns d S G \<longleftrightarrow>
     (md_initialized d \<longleftrightarrow> md_resources d \<noteq> None) \<and>
     (case md_resources d of None \<Rightarrow> S = {} \<and> G = {} | Some rs \<Rightarrow> res_inv owns rs S G)"

text \<open>What no allocation and no release changes.\<close>

definition config :: "'r MailboxData \<Rightarrow>
    bool \<times> (size_t \<times> size_t \<times> size_t \<times> size_t \<times> size_t \<times> (label \<Rightarrow> Receivers)) option" where
  "config d = (md_initialized d, map_option (\<lambda>rs.
     (rs_smallSize rs, rs_largeSize rs, rs_byteSize rs, bp_capacity (rs_smallPool rs),
      bp_capacity (rs_largePool rs), rs_mailboxes rs)) (md_resources d))"

text \<open>The pool that messages of a class come from can hand out \<open>k\<close> blocks in a row.\<close>

definition stock :: "'r lib \<Rightarrow> 'r MailboxData \<Rightarrow> bool \<Rightarrow> nat \<Rightarrow> bool" where
  "stock lib d isLarge k =
     (case md_resources d of
        None \<Rightarrow> False
      | Some rs \<Rightarrow> pool_stock (lib_mr lib)
          (if isLarge then rs_largePool rs else rs_smallPool rs) (rs_sync rs) k)"

lemma config_sizes:
  "config d' = config d \<Longrightarrow> MailboxData_smallSize d' = MailboxData_smallSize d \<and>
     MailboxData_largeSize d' = MailboxData_largeSize d \<and>
     md_initialized d' = md_initialized d \<and> (md_resources d' = None) = (md_resources d = None) \<and>
     MailboxData_GetReceivers l d' = MailboxData_GetReceivers l d"
  by (cases "md_resources d"; cases "md_resources d'")
    (auto simp: config_def MailboxData_smallSize_def MailboxData_largeSize_def
      MailboxData_GetReceivers_def deref_resources_def)

text \<open>The lock is no part of what the operations compute with.\<close>

lemma lock_frame [simp]:
  "MailboxData_smallSize (d\<lparr>md_locked := b\<rparr>) = MailboxData_smallSize d"
  "MailboxData_largeSize (d\<lparr>md_locked := b\<rparr>) = MailboxData_largeSize d"
  "deref_resources (d\<lparr>md_locked := b\<rparr>) = deref_resources d"
  "MailboxData_GetReceivers l (d\<lparr>md_locked := b\<rparr>) = MailboxData_GetReceivers l d"
  "config (d\<lparr>md_locked := b\<rparr>) = config d"
  "data_inv owns (d\<lparr>md_locked := b\<rparr>) S G = data_inv owns d S G"
  "stock lib (d\<lparr>md_locked := b\<rparr>) isLarge k = stock lib d isLarge k"
  by (simp_all add: stock_def MailboxData_smallSize_def MailboxData_largeSize_def deref_resources_def
      MailboxData_GetReceivers_def config_def data_inv_def)

lemma res_blocks_insert:
  "res_blocks rs (insert p S) G = (res_blocks rs S G)(p \<mapsto> unat (rs_smallSize rs))"
  "p \<notin> S \<Longrightarrow> res_blocks rs S (insert p G) = (res_blocks rs S G)(p \<mapsto> unat (rs_largeSize rs))"
  by (auto simp: res_blocks_def fun_eq_iff)

lemma res_blocks_remove:
  "p \<notin> G \<Longrightarrow> res_blocks rs (S - {p}) G = (res_blocks rs S G)(p := None)"
  "p \<notin> S \<Longrightarrow> res_blocks rs S (G - {p}) = (res_blocks rs S G)(p := None)"
  by (auto simp: res_blocks_def fun_eq_iff)

lemma dom_res_blocks: "dom (res_blocks rs S G) = S \<union> G"
  by (auto simp: res_blocks_def split: if_splits)

lemma res_blocks_cong:
  "rs_smallSize rs' = rs_smallSize rs \<Longrightarrow> rs_largeSize rs' = rs_largeSize rs \<Longrightarrow>
     res_blocks rs' S G = res_blocks rs S G"
  by (simp add: res_blocks_def fun_eq_iff)

locale mailbox_lib = pmr_resource "lib_mr lib" owns
  for lib :: "'r lib" and owns :: "'r \<Rightarrow> blocks \<Rightarrow> bool" +
  assumes sync_new: "lib_sync lib n = Some r \<Longrightarrow> owns r Map.empty"

context mailbox_lib begin

lemma Resources_new_inv:
  assumes "Resources_new lib a b c e = Some rs"
  shows "res_inv owns rs {} {}"
proof -
  from assms have "owns (rs_sync rs) Map.empty"
    by (auto simp: Resources_new_def Let_def split: option.splits intro: sync_new)
  moreover have "res_blocks rs {} {} = Map.empty" by (simp add: res_blocks_def fun_eq_iff)
  ultimately show ?thesis using assms
    by (auto simp: Resources_new_def Let_def res_inv_def pool_inv_new BytePool_new_def
        pool_inv_def split: option.splits)
qed

lemma allocate_small:
  assumes i: "res_inv owns rs S G" and d: "md_resources d = Some rs" "md_initialized d"
  obtains db d' where "MailboxData_allocateSmall lib d = Inr (db, d')" "config d' = config d"
      "md_locked d' = md_locked d" "db = DataBlock_null" "data_inv owns d' S G"
      "\<And>k. \<not> stock lib d False (Suc k)"
    | db d' p where "MailboxData_allocateSmall lib d = Inr (db, d')" "config d' = config d"
      "md_locked d' = md_locked d" "db = DataBlock_new (rs_smallSize rs) p" "p \<noteq> nullptr"
      "p \<notin> S \<union> G" "data_inv owns d' (insert p S) G"
      "\<And>q k. res_blocks rs S G q = Some k \<Longrightarrow> disjoint_blocks p (unat (rs_smallSize rs)) q k"
      "\<And>k. stock lib d False (Suc k) \<Longrightarrow> stock lib d' False k"
proof -
  obtain db b r where al: "BytePool_alloc (lib_mr lib) (rs_smallPool rs) (rs_sync rs) = (db, b, r)"
    by (metis prod_cases3)
  define rs' where "rs' = rs\<lparr>rs_smallPool := b, rs_sync := r\<rparr>"
  define d' where "d' = d\<lparr>md_resources := Some rs'\<rparr>"
  note fr = BytePool_alloc_frame [OF al]
  have run: "MailboxData_allocateSmall lib d = Inr (db, d')"
    by (simp add: MailboxData_allocateSmall_def ensure_initialized_def deref_resources_def d al
        d'_def rs'_def)
  have cfg: "config d' = config d" "md_locked d' = md_locked d"
    by (simp_all add: config_def d'_def rs'_def d fr)
  have bl: "res_blocks rs' A B = res_blocks rs A B" for A B
    by (rule res_blocks_cong) (simp_all add: rs'_def)
  from i have o: "owns (rs_sync rs) (res_blocks rs S G)" and si: "pool_inv (rs_smallPool rs) S"
      and S: "S \<subseteq> dom (res_blocks rs S G)" and e: "bp_eltSize (rs_smallPool rs) = rs_smallSize rs"
    by (auto simp: res_inv_def dom_res_blocks)
  from o si S al show thesis
  proof (cases rule: pool_alloc_owned)
    case exhausted
    then have "data_inv owns d' S G"
      using i d bl by (simp add: data_inv_def res_inv_def d'_def rs'_def)
    moreover have "\<not> stock lib d False (Suc k)" for k using exhausted(4) by (simp add: stock_def d)
    ultimately show thesis using that(1) run cfg exhausted by blast
  next
    case (block p)
    have p: "p \<notin> S \<union> G" using block dom_res_blocks [of rs S G] by auto
    then have "data_inv owns d' (insert p S) G"
      using i d bl block fr
      by (simp add: data_inv_def res_inv_def d'_def rs'_def res_blocks_insert e)
    moreover have "stock lib d False (Suc k) \<Longrightarrow> stock lib d' False k" for k
      using block by (simp add: stock_def d d'_def rs'_def)
    ultimately show thesis using that(2) run cfg block p by (simp add: e)
  qed
qed

lemma allocate_large:
  assumes i: "res_inv owns rs S G" and d: "md_resources d = Some rs" "md_initialized d"
  obtains db d' where "MailboxData_allocateLarge lib d = Inr (db, d')" "config d' = config d"
      "md_locked d' = md_locked d" "db = DataBlock_null" "data_inv owns d' S G"
      "\<And>k. \<not> stock lib d True (Suc k)"
    | db d' p where "MailboxData_allocateLarge lib d = Inr (db, d')" "config d' = config d"
      "md_locked d' = md_locked d" "db = DataBlock_new (rs_largeSize rs) p" "p \<noteq> nullptr"
      "p \<notin> S \<union> G" "data_inv owns d' S (insert p G)"
      "\<And>q k. res_blocks rs S G q = Some k \<Longrightarrow> disjoint_blocks p (unat (rs_largeSize rs)) q k"
      "\<And>k. stock lib d True (Suc k) \<Longrightarrow> stock lib d' True k"
proof -
  obtain db b r where al: "BytePool_alloc (lib_mr lib) (rs_largePool rs) (rs_sync rs) = (db, b, r)"
    by (metis prod_cases3)
  define rs' where "rs' = rs\<lparr>rs_largePool := b, rs_sync := r\<rparr>"
  define d' where "d' = d\<lparr>md_resources := Some rs'\<rparr>"
  note fr = BytePool_alloc_frame [OF al]
  have run: "MailboxData_allocateLarge lib d = Inr (db, d')"
    by (simp add: MailboxData_allocateLarge_def ensure_initialized_def deref_resources_def d al
        d'_def rs'_def)
  have cfg: "config d' = config d" "md_locked d' = md_locked d"
    by (simp_all add: config_def d'_def rs'_def d fr)
  have bl: "res_blocks rs' A B = res_blocks rs A B" for A B
    by (rule res_blocks_cong) (simp_all add: rs'_def)
  from i have o: "owns (rs_sync rs) (res_blocks rs S G)" and si: "pool_inv (rs_largePool rs) G"
      and S: "G \<subseteq> dom (res_blocks rs S G)" and e: "bp_eltSize (rs_largePool rs) = rs_largeSize rs"
    by (auto simp: res_inv_def dom_res_blocks)
  from o si S al show thesis
  proof (cases rule: pool_alloc_owned)
    case exhausted
    then have "data_inv owns d' S G"
      using i d bl by (simp add: data_inv_def res_inv_def d'_def rs'_def)
    moreover have "\<not> stock lib d True (Suc k)" for k using exhausted(4) by (simp add: stock_def d)
    ultimately show thesis using that(1) run cfg exhausted by blast
  next
    case (block p)
    have p: "p \<notin> S \<union> G" using block dom_res_blocks [of rs S G] by auto
    then have "data_inv owns d' S (insert p G)"
      using i d bl block fr
      by (simp add: data_inv_def res_inv_def d'_def rs'_def res_blocks_insert e)
    moreover have "stock lib d True (Suc k) \<Longrightarrow> stock lib d' True k" for k
      using block by (simp add: stock_def d d'_def rs'_def)
    ultimately show thesis using that(2) run cfg block p by (simp add: e)
  qed
qed

lemma free_small:
  assumes i: "res_inv owns rs S G" and d: "md_resources d = Some rs" "md_initialized d"
    and p: "p \<in> S"
  shows "data_inv owns (MailboxData_freeSmall lib p d) (S - {p}) G \<and>
    config (MailboxData_freeSmall lib p d) = config d \<and>
    md_locked (MailboxData_freeSmall lib p d) = md_locked d"
proof -
  from i have o: "owns (rs_sync rs) (res_blocks rs S G)" and si: "pool_inv (rs_smallPool rs) S"
      and e: "bp_eltSize (rs_smallPool rs) = rs_smallSize rs" and pG: "p \<notin> G"
    using p by (auto simp: res_inv_def)
  have "res_blocks rs S G p = Some (unat (bp_eltSize (rs_smallPool rs)))"
    by (simp add: res_blocks_def p e)
  from pool_free_owned [OF o si p this] obtain r' where f:
      "BytePool_free (lib_mr lib) (rs_smallPool rs) (rs_sync rs) p =
        ((rs_smallPool rs)\<lparr>bp_size := bp_size (rs_smallPool rs) + 1\<rparr>, r')"
      "owns r' (res_blocks rs (S - {p}) G)"
      "pool_inv ((rs_smallPool rs)\<lparr>bp_size := bp_size (rs_smallPool rs) + 1\<rparr>) (S - {p})"
    using res_blocks_remove(1) [OF pG, of rs S] by metis
  have bl: "res_blocks (rs\<lparr>rs_smallPool := b, rs_sync := r\<rparr>) A B = res_blocks rs A B" for A B b r
    by (rule res_blocks_cong) simp_all
  show ?thesis using f i d
    by (auto simp: MailboxData_freeSmall_def data_inv_def res_inv_def config_def bl)
qed

lemma free_large:
  assumes i: "res_inv owns rs S G" and d: "md_resources d = Some rs" "md_initialized d"
    and p: "p \<in> G"
  shows "data_inv owns (MailboxData_freeLarge lib p d) S (G - {p}) \<and>
    config (MailboxData_freeLarge lib p d) = config d \<and>
    md_locked (MailboxData_freeLarge lib p d) = md_locked d"
proof -
  from i have o: "owns (rs_sync rs) (res_blocks rs S G)" and si: "pool_inv (rs_largePool rs) G"
      and e: "bp_eltSize (rs_largePool rs) = rs_largeSize rs" and pS: "p \<notin> S"
    using p by (auto simp: res_inv_def)
  have "res_blocks rs S G p = Some (unat (bp_eltSize (rs_largePool rs)))"
    by (simp add: res_blocks_def p pS e)
  from pool_free_owned [OF o si p this] obtain r' where f:
      "BytePool_free (lib_mr lib) (rs_largePool rs) (rs_sync rs) p =
        ((rs_largePool rs)\<lparr>bp_size := bp_size (rs_largePool rs) + 1\<rparr>, r')"
      "owns r' (res_blocks rs S (G - {p}))"
      "pool_inv ((rs_largePool rs)\<lparr>bp_size := bp_size (rs_largePool rs) + 1\<rparr>) (G - {p})"
    using res_blocks_remove(2) [OF pS, of rs G] by metis
  have bl: "res_blocks (rs\<lparr>rs_largePool := b, rs_sync := r\<rparr>) A B = res_blocks rs A B" for A B b r
    by (rule res_blocks_cong) simp_all
  show ?thesis using f i d
    by (auto simp: MailboxData_freeLarge_def data_inv_def res_inv_def config_def bl)
qed

end

section \<open>The resources as MailboxData wires them\<close>

text \<open>
  A synchronized pool over a monotonic buffer over the null resource, the buffer being the bytes
  that \<^verbatim>\<open>make_unique\<close> placed at \<open>base\<close>.
\<close>

definition std_lib :: "addr \<Rightarrow> monotonic sync_pool lib" where
  "std_lib base =
     \<lparr>lib_mr = sync_pool_pmr monotonic_pmr,
      lib_sync = (\<lambda>n. Some (sync_pool_new (monotonic_new base n)))\<rparr>"

abbreviation std_owns :: "monotonic sync_pool \<Rightarrow> blocks \<Rightarrow> bool" where
  "std_owns \<equiv> sync_pool_owns monotonic_owns"

lemma std_lib_mailbox_lib: "0 < base \<Longrightarrow> mailbox_lib (std_lib base) std_owns"
  unfolding mailbox_lib_def mailbox_lib_axioms_def
  using pool_res.pmr_resource_axioms
  by (auto simp: std_lib_def intro: sync_pool_new_owns monotonic_new_owns)

interpretation std: mailbox_lib "std_lib 4096" std_owns
  by (rule std_lib_mailbox_lib) simp

end
