(* ===== verification/WorldInv.thy ===== *)
theory WorldInv
  imports MailboxInv
begin

text \<open>
  The invariant of the whole mailbox system, the view that forgets where the bytes lie, and the
  behaviour of one round of the sending loops.
\<close>

section \<open>Where the data blocks are\<close>

definition msg_refs :: "Message list \<Rightarrow> addr multiset" where
  "msg_refs ms = mset (filter (\<lambda>p. p \<noteq> nullptr) (map m_data ms))"

definition queue_refs :: "(mbox \<Rightarrow> Message Queue option) \<Rightarrow> addr multiset" where
  "queue_refs Q = (\<Sum>m\<in>dom Q. msg_refs (q_queue (the (Q m))))"

lemma msg_refs_simps [simp]:
  "msg_refs [] = {#}"
  "msg_refs (ms @ ns) = msg_refs ms + msg_refs ns"
  "msg_refs (x # ms) = (if m_data x = nullptr then {#} else {#m_data x#}) + msg_refs ms"
  by (simp_all add: msg_refs_def)

lemma queue_refs_empty [simp]: "queue_refs Map.empty = {#}"
  by (simp add: queue_refs_def)

lemma queue_refs_new:
  assumes "finite (dom Q)" and "Q m = None"
  shows "queue_refs (Q(m \<mapsto> q)) = queue_refs Q + msg_refs (q_queue q)"
proof -
  have "(\<Sum>k\<in>dom Q. msg_refs (q_queue (the ((Q(m \<mapsto> q)) k)))) = queue_refs Q"
    unfolding queue_refs_def using assms(2) by (intro sum.cong) auto
  then show ?thesis using assms by (simp add: queue_refs_def domIff ac_simps)
qed

lemma queue_refs_remove:
  assumes "finite (dom Q)" and "Q m = Some q"
  shows "queue_refs (Q(m := None)) + msg_refs (q_queue q) = queue_refs Q"
proof -
  have "(Q(m := None))(m \<mapsto> q) = Q" using assms(2) by (auto simp: fun_eq_iff)
  then show ?thesis using queue_refs_new [of "Q(m := None)" m q] assms(1) by simp
qed

lemma queue_refs_update:
  assumes "finite (dom Q)" and "Q m = Some q"
  shows "queue_refs (Q(m \<mapsto> q')) + msg_refs (q_queue q) = queue_refs Q + msg_refs (q_queue q')"
  using queue_refs_new [of "Q(m := None)" m q'] queue_refs_remove [OF assms] assms(1)
  by (simp add: ac_simps flip: queue_refs_remove [OF assms])

section \<open>The invariant\<close>

text \<open>The block a message refers to is of the class that its size selects.\<close>

definition msg_ok :: "'r MailboxData \<Rightarrow> addr set \<Rightarrow> addr set \<Rightarrow> Message \<Rightarrow> bool" where
  "msg_ok d S G msg \<longleftrightarrow> (m_data msg \<noteq> nullptr \<longrightarrow>
     (if unat (m_size msg) \<le> unat (MailboxData_smallSize d) then m_data msg \<in> S
      else m_data msg \<in> G \<and> unat (m_size msg) \<le> unat (MailboxData_largeSize d)))"

text \<open>
  \<open>held\<close> are the messages clients received and did not release yet, \<open>lost\<close> the blocks nobody
  refers to any more.
\<close>

definition world_inv ::
  "('r \<Rightarrow> blocks \<Rightarrow> bool) \<Rightarrow> 'r world \<Rightarrow> Message list \<Rightarrow> addr list \<Rightarrow> addr set \<Rightarrow> addr set \<Rightarrow>
    bool" where
  "world_inv owns w held lost S G \<longleftrightarrow>
     data_inv owns (w_data w) S G \<and> finite (dom (w_queues w)) \<and>
     (\<forall>m q. w_queues w m = Some q \<longrightarrow> list_all (msg_ok (w_data w) S G) (q_queue q)) \<and>
     list_all (msg_ok (w_data w) S G) held \<and>
     queue_refs (w_queues w) + msg_refs held + mset lost = mset_set (S \<union> G)"

lemma world_invD:
  assumes "world_inv owns w held lost S G"
  shows "data_inv owns (w_data w) S G" "finite (dom (w_queues w))"
    "w_queues w m = Some q \<Longrightarrow> list_all (msg_ok (w_data w) S G) (q_queue q)"
    "list_all (msg_ok (w_data w) S G) held"
    "queue_refs (w_queues w) + msg_refs held + mset lost = mset_set (S \<union> G)"
  using assms by (simp_all add: world_inv_def)

lemma data_inv_finite: "data_inv owns d S G \<Longrightarrow> finite S \<and> finite G"
  by (auto simp: data_inv_def res_inv_def pool_inv_def split: option.splits)

lemma msg_ok_config: "config d' = config d \<Longrightarrow> msg_ok d' S G = msg_ok d S G"
  using config_sizes [of d' d] by (simp add: msg_ok_def fun_eq_iff)

lemma msg_ok_mono:
  "msg_ok d S G msg \<Longrightarrow> S \<subseteq> S' \<Longrightarrow> G \<subseteq> G' \<Longrightarrow> msg_ok d S' G' msg"
  by (auto simp: msg_ok_def split: if_splits)

lemma list_all_msg_ok_mono:
  "list_all (msg_ok d S G) ms \<Longrightarrow> config d' = config d \<Longrightarrow> S \<subseteq> S' \<Longrightarrow> G \<subseteq> G' \<Longrightarrow>
     list_all (msg_ok d' S' G') ms"
  by (auto simp: list_all_iff msg_ok_config [of d' d] intro: msg_ok_mono)

lemma world_inv_lock [simp]:
  "world_inv owns (w\<lparr>w_data := (w_data w)\<lparr>md_locked := b\<rparr>\<rparr>) held lost S G =
     world_inv owns w held lost S G"
  using msg_ok_config [of "(w_data w)\<lparr>md_locked := b\<rparr>" "w_data w"] by (simp add: world_inv_def)

lemma world_inv_unlock [simp]:
  "world_inv owns (unlock_world w) held lost S G = world_inv owns w held lost S G"
  by (simp add: unlock_world_def md_unlock_def)

section \<open>The view of a client\<close>

text \<open>A message as a client sees it: its label and, unless it is a signal, its bytes.\<close>

definition view_msg :: "mem \<Rightarrow> Message \<Rightarrow> label \<times> byte list option" where
  "view_msg mem msg =
     (m_label msg,
      if m_data msg = nullptr then None
      else Some (bytes_at mem (m_data msg) (unat (m_size msg))))"

definition view :: "'r world \<Rightarrow> mbox \<Rightarrow> (label \<times> byte list option) list option" where
  "view w m = map_option (\<lambda>q. map (view_msg (w_mem w)) (q_queue q)) (w_queues w m)"

definition caps :: "'r world \<Rightarrow> mbox \<Rightarrow> size_t option" where
  "caps w m = map_option q_capacity (w_queues w m)"

lemma view_data [simp]:
  "view (w\<lparr>w_data := d\<rparr>) = view w" "caps (w\<lparr>w_data := d\<rparr>) = caps w"
  "view (unlock_world w) = view w" "caps (unlock_world w) = caps w"
  "w_mem (unlock_world w) = w_mem w" "w_queues (unlock_world w) = w_queues w"
  "config (w_data (unlock_world w)) = config (w_data w)"
  "\<not> md_locked (w_data (unlock_world w))"
  by (simp_all add: view_def caps_def unlock_world_def md_unlock_def fun_eq_iff)

lemma caps_alive: "caps w' = caps w \<Longrightarrow> (w_queues w' m = None) = (w_queues w m = None)"
  by (metis caps_def map_option_is_None)

text \<open>A message lies within its block, so a write to a block that is not out leaves it alone.\<close>

lemma msg_in_block:
  assumes "msg_ok d S G msg" and "md_resources d = Some rs" and "S \<inter> G = {}"
    and "m_data msg \<noteq> nullptr"
  obtains k where "res_blocks rs S G (m_data msg) = Some k" "unat (m_size msg) \<le> k"
proof (cases "unat (m_size msg) \<le> unat (rs_smallSize rs)")
  case True
  then show ?thesis using assms
    by (intro that [of "unat (rs_smallSize rs)"])
      (auto simp: msg_ok_def res_blocks_def MailboxData_smallSize_def)
next
  case False
  then show ?thesis using assms
    by (intro that [of "unat (rs_largeSize rs)"])
      (auto simp: msg_ok_def res_blocks_def MailboxData_smallSize_def MailboxData_largeSize_def)
qed

lemma view_msg_memcpy:
  assumes "msg_ok d S G msg" and "md_resources d = Some rs" and "S \<inter> G = {}"
    and "\<And>q k. res_blocks rs S G q = Some k \<Longrightarrow> disjoint_blocks p n q k"
    and "length t \<le> n"
  shows "view_msg (memcpy mem p t) msg = view_msg mem msg"
proof (cases "m_data msg = nullptr")
  case False
  from msg_in_block [OF assms(1-3) False] obtain k where
    "res_blocks rs S G (m_data msg) = Some k" and "unat (m_size msg) \<le> k" by blast
  then have "disjoint_blocks p (length t) (m_data msg) (unat (m_size msg))"
    using assms(4,5) by (blast intro: disjoint_blocks_shrink)
  then show ?thesis by (simp add: view_msg_def bytes_at_memcpy_disjoint)
qed (simp add: view_msg_def)

end
