(* ===== verification/SendSpec.thy ===== *)
theory SendSpec
  imports WorldInv
begin

text \<open>
  \<^verbatim>\<open>SendMessage\<close> and \<^verbatim>\<open>SendSignal\<close> round by round: what a round does to the invariant and to the
  clients' view, and the loops as a whole.
\<close>

context mailbox_lib begin

lemma allocate_block:
  assumes inv: "data_inv owns d S G" and rs: "md_resources d = Some rs"
  obtains d' where
      "(if isLarge then MailboxData_allocateLarge lib d else MailboxData_allocateSmall lib d) =
         Inr (DataBlock_null, d')"
      "config d' = config d" "md_locked d' = md_locked d" "data_inv owns d' S G"
      "\<And>k. \<not> stock lib d isLarge (Suc k)"
    | d' p S' G' where
      "(if isLarge then MailboxData_allocateLarge lib d else MailboxData_allocateSmall lib d) =
         Inr (DataBlock_new (if isLarge then rs_largeSize rs else rs_smallSize rs) p, d')"
      "config d' = config d" "md_locked d' = md_locked d" "data_inv owns d' S' G'"
      "p \<noteq> nullptr" "p \<notin> S \<union> G" "S' \<union> G' = insert p (S \<union> G)" "S \<subseteq> S'" "G \<subseteq> G'"
      "if isLarge then p \<in> G' else p \<in> S'"
      "\<And>q k. res_blocks rs S G q = Some k \<Longrightarrow>
         disjoint_blocks p (unat (if isLarge then rs_largeSize rs else rs_smallSize rs)) q k"
      "\<And>k. stock lib d isLarge (Suc k) \<Longrightarrow> stock lib d' isLarge k"
proof -
  from inv rs have i: "res_inv owns rs S G" and init: "md_initialized d"
    by (auto simp: data_inv_def)
  show thesis
  proof (cases isLarge)
    case True
    from i rs init show thesis
    proof (cases rule: allocate_large)
      case (1 db d')
      then show thesis by (intro that(1) [of d']) (simp_all add: True)
    next
      case (2 db d' p)
      then show thesis by (intro that(2) [of p d' S "insert p G"]) (auto simp: True)
    qed
  next
    case False
    from i rs init show thesis
    proof (cases rule: allocate_small)
      case (1 db d')
      then show thesis by (intro that(1) [of d']) (simp_all add: False)
    next
      case (2 db d' p)
      then show thesis by (intro that(2) [of p d' "insert p S" G]) (auto simp: False)
    qed
  qed
qed

text \<open>Putting the object's bytes in a fresh block of its class always succeeds.\<close>

lemma send_one_run:
  assumes al: "(if isLarge then MailboxData_allocateLarge lib (w_data w)
       else MailboxData_allocateSmall lib (w_data w)) = Inr (DataBlock_new n p, d)"
    and p: "p \<noteq> nullptr" and len: "length t \<le> unat n" and q: "w_queues w m = Some q"
  shows "send_one lib isLarge lbl t (Some m) (res, w) =
    (let (ok, q') = Queue_push q (Message_new lbl (of_nat (length t)) p)
     in Inr (res \<and> ok, w\<lparr>w_data := d, w_mem := memcpy (w_mem w) p t,
          w_queues := (w_queues w)(m \<mapsto> q')\<rparr>))"
  using p len q by (simp add: send_one_def al DataBlock_put_def Queue_emplace_push)

lemma send_one_none:
  assumes "(if isLarge then MailboxData_allocateLarge lib (w_data w)
       else MailboxData_allocateSmall lib (w_data w)) = Inr (DataBlock_null, d)"
  shows "send_one lib isLarge lbl t (Some m) (res, w) = Inr (False, w\<lparr>w_data := d\<rparr>)"
  by (simp add: send_one_def assms)

lemma world_inv_new_block:
  assumes inv: "world_inv owns w held lost S G"
    and d: "data_inv owns d S' G'" "config d = config (w_data w)"
    and p: "p \<notin> S \<union> G" "S' \<union> G' = insert p (S \<union> G)" "S \<subseteq> S'" "G \<subseteq> G'"
    and q: "w_queues w m = Some q"
    and q': "q_queue q' = q_queue q @ ms" "list_all (msg_ok d S' G') ms"
    and refs: "msg_refs ms + mset lost' = add_mset p (mset lost)"
  shows "world_inv owns (w\<lparr>w_data := d, w_mem := mem, w_queues := (w_queues w)(m \<mapsto> q')\<rparr>)
    held lost' S' G'"
proof -
  note w = world_invD [OF inv]
  note mono = list_all_msg_ok_mono [OF _ d(2) p(3,4)]
  have "finite (S \<union> G)" using data_inv_finite [OF w(1)] by simp
  then have "mset_set (S' \<union> G') = add_mset p (mset_set (S \<union> G))"
    using p by simp
  moreover have new: "queue_refs ((w_queues w)(m \<mapsto> q')) = queue_refs (w_queues w) + msg_refs ms"
    using queue_refs_update [OF w(2) q, of q'] by (simp add: q'(1) ac_simps)
  moreover have "queue_refs ((w_queues w)(m \<mapsto> q')) + msg_refs held + mset lost' =
      queue_refs (w_queues w) + msg_refs held + (msg_refs ms + mset lost')"
    by (simp only: new ac_simps)
  ultimately have "queue_refs ((w_queues w)(m \<mapsto> q')) + msg_refs held + mset lost' =
      mset_set (S' \<union> G')"
    using w(5) by (simp only: refs) simp
  moreover have "list_all (msg_ok d S' G') (q_queue q0)"
    if "((w_queues w)(m \<mapsto> q')) m0 = Some q0" for m0 q0
    using that w(3) mono q q' by (cases "m0 = m") auto
  ultimately show ?thesis using d(1) w(2) mono [OF w(4)] by (simp add: world_inv_def)
qed

lemma send_one_spec:
  assumes inv: "world_inv owns w held lost S G"
    and rs: "md_resources (w_data w) = Some rs"
    and q: "w_queues w m = Some q"
    and len: "length t < 65536" "length t \<le> unat (rs_largeSize rs)"
    and large: "isLarge \<longleftrightarrow> unat (rs_smallSize rs) < length t"
  obtains ok w' lost' S' G' where
    "send_one lib isLarge lbl t (Some m) (res, w) = Inr (res \<and> ok, w')"
    "world_inv owns w' held lost' S' G'"
    "config (w_data w') = config (w_data w)" "md_locked (w_data w') = md_locked (w_data w)"
    "caps w' = caps w"
    "view w' = (view w)(m := map_option (\<lambda>v. v @ (if ok then [(lbl, Some t)] else [])) (view w m))"
    "\<And>msg. msg_ok (w_data w) S G msg \<Longrightarrow> view_msg (w_mem w') msg = view_msg (w_mem w) msg"
    "S \<subseteq> S'" "G \<subseteq> G'" "length (q_queue q) < q_bound q \<Longrightarrow> lost' = lost"
    "\<exists>ps. lost' = ps @ lost"
    "\<And>k. stock lib (w_data w) isLarge (Suc k) \<Longrightarrow> stock lib (w_data w') isLarge k"
    "\<And>k. stock lib (w_data w) isLarge (Suc k) \<Longrightarrow> length (q_queue q) < q_bound q \<Longrightarrow> ok"
proof -
  note w = world_invD [OF inv]
  from w(1) rs have SG: "S \<inter> G = {}" by (simp add: data_inv_def res_inv_def)
  from w(1) rs show thesis
  proof (cases rule: allocate_block [where isLarge = isLarge])
    case (1 d')
    define w' where "w' = w\<lparr>w_data := d'\<rparr>"
    have "world_inv owns w' held lost S G"
      using inv 1 msg_ok_config [OF 1(2)] by (simp add: world_inv_def w'_def)
    moreover have "view w' = (view w)(m := map_option (\<lambda>v. v @ []) (view w m))" and "caps w' = caps w"
      by (auto simp: view_def w'_def caps_def fun_eq_iff option.map_comp o_def option.map_ident)
    ultimately show thesis
      using send_one_none [OF 1(1), of lbl t m res] 1
      by (intro that [of False w' lost S G]) (simp_all add: w'_def)
  next
    case (2 d' p S' G')
    define n where "n = (if isLarge then rs_largeSize rs else rs_smallSize rs)"
    define msg where "msg = Message_new lbl (of_nat (length t)) p"
    have tn: "length t \<le> unat n" using len large by (simp add: n_def)
    have sz: "unat (m_size msg) = length t" using len(1) by (simp add: msg_def unat_ucast_size)
    obtain ok q' where push: "Queue_push q msg = (ok, q')" by fastforce
    note q' = Queue_push_items [OF push]
    define w' where "w' = w\<lparr>w_data := d', w_mem := memcpy (w_mem w) p t,
        w_queues := (w_queues w)(m \<mapsto> q')\<rparr>"
    define lost' where "lost' = (if ok then lost else p # lost)"
    have run: "send_one lib isLarge lbl t (Some m) (res, w) = Inr (res \<and> ok, w')"
      using send_one_run [OF 2(1) 2(5) _ q, of t lbl res] tn push
      by (simp add: n_def msg_def w'_def)
    have "MailboxData_smallSize d' = rs_smallSize rs" "MailboxData_largeSize d' = rs_largeSize rs"
      using config_sizes [OF 2(2)] rs
      by (simp_all add: MailboxData_smallSize_def MailboxData_largeSize_def)
    then have mok: "msg_ok d' S' G' msg"
      using 2(5,10) len large by (auto simp: msg_ok_def sz) (simp_all add: msg_def)
    have inv': "world_inv owns w' held lost' S' G'"
      unfolding w'_def
      by (rule world_inv_new_block [OF inv 2(4) 2(2) 2(6-9) q, of q' "if ok then [msg] else []"])
        (use q' mok 2(5) in \<open>auto simp: lost'_def msg_def\<close>)
    have same: "view_msg (w_mem w') x = view_msg (w_mem w) x" if "msg_ok (w_data w) S G x" for x
      using view_msg_memcpy [OF that rs SG 2(11) tn [unfolded n_def]] by (simp add: w'_def)
    have "map (view_msg (w_mem w')) (q_queue k) = map (view_msg (w_mem w)) (q_queue k)"
      if "w_queues w m' = Some k" for m' k
      using w(3) [OF that] same by (simp add: list_all_iff)
    moreover have "view_msg (w_mem w') msg = (lbl, Some t)"
      using 2(5) sz by (simp add: view_msg_def msg_def w'_def)
    ultimately have "view w' = (view w)(m := map_option (\<lambda>v. v @ (if ok then [(lbl, Some t)] else []))
        (view w m))"
      using q q' by (auto simp: view_def w'_def fun_eq_iff map_option_case split: option.splits)
    moreover have "caps w' = caps w" using q q' by (simp add: caps_def w'_def fun_eq_iff)
    ultimately show thesis
      using run inv' same 2 q' by (intro that [of ok w' lost' S' G']) (auto simp: w'_def lost'_def)
  qed
qed

end

section \<open>The loops\<close>

text \<open>The mailboxes among the receiver slots, in slot order (one may be there twice).\<close>

fun targets :: "mbox option list \<Rightarrow> mbox list" where
  "targets [] = []"
| "targets (None # rs) = targets rs"
| "targets (Some m # rs) = m # targets rs"

lemma set_targets: "m \<in> set (targets rs) \<longleftrightarrow> Some m \<in> set rs"
  by (induction rs rule: targets.induct) auto

lemma length_targets: "length (targets rs) \<le> length rs"
  by (induction rs rule: targets.induct) auto

text \<open>Clients' views after each mailbox of \<open>D\<close> got \<open>x\<close> once per occurrence.\<close>

definition deliver ::
  "mbox list \<Rightarrow> 'x \<Rightarrow> (mbox \<Rightarrow> 'x list option) \<Rightarrow> mbox \<Rightarrow> 'x list option" where
  "deliver D x V m = map_option (\<lambda>v. v @ replicate (count_list D m) x) (V m)"

lemma deliver_Nil [simp]: "deliver [] x V = V"
  by (simp add: deliver_def fun_eq_iff option.map_ident)

lemma deliver_Cons:
  "deliver D x (V(m := map_option (\<lambda>v. v @ [x]) (V m))) = deliver (m # D) x V"
  by (auto simp: deliver_def fun_eq_iff option.map_comp o_def)

definition room :: "'r world \<Rightarrow> mbox list \<Rightarrow> bool" where
  "room w T \<longleftrightarrow> (\<forall>m v c. view w m = Some v \<longrightarrow> caps w m = Some c \<longrightarrow>
     length v + count_list T m \<le> unat c)"

lemma room_here:
  "room w (m # T) \<Longrightarrow> w_queues w m = Some q \<Longrightarrow> length (q_queue q) < q_bound q"
  unfolding room_def by (drule spec [of _ m]) (simp add: view_def caps_def)

lemma room_step:
  assumes "room w (m # T)" and "view w' = (view w)(m := map_option (\<lambda>v. v @ xs) (view w m))"
    and "length xs \<le> 1" and "caps w' = caps w"
  shows "room w' T"
  unfolding room_def
proof (intro allI impI)
  fix k v c assume v: "view w' k = Some v" "caps w' k = Some c"
  then obtain u where "view w k = Some u" "length v \<le> length u + (if k = m then 1 else 0)"
    using assms(2,3) by (auto split: if_splits)
  then show "length v + count_list T k \<le> unat c"
    using assms(1) [unfolded room_def, rule_format, of k u c] v(2) assms(4)
    by (simp split: if_splits)
qed

text \<open>What a signal does to the views: every target in turn gets it if it has room.\<close>

fun offer ::
  "(mbox \<Rightarrow> size_t option) \<Rightarrow> mbox list \<Rightarrow> 'x \<Rightarrow> (mbox \<Rightarrow> 'x list option) \<Rightarrow> mbox \<Rightarrow> 'x list option"
  where
  "offer c [] x V = V"
| "offer c (m # T) x V = offer c T x
     (V(m := map_option (\<lambda>v. v @ (if length v < unat (the (c m)) then [x] else [])) (V m)))"

context mailbox_lib begin

lemma send_loop_spec:
  assumes "world_inv owns w held lost S G"
    and "md_resources (w_data w) \<noteq> None"
    and "\<forall>m \<in> set (targets rs). w_queues w m \<noteq> None"
    and len: "length t < 65536" "length t \<le> unat (MailboxData_largeSize (w_data w))"
    and large: "isLarge \<longleftrightarrow> unat (MailboxData_smallSize (w_data w)) < length t"
  shows "\<exists>D w' lost' S' G'.
    send_loop lib isLarge lbl t rs (res, w) = Inr (res \<and> D = targets rs, w') \<and>
    subseq D (targets rs) \<and> world_inv owns w' held lost' S' G' \<and>
    config (w_data w') = config (w_data w) \<and> md_locked (w_data w') = md_locked (w_data w) \<and>
    caps w' = caps w \<and> view w' = deliver D (lbl, Some t) (view w) \<and>
    (\<forall>msg. msg_ok (w_data w) S G msg \<longrightarrow> view_msg (w_mem w') msg = view_msg (w_mem w) msg) \<and>
    S \<subseteq> S' \<and> G \<subseteq> G' \<and> (\<exists>ps. lost' = ps @ lost) \<and>
    (room w (targets rs) \<longrightarrow> lost' = lost) \<and>
    (room w (targets rs) \<longrightarrow> stock lib (w_data w) isLarge (length (targets rs)) \<longrightarrow> D = targets rs)"
  using assms
proof (induction rs arbitrary: res w lost S G)
  case Nil
  then show ?case
    by (rule_tac x = "[]" in exI, rule_tac x = w in exI, rule_tac x = lost in exI,
        rule_tac x = S in exI, rule_tac x = G in exI) simp
next
  case (Cons r rs)
  show ?case
  proof (cases r)
    case None
    then show ?thesis using Cons by (simp add: send_one_def)
  next
    case (Some m)
    from Cons.prems(3) obtain q where q: "w_queues w m = Some q" by (auto simp: Some)
    from Cons.prems(2) obtain rs0 where rs0: "md_resources (w_data w) = Some rs0" by auto
    then have sizes: "length t \<le> unat (rs_largeSize rs0)"
        "isLarge \<longleftrightarrow> unat (rs_smallSize rs0) < length t"
      using Cons.prems(5,6) by (simp_all add: MailboxData_smallSize_def MailboxData_largeSize_def)
    from Cons.prems(1) rs0 q Cons.prems(4) sizes obtain ok w1 lost1 S1 G1 where 1:
        "send_one lib isLarge lbl t (Some m) (res, w) = Inr (res \<and> ok, w1)"
        "world_inv owns w1 held lost1 S1 G1" "config (w_data w1) = config (w_data w)"
        "md_locked (w_data w1) = md_locked (w_data w)" "caps w1 = caps w"
        "view w1 = (view w)(m := map_option (\<lambda>v. v @ (if ok then [(lbl, Some t)] else [])) (view w m))"
        "\<And>msg. msg_ok (w_data w) S G msg \<Longrightarrow> view_msg (w_mem w1) msg = view_msg (w_mem w) msg"
        "S \<subseteq> S1" "G \<subseteq> G1" "length (q_queue q) < q_bound q \<Longrightarrow> lost1 = lost"
        "\<exists>ps. lost1 = ps @ lost"
        "\<And>k. stock lib (w_data w) isLarge (Suc k) \<Longrightarrow> stock lib (w_data w1) isLarge k"
        "\<And>k. stock lib (w_data w) isLarge (Suc k) \<Longrightarrow> length (q_queue q) < q_bound q \<Longrightarrow> ok"
      by (rule send_one_spec [of w held lost S G rs0 m q t isLarge lbl res]) blast
    note cs = config_sizes [OF 1(3)]
    have pre: "\<forall>m \<in> set (targets rs). w_queues w1 m \<noteq> None" "md_resources (w_data w1) \<noteq> None"
        "length t \<le> unat (MailboxData_largeSize (w_data w1))"
        "isLarge \<longleftrightarrow> unat (MailboxData_smallSize (w_data w1)) < length t"
      using Cons.prems caps_alive [OF 1(5)] cs by (simp_all add: Some)
    from Cons.IH [OF 1(2) pre(2,1) len(1) pre(3,4), of "res \<and> ok"] obtain D w' lost' S' G' where 2:
        "send_loop lib isLarge lbl t rs (res \<and> ok, w1) = Inr ((res \<and> ok) \<and> D = targets rs, w')"
        "subseq D (targets rs)" "world_inv owns w' held lost' S' G'"
        "config (w_data w') = config (w_data w1)" "md_locked (w_data w') = md_locked (w_data w1)"
        "caps w' = caps w1" "view w' = deliver D (lbl, Some t) (view w1)"
        "\<forall>msg. msg_ok (w_data w1) S1 G1 msg \<longrightarrow> view_msg (w_mem w') msg = view_msg (w_mem w1) msg"
        "S1 \<subseteq> S'" "G1 \<subseteq> G'" "\<exists>ps. lost' = ps @ lost1" "room w1 (targets rs) \<longrightarrow> lost' = lost1"
        "room w1 (targets rs) \<longrightarrow> stock lib (w_data w1) isLarge (length (targets rs)) \<longrightarrow>
           D = targets rs"
      by blast
    define E where "E = (if ok then m # D else D)"
    have E: "subseq E (m # targets rs)" "(E = m # targets rs) = (ok \<and> D = targets rs)"
      using 2(2) by (auto simp: E_def dest: list_emb_length)
    have "view w' = deliver E (lbl, Some t) (view w)"
      using 2(7) 1(6) by (simp add: E_def deliver_Cons option.map_ident)
    moreover have "msg_ok (w_data w1) S1 G1 msg" if "msg_ok (w_data w) S G msg" for msg
      using msg_ok_mono [OF that 1(8,9)] msg_ok_config [OF 1(3)] by simp
    moreover have "lost' = lost" if room: "room w (m # targets rs)"
      using room_here [OF room q] room_step [OF room 1(6) _ 1(5)] 1(10) 2(12) by simp
    moreover have "E = m # targets rs"
      if room: "room w (m # targets rs)" and st: "stock lib (w_data w) isLarge (Suc (length (targets rs)))"
      using room_here [OF room q] room_step [OF room 1(6) _ 1(5)] 1(12) [OF st] 1(13) [OF st] 2(13)
      by (simp add: E_def)
    ultimately show ?thesis
      using 1 2 E
      by (rule_tac x = E in exI, rule_tac x = w' in exI, rule_tac x = lost' in exI,
          rule_tac x = S' in exI, rule_tac x = G' in exI) (auto simp: Some)
  qed
qed

lemma SendMessage_spec:
  assumes inv: "world_inv owns w held lost S G"
    and init: "md_resources (w_data w) = Some rs" and free: "\<not> md_locked (w_data w)"
    and alive: "\<forall>m. Some m \<in> set (m_receivers (rs_mailboxes rs lbl)) \<longrightarrow> w_queues w m \<noteq> None"
    and len: "length t < 65536" "length t \<le> unat (rs_largeSize rs)"
  shows "\<exists>D w' lost' S' G'.
    Mailbox_SendMessage lib lbl t w =
      Inr (D = targets (m_receivers (rs_mailboxes rs lbl)), w') \<and>
    subseq D (targets (m_receivers (rs_mailboxes rs lbl))) \<and> world_inv owns w' held lost' S' G' \<and>
    config (w_data w') = config (w_data w) \<and> \<not> md_locked (w_data w') \<and>
    caps w' = caps w \<and> view w' = deliver D (lbl, Some t) (view w) \<and>
    (\<forall>msg. msg_ok (w_data w) S G msg \<longrightarrow> view_msg (w_mem w') msg = view_msg (w_mem w) msg) \<and>
    S \<subseteq> S' \<and> G \<subseteq> G' \<and> (\<exists>ps. lost' = ps @ lost) \<and>
    (room w (targets (m_receivers (rs_mailboxes rs lbl))) \<longrightarrow> lost' = lost) \<and>
    (room w (targets (m_receivers (rs_mailboxes rs lbl))) \<longrightarrow>
     stock lib (w_data w) (unat (rs_smallSize rs) < length t)
       (length (targets (m_receivers (rs_mailboxes rs lbl)))) \<longrightarrow>
     D = targets (m_receivers (rs_mailboxes rs lbl)))"
proof -
  define R where "R = m_receivers (rs_mailboxes rs lbl)"
  define w0 where "w0 = w\<lparr>w_data := (w_data w)\<lparr>md_locked := True\<rparr>\<rparr>"
  have mok: "msg_ok (w_data w0) = msg_ok (w_data w)"
    by (simp add: w0_def msg_ok_def fun_eq_iff)
  have inv0: "world_inv owns w0 held lost S G" using inv by (simp add: w0_def)
  have vw: "view w0 = view w" "caps w0 = caps w" "w_queues w0 = w_queues w" "w_mem w0 = w_mem w"
      "config (w_data w0) = config (w_data w)"
    by (simp_all add: w0_def)
  have sizes: "MailboxData_smallSize (w_data w) = rs_smallSize rs"
      "MailboxData_largeSize (w_data w) = rs_largeSize rs"
    by (simp_all add: init MailboxData_smallSize_def MailboxData_largeSize_def)
  have pre: "\<forall>m \<in> set (targets R). w_queues w0 m \<noteq> None" "md_resources (w_data w0) \<noteq> None"
      "length t \<le> unat (MailboxData_largeSize (w_data w0))"
      "(unat (rs_smallSize rs) < length t) = (unat (MailboxData_smallSize (w_data w0)) < length t)"
    using alive init len(2) sizes by (simp_all add: R_def set_targets vw w0_def)
  have st: "stock lib (w_data w0) b k = stock lib (w_data w) b k" for b k by (simp add: w0_def)
  obtain D w1 lost' S' G' where 1:
      "send_loop lib (unat (rs_smallSize rs) < length t) lbl t R (True, w0) =
         Inr (D = targets R, w1)"
      "subseq D (targets R)" "world_inv owns w1 held lost' S' G'"
      "config (w_data w1) = config (w_data w0)" "caps w1 = caps w0"
      "view w1 = deliver D (lbl, Some t) (view w0)"
      "\<forall>msg. msg_ok (w_data w0) S G msg \<longrightarrow> view_msg (w_mem w1) msg = view_msg (w_mem w0) msg"
      "S \<subseteq> S'" "G \<subseteq> G'" "\<exists>ps. lost' = ps @ lost" "room w0 (targets R) \<longrightarrow> lost' = lost"
      "room w0 (targets R) \<longrightarrow>
         stock lib (w_data w) (unat (rs_smallSize rs) < length t) (length (targets R)) \<longrightarrow>
         D = targets R"
    using send_loop_spec [OF inv0 pre(2,1) len(1) pre(3,4), of lbl True] st by auto
  have run: "Mailbox_SendMessage lib lbl t w = Inr (D = targets R, unlock_world w1)"
    using free len(2) init 1(1) sizes
    by (simp add: Mailbox_SendMessage_def md_lock_def MailboxData_GetReceivers_def
        deref_resources_def R_def w0_def)
  have "room w (targets R) = room w0 (targets R)" by (simp add: room_def vw)
  then show ?thesis unfolding R_def [symmetric]
    using 1 run mok vw
    by (rule_tac x = D in exI, rule_tac x = "unlock_world w1" in exI, rule_tac x = lost' in exI,
        rule_tac x = S' in exI, rule_tac x = G' in exI) simp
qed

end

section \<open>Signals\<close>

lemma signal_one_spec:
  assumes inv: "world_inv owns w held lost S G" and q: "w_queues w m = Some q"
  obtains ok w' where
    "signal_one lbl (Some m) w = Inr w'" "ok = (length (q_queue q) < q_bound q)"
    "world_inv owns w' held lost S G" "w_data w' = w_data w" "w_mem w' = w_mem w" "caps w' = caps w"
    "view w' = (view w)(m := map_option (\<lambda>v. v @ (if ok then [(lbl, None)] else [])) (view w m))"
proof -
  obtain ok q' where push: "Queue_push q (Message_signal lbl) = (ok, q')" by fastforce
  note q' = Queue_push_items [OF push]
  define w' where "w' = w\<lparr>w_queues := (w_queues w)(m \<mapsto> q')\<rparr>"
  note i = world_invD [OF inv]
  have "msg_refs (q_queue q') = msg_refs (q_queue q)" using q' by simp
  then have "queue_refs ((w_queues w)(m \<mapsto> q')) = queue_refs (w_queues w)"
    using queue_refs_update [OF i(2) q, of q'] by simp
  moreover have "list_all (msg_ok (w_data w) S G) (q_queue q')"
    using i(3) [OF q] q' by (simp add: msg_ok_def)
  ultimately have "world_inv owns w' held lost S G"
    using i by (auto simp: world_inv_def w'_def)
  moreover have "view w' = (view w)(m := map_option
      (\<lambda>v. v @ (if ok then [(lbl, None)] else [])) (view w m))"
    using q q' by (auto simp: view_def w'_def fun_eq_iff view_msg_def)
  moreover have "caps w' = caps w" using q q' by (simp add: caps_def w'_def fun_eq_iff)
  moreover have "signal_one lbl (Some m) w = Inr w'"
    by (simp add: signal_one_def q Queue_emplace_push push w'_def)
  ultimately show thesis using that [of w' ok] q' by (simp add: w'_def)
qed

lemma signal_loop_spec:
  assumes "world_inv owns w held lost S G" and "\<forall>m \<in> set (targets rs). w_queues w m \<noteq> None"
  shows "\<exists>D w'. signal_loop lbl rs w = Inr w' \<and> subseq D (targets rs) \<and>
    world_inv owns w' held lost S G \<and> w_data w' = w_data w \<and> w_mem w' = w_mem w \<and>
    caps w' = caps w \<and> view w' = deliver D (lbl, None) (view w) \<and>
    view w' = offer (caps w) (targets rs) (lbl, None) (view w) \<and>
    (room w (targets rs) \<longrightarrow> D = targets rs)"
  using assms
proof (induction rs arbitrary: w)
  case Nil
  then show ?case by (rule_tac x = "[]" in exI, rule_tac x = w in exI) simp
next
  case (Cons r rs)
  show ?case
  proof (cases r)
    case None
    then show ?thesis using Cons by (simp add: signal_one_def)
  next
    case (Some m)
    from Cons.prems(2) obtain q where q: "w_queues w m = Some q" by (auto simp: Some)
    from signal_one_spec [OF Cons.prems(1) q, of lbl] obtain ok w1 where 1:
        "signal_one lbl (Some m) w = Inr w1" "ok = (length (q_queue q) < q_bound q)"
        "world_inv owns w1 held lost S G" "w_data w1 = w_data w" "w_mem w1 = w_mem w"
        "caps w1 = caps w"
        "view w1 = (view w)(m := map_option (\<lambda>v. v @ (if ok then [(lbl, None)] else [])) (view w m))"
      by blast
    have "\<forall>m \<in> set (targets rs). w_queues w1 m \<noteq> None"
      using Cons.prems(2) caps_alive [OF 1(6)] by (simp add: Some)
    from Cons.IH [OF 1(3) this] obtain D w' where 2:
        "signal_loop lbl rs w1 = Inr w'" "subseq D (targets rs)" "world_inv owns w' held lost S G"
        "w_data w' = w_data w1" "w_mem w' = w_mem w1" "caps w' = caps w1"
        "view w' = deliver D (lbl, None) (view w1)" "room w1 (targets rs) \<longrightarrow> D = targets rs"
        "view w' = offer (caps w1) (targets rs) (lbl, None) (view w1)"
      by blast
    define E where "E = (if ok then m # D else D)"
    have "view w' = deliver E (lbl, None) (view w)"
      using 2(7) 1(7) by (simp add: E_def deliver_Cons option.map_ident)
    moreover have "E = m # targets rs" if room: "room w (m # targets rs)"
      using room_here [OF room q] room_step [OF room 1(7) _ 1(6)] 1(2) 2(8) by (simp add: E_def)
    moreover have "subseq E (m # targets rs)" using 2(2) by (auto simp: E_def)
    moreover have "view w1 = (view w)(m := map_option (\<lambda>v. v @
        (if length v < unat (the (caps w m)) then [(lbl, None)] else [])) (view w m))"
      using 1(2,7) q by (simp add: view_def caps_def fun_eq_iff)
    then have "view w' = offer (caps w) (m # targets rs) (lbl, None) (view w)"
      using 2(9) 1(6) by simp
    ultimately show ?thesis using 1 2
      by (rule_tac x = E in exI, rule_tac x = w' in exI) (simp add: Some)
  qed
qed

lemma SendSignal_spec:
  assumes inv: "world_inv owns w held lost S G"
    and init: "md_resources (w_data w) = Some rs" and free: "\<not> md_locked (w_data w)"
    and alive: "\<forall>m. Some m \<in> set (m_receivers (rs_mailboxes rs lbl)) \<longrightarrow> w_queues w m \<noteq> None"
  shows "\<exists>D w'. Mailbox_SendSignal lbl w = Inr (True, w') \<and>
    subseq D (targets (m_receivers (rs_mailboxes rs lbl))) \<and>
    world_inv owns w' held lost S G \<and> w_data w' = w_data w \<and> w_mem w' = w_mem w \<and>
    caps w' = caps w \<and> view w' = deliver D (lbl, None) (view w) \<and>
    view w' = offer (caps w) (targets (m_receivers (rs_mailboxes rs lbl))) (lbl, None) (view w) \<and>
    (room w (targets (m_receivers (rs_mailboxes rs lbl))) \<longrightarrow>
       D = targets (m_receivers (rs_mailboxes rs lbl)))"
proof -
  define R where "R = m_receivers (rs_mailboxes rs lbl)"
  define w0 where "w0 = w\<lparr>w_data := (w_data w)\<lparr>md_locked := True\<rparr>\<rparr>"
  have "world_inv owns w0 held lost S G" using inv by (simp add: w0_def)
  moreover have "\<forall>m \<in> set (targets R). w_queues w0 m \<noteq> None"
    using alive by (simp add: R_def set_targets w0_def)
  ultimately obtain D w1 where 1:
      "signal_loop lbl R w0 = Inr w1" "subseq D (targets R)" "world_inv owns w1 held lost S G"
      "w_data w1 = w_data w0" "w_mem w1 = w_mem w0" "caps w1 = caps w0"
      "view w1 = deliver D (lbl, None) (view w0)" "room w0 (targets R) \<longrightarrow> D = targets R"
      "view w1 = offer (caps w0) (targets R) (lbl, None) (view w0)"
    using signal_loop_spec [of owns w0 held lost S G R lbl] by blast
  have vw: "view w0 = view w" "caps w0 = caps w" "w_mem w0 = w_mem w" by (simp_all add: w0_def)
  have run: "Mailbox_SendSignal lbl w = Inr (True, unlock_world w1)"
    using free init 1(1)
    by (simp add: Mailbox_SendSignal_def md_lock_def MailboxData_GetReceivers_def
        deref_resources_def R_def w0_def)
  have "w_data (unlock_world w1) = w_data w"
    using 1(4) free by (simp add: unlock_world_def md_unlock_def w0_def)
  moreover have "room w (targets R) = room w0 (targets R)" by (simp add: room_def vw)
  ultimately show ?thesis unfolding R_def [symmetric] using 1 run vw
    by (rule_tac x = D in exI, rule_tac x = "unlock_world w1" in exI) simp
qed

end
