(* ===== verification/MailboxSystem.thy ===== *)
theory MailboxSystem
  imports SendSpec
begin

text \<open>
  The mailbox system as the program sees it: the calls a program makes one after the other (each
  call of the library is one step), the discipline clients follow, the invariant all reachable
  states satisfy, and the abstract publish/subscribe machine that the code implements.
\<close>

section \<open>Calls\<close>

datatype call =
    Call_New mbox size_t
  | Call_Destroy mbox
  | Call_Initialize size_t size_t size_t size_t
  | Call_Register mbox label
  | Call_Unregister mbox label
  | Call_SendMessage label "byte list"
  | Call_SendSignal label
  | Call_Receive mbox
  | Call_Release nat

text \<open>
  \<open>s_held\<close> are the messages that clients received and did not release, oldest first;
  \<open>Call_Release i\<close> releases the \<open>i\<close>-th of them. A \<^verbatim>\<open>Receive\<close> that blocks changes nothing.
\<close>

record 'r sys =
  s_world :: "'r world"
  s_held :: "Message list"

fun sys_exec :: "'r lib \<Rightarrow> call \<Rightarrow> 'r sys \<Rightarrow> fault + (bool \<times> 'r sys)" where
  "sys_exec lib (Call_New m c) s = Inr (True, s\<lparr>s_world := Mailbox_new m c (s_world s)\<rparr>)"
| "sys_exec lib (Call_Destroy m) s = Inr (True, s\<lparr>s_world := Mailbox_destroy m (s_world s)\<rparr>)"
| "sys_exec lib (Call_Initialize a b c d) s =
     and_then (Mailbox_Initialize lib a b c d (s_world s)) (\<lambda>(ok, w). Inr (ok, s\<lparr>s_world := w\<rparr>))"
| "sys_exec lib (Call_Register m l) s =
     and_then (Mailbox_RegisterForLabel lib m l (s_world s)) (\<lambda>(ok, w). Inr (ok, s\<lparr>s_world := w\<rparr>))"
| "sys_exec lib (Call_Unregister m l) s =
     and_then (Mailbox_UnregisterForLabel lib m l (s_world s)) (\<lambda>(ok, w). Inr (ok, s\<lparr>s_world := w\<rparr>))"
| "sys_exec lib (Call_SendMessage l t) s =
     and_then (Mailbox_SendMessage lib l t (s_world s)) (\<lambda>(ok, w). Inr (ok, s\<lparr>s_world := w\<rparr>))"
| "sys_exec lib (Call_SendSignal l) s =
     and_then (Mailbox_SendSignal l (s_world s)) (\<lambda>(ok, w). Inr (ok, s\<lparr>s_world := w\<rparr>))"
| "sys_exec lib (Call_Receive m) s =
     and_then (Mailbox_Receive m (s_world s)) (\<lambda>x.
       case x of
         None \<Rightarrow> Inr (False, s)
       | Some (msg, w) \<Rightarrow> Inr (True, s\<lparr>s_world := w, s_held := s_held s @ [msg]\<rparr>))"
| "sys_exec lib (Call_Release i) s =
     (if i < length (s_held s)
      then Inr (True, s\<lparr>s_world := Mailbox_ReleaseMessage lib (s_held s ! i) (s_world s),
                  s_held := take i (s_held s) @ drop (Suc i) (s_held s)\<rparr>)
      else Inr (False, s))"

text \<open>A program's calls with their results.\<close>

fun sys_run :: "'r lib \<Rightarrow> call list \<Rightarrow> 'r sys \<Rightarrow> fault + (bool list \<times> 'r sys)" where
  "sys_run lib [] s = Inr ([], s)"
| "sys_run lib (c # cs) s =
     and_then (sys_exec lib c s) (\<lambda>(ok, s').
     and_then (sys_run lib cs s') (\<lambda>(oks, s''). Inr (ok # oks, s'')))"

definition sys_new :: "mem \<Rightarrow> 'r sys" where
  "sys_new m = \<lparr>s_world = world_new m, s_held = []\<rparr>"

section \<open>The discipline of the clients\<close>

definition receivers_of :: "'r MailboxData \<Rightarrow> label \<Rightarrow> mbox option list" where
  "receivers_of d l =
     (case md_resources d of None \<Rightarrow> [None, None, None] | Some rs \<Rightarrow> m_receivers (rs_mailboxes rs l))"

text \<open>
  The library is initialized before mailboxes register and signals are sent, with large blocks
  whose size fits the 16 bits of \<^verbatim>\<open>m_size\<close>; a mailbox is destroyed only when it is registered
  nowhere; objects have at least one byte.
\<close>

fun call_ok :: "call \<Rightarrow> 'r sys \<Rightarrow> bool" where
  "call_ok (Call_New m c) s \<longleftrightarrow> w_queues (s_world s) m = None"
| "call_ok (Call_Destroy m) s \<longleftrightarrow>
     w_queues (s_world s) m \<noteq> None \<and> (\<forall>l. Some m \<notin> set (receivers_of (w_data (s_world s)) l))"
| "call_ok (Call_Initialize a b c d) s \<longleftrightarrow> unat c < 65536"
| "call_ok (Call_Register m l) s \<longleftrightarrow>
     w_queues (s_world s) m \<noteq> None \<and> md_initialized (w_data (s_world s))"
| "call_ok (Call_Unregister m l) s \<longleftrightarrow> md_initialized (w_data (s_world s))"
| "call_ok (Call_SendMessage l t) s \<longleftrightarrow> t \<noteq> []"
| "call_ok (Call_SendSignal l) s \<longleftrightarrow> md_initialized (w_data (s_world s))"
| "call_ok (Call_Receive m) s \<longleftrightarrow> w_queues (s_world s) m \<noteq> None"
| "call_ok (Call_Release i) s \<longleftrightarrow> i < length (s_held s)"

fun calls_ok :: "'r lib \<Rightarrow> call list \<Rightarrow> 'r sys \<Rightarrow> bool" where
  "calls_ok lib [] s \<longleftrightarrow> True"
| "calls_ok lib (c # cs) s \<longleftrightarrow> call_ok c s \<and>
     (case sys_exec lib c s of Inl _ \<Rightarrow> True | Inr (_, s') \<Rightarrow> calls_ok lib cs s')"

section \<open>The invariant\<close>

definition sys_inv ::
  "('r \<Rightarrow> blocks \<Rightarrow> bool) \<Rightarrow> 'r sys \<Rightarrow> addr list \<Rightarrow> addr set \<Rightarrow> addr set \<Rightarrow> bool" where
  "sys_inv owns s lost S G \<longleftrightarrow>
     world_inv owns (s_world s) (s_held s) lost S G \<and> \<not> md_locked (w_data (s_world s)) \<and>
     (\<forall>l m. Some m \<in> set (receivers_of (w_data (s_world s)) l) \<longrightarrow> w_queues (s_world s) m \<noteq> None) \<and>
     unat (MailboxData_largeSize (w_data (s_world s))) < 65536"

section \<open>The abstract machine\<close>

text \<open>
  Slots per label, a bounded sequence of labelled payloads per mailbox, and the payloads clients
  hold; no blocks, no memory, no pools.
\<close>

type_synonym payload = "label \<times> byte list option"

record pubsub =
  a_slots :: "label \<Rightarrow> mbox option list"
  a_queues :: "mbox \<Rightarrow> payload list option"
  a_caps :: "mbox \<Rightarrow> size_t option"
  a_held :: "payload list"

text \<open>
  One call with its result. A message goes to a subsequence of the label's slots, and the result
  tells whether it went to all of them; a signal goes to every slot whose mailbox has room.
\<close>

inductive pubsub_step :: "pubsub \<Rightarrow> call \<Rightarrow> bool \<Rightarrow> pubsub \<Rightarrow> bool" where
  ps_new: "a_queues a m = None \<Longrightarrow> pubsub_step a (Call_New m c) True
     (a\<lparr>a_queues := (a_queues a)(m \<mapsto> []), a_caps := (a_caps a)(m \<mapsto> c)\<rparr>)"
| ps_destroy: "(\<And>l. Some m \<notin> set (a_slots a l)) \<Longrightarrow> pubsub_step a (Call_Destroy m) True
     (a\<lparr>a_queues := (a_queues a)(m := None), a_caps := (a_caps a)(m := None)\<rparr>)"
| ps_init: "pubsub_step a (Call_Initialize ss sc ls lc) ok a"
| ps_register: "add_loop (Some m) (a_slots a l) = (ok, slots) \<Longrightarrow>
     pubsub_step a (Call_Register m l) ok (a\<lparr>a_slots := (a_slots a)(l := slots)\<rparr>)"
| ps_unregister: "pubsub_step a (Call_Unregister m l) True
     (a\<lparr>a_slots := (a_slots a)(l := map (\<lambda>r. if r = Some m then None else r) (a_slots a l))\<rparr>)"
| ps_too_big: "pubsub_step a (Call_SendMessage l t) False a"
| ps_send: "subseq D (targets (a_slots a l)) \<Longrightarrow>
     pubsub_step a (Call_SendMessage l t) (D = targets (a_slots a l))
       (a\<lparr>a_queues := deliver D (l, Some t) (a_queues a)\<rparr>)"
| ps_signal: "pubsub_step a (Call_SendSignal l) True
     (a\<lparr>a_queues := offer (a_caps a) (targets (a_slots a l)) (l, None) (a_queues a)\<rparr>)"
| ps_receive: "a_queues a m = Some (x # xs) \<Longrightarrow> pubsub_step a (Call_Receive m) True
     (a\<lparr>a_queues := (a_queues a)(m \<mapsto> xs), a_held := a_held a @ [x]\<rparr>)"
| ps_block: "a_queues a m = Some [] \<Longrightarrow> pubsub_step a (Call_Receive m) False a"
| ps_release: "i < length (a_held a) \<Longrightarrow> pubsub_step a (Call_Release i) True
     (a\<lparr>a_held := take i (a_held a) @ drop (Suc i) (a_held a)\<rparr>)"

inductive pubsub_run :: "pubsub \<Rightarrow> call list \<Rightarrow> bool list \<Rightarrow> pubsub \<Rightarrow> bool" where
  run_done: "pubsub_run a [] [] a"
| run_call: "pubsub_step a c ok b \<Longrightarrow> pubsub_run b cs oks d \<Longrightarrow> pubsub_run a (c # cs) (ok # oks) d"

definition abstract :: "'r sys \<Rightarrow> pubsub" where
  "abstract s =
     \<lparr>a_slots = receivers_of (w_data (s_world s)),
      a_queues = view (s_world s),
      a_caps = caps (s_world s),
      a_held = map (view_msg (w_mem (s_world s))) (s_held s)\<rparr>"

end
