(* ===== verification/SystemSpec.thy ===== *)
theory SystemSpec
  imports MailboxSystem
begin

text \<open>
  Every call that keeps to the discipline returns, keeps the invariant and is a step of the
  abstract machine. One lemma per call, then runs.
\<close>

text \<open>Calls after which no block is lost that was not lost before.\<close>

fun no_loss :: "call \<Rightarrow> 'r sys \<Rightarrow> bool" where
  "no_loss (Call_SendMessage l t) s \<longleftrightarrow>
     room (s_world s) (targets (receivers_of (w_data (s_world s)) l))"
| "no_loss (Call_Destroy m) s \<longleftrightarrow>
     (\<forall>q. w_queues (s_world s) m = Some q \<longrightarrow> msg_refs (q_queue q) = {#})"
| "no_loss c s \<longleftrightarrow> True"

text \<open>What a step promises.\<close>

definition good_step ::
  "('r \<Rightarrow> blocks \<Rightarrow> bool) \<Rightarrow> 'r lib \<Rightarrow> call \<Rightarrow> 'r sys \<Rightarrow> addr list \<Rightarrow> bool" where
  "good_step owns lib c s lost \<longleftrightarrow>
     (\<exists>ok s' lost' S' G'. sys_exec lib c s = Inr (ok, s') \<and> sys_inv owns s' lost' S' G' \<and>
        pubsub_step (abstract s) c ok (abstract s') \<and> (no_loss c s \<longrightarrow> lost' = lost))"

lemma good_stepI:
  "sys_exec lib c s = Inr (ok, s') \<Longrightarrow> sys_inv owns s' lost' S' G' \<Longrightarrow>
     pubsub_step (abstract s) c ok (abstract s') \<Longrightarrow> (no_loss c s \<Longrightarrow> lost' = lost) \<Longrightarrow>
     good_step owns lib c s lost"
  unfolding good_step_def by blast

lemma good_step_keepI:
  "sys_exec lib c s = Inr (ok, s') \<Longrightarrow> sys_inv owns s' lost S' G' \<Longrightarrow>
     pubsub_step (abstract s) c ok (abstract s') \<Longrightarrow> good_step owns lib c s lost"
  by (rule good_stepI) simp_all

lemma sys_invD:
  assumes "sys_inv owns s lost S G"
  shows "world_inv owns (s_world s) (s_held s) lost S G" "\<not> md_locked (w_data (s_world s))"
    "Some m \<in> set (receivers_of (w_data (s_world s)) l) \<Longrightarrow> w_queues (s_world s) m \<noteq> None"
    "unat (MailboxData_largeSize (w_data (s_world s))) < 65536"
  using assms by (auto simp: sys_inv_def)

lemma sys_inv_new: "sys_inv owns (sys_new mem) [] {} {}"
  by (auto simp: sys_inv_def sys_new_def world_new_def world_inv_def data_inv_def MailboxData_new_def
      receivers_of_def MailboxData_largeSize_def)

text \<open>Locking and unlocking around a body that changes nothing.\<close>

lemma lock_unlock: "\<not> md_locked d \<Longrightarrow> md_unlock (d\<lparr>md_locked := True\<rparr>) = d"
  by (simp add: md_unlock_def)

lemma receivers_of_config: "config d' = config d \<Longrightarrow> receivers_of d' = receivers_of d"
  by (cases "md_resources d"; cases "md_resources d'")
    (auto simp: config_def receivers_of_def fun_eq_iff)

lemma view_new [simp]: "view (Mailbox_new m c w) = (view w)(m \<mapsto> [])"
  "caps (Mailbox_new m c w) = (caps w)(m \<mapsto> c)"
  by (auto simp: view_def caps_def Mailbox_new_def Queue_new_def fun_eq_iff)

lemma view_destroy [simp]: "view (Mailbox_destroy m w) = (view w)(m := None)"
  "caps (Mailbox_destroy m w) = (caps w)(m := None)"
  by (auto simp: view_def caps_def Mailbox_destroy_def fun_eq_iff)

lemma exec_new:
  assumes inv: "sys_inv owns s lost S G" and ok: "call_ok (Call_New m c) s"
  shows "good_step owns lib (Call_New m c) s lost"
proof -
  define s' where "s' = s\<lparr>s_world := Mailbox_new m c (s_world s)\<rparr>"
  note i = sys_invD [OF inv] and w = world_invD [OF sys_invD(1) [OF inv]]
  from ok have new: "w_queues (s_world s) m = None" by simp
  have "sys_inv owns s' lost S G"
    using i(2-4) w queue_refs_new [OF w(2) new, of "Queue_new c"]
    by (auto simp: sys_inv_def s'_def world_inv_def Mailbox_new_def Queue_new_def)
  moreover have "pubsub_step (abstract s) (Call_New m c) True (abstract s')"
  proof -
    have "abstract s' = (abstract s)\<lparr>a_queues := (a_queues (abstract s))(m \<mapsto> []),
        a_caps := (a_caps (abstract s))(m \<mapsto> c)\<rparr>"
      by (simp add: abstract_def s'_def) (simp add: Mailbox_new_def)
    moreover have "a_queues (abstract s) m = None" using new by (simp add: abstract_def view_def)
    ultimately show ?thesis using ps_new [of "abstract s" m c] by simp
  qed
  ultimately show ?thesis by (intro good_step_keepI [of _ _ _ True s' owns lost S G]) (simp_all add: s'_def)
qed

lemma exec_destroy:
  assumes inv: "sys_inv owns s lost S G" and ok: "call_ok (Call_Destroy m) s"
  shows "good_step owns lib (Call_Destroy m) s lost"
proof -
  define s' where "s' = s\<lparr>s_world := Mailbox_destroy m (s_world s)\<rparr>"
  note i = sys_invD [OF inv] and w = world_invD [OF sys_invD(1) [OF inv]]
  from ok obtain q where q: "w_queues (s_world s) m = Some q"
      and unreg: "\<And>l. Some m \<notin> set (receivers_of (w_data (s_world s)) l)" by auto
  define lost' where "lost' = filter (\<lambda>p. p \<noteq> nullptr) (map m_data (q_queue q)) @ lost"
  have "mset lost' = msg_refs (q_queue q) + mset lost" by (simp add: lost'_def msg_refs_def)
  then have "queue_refs ((w_queues (s_world s))(m := None)) + msg_refs (s_held s) + mset lost' =
      mset_set (S \<union> G)"
    using queue_refs_remove [OF w(2) q] w(5) by (simp add: ac_simps)
  moreover have "w_queues (Mailbox_destroy m (s_world s)) k \<noteq> None"
    if "Some k \<in> set (receivers_of (w_data (s_world s)) l)" for k l
    using i(3) [OF that] unreg [of l] that by (auto simp: Mailbox_destroy_def)
  ultimately have "sys_inv owns s' lost' S G"
    using i w unfolding sys_inv_def world_inv_def s'_def
    by (auto simp: Mailbox_destroy_def split: if_splits)
  moreover have "abstract s' = (abstract s)\<lparr>a_queues := (a_queues (abstract s))(m := None),
      a_caps := (a_caps (abstract s))(m := None)\<rparr>"
    by (simp add: abstract_def s'_def) (simp add: Mailbox_destroy_def)
  then have "pubsub_step (abstract s) (Call_Destroy m) True (abstract s')"
    using ps_destroy [of m "abstract s"] unreg by (simp add: abstract_def)
  moreover have "no_loss (Call_Destroy m) s \<Longrightarrow> lost' = lost"
    using q by (simp add: lost'_def msg_refs_def)
  ultimately show ?thesis
    by (intro good_stepI [of _ _ _ True s' owns lost' S G]) (simp_all add: s'_def)
qed

lemma exec_receive:
  assumes inv: "sys_inv owns s lost S G" and ok: "call_ok (Call_Receive m) s"
  shows "good_step owns lib (Call_Receive m) s lost"
proof -
  note i = sys_invD [OF inv] and w = world_invD [OF sys_invD(1) [OF inv]]
  from ok obtain q where q: "w_queues (s_world s) m = Some q" by auto
  show ?thesis
  proof (cases "q_queue q")
    case Nil
    then have "pubsub_step (abstract s) (Call_Receive m) False (abstract s)"
      using q by (intro ps_block) (simp add: abstract_def view_def)
    then show ?thesis using inv q Nil
      by (intro good_step_keepI [of _ _ _ False s owns lost S G]) (simp_all add: Mailbox_Receive_def Queue_pop_def)
  next
    case (Cons msg ms)
    define q' where "q' = q\<lparr>q_queue := ms\<rparr>"
    define w' where "w' = (s_world s)\<lparr>w_queues := (w_queues (s_world s))(m \<mapsto> q')\<rparr>"
    define s' where "s' = s\<lparr>s_world := w', s_held := s_held s @ [msg]\<rparr>"
    have run: "sys_exec lib (Call_Receive m) s = Inr (True, s')"
      using q Cons by (simp add: Mailbox_Receive_def Queue_pop_def s'_def w'_def q'_def)
    have ms: "msg_ok (w_data (s_world s)) S G msg" "list_all (msg_ok (w_data (s_world s)) S G) ms"
      using w(3) [OF q] Cons by simp_all
    have "queue_refs (w_queues w') + msg_refs [msg] + msg_refs ms =
        queue_refs (w_queues (s_world s)) + msg_refs ms"
      using queue_refs_update [OF w(2) q, of q'] Cons by (simp add: w'_def q'_def ac_simps)
    then have "queue_refs (w_queues w') + msg_refs [msg] = queue_refs (w_queues (s_world s))" by simp
    then have "queue_refs (w_queues w') + msg_refs (s_held s @ [msg]) + mset lost = mset_set (S \<union> G)"
      using w(5) by (simp add: ac_simps)
    then have "world_inv owns w' (s_held s @ [msg]) lost S G"
      using w ms by (auto simp: world_inv_def w'_def q'_def)
    moreover have "w_queues w' k \<noteq> None" if "w_queues (s_world s) k \<noteq> None" for k
      using that by (simp add: w'_def)
    ultimately have "sys_inv owns s' lost S G"
      using i by (auto simp: sys_inv_def s'_def) (auto simp: w'_def)
    moreover have "abstract s' = (abstract s)\<lparr>
        a_queues := (a_queues (abstract s))(m \<mapsto> map (view_msg (w_mem (s_world s))) ms),
        a_held := a_held (abstract s) @ [view_msg (w_mem (s_world s)) msg]\<rparr>"
      by (auto simp: abstract_def s'_def w'_def view_def caps_def q'_def q fun_eq_iff)
    then have "pubsub_step (abstract s) (Call_Receive m) True (abstract s')"
      using ps_receive [of "abstract s" m "view_msg (w_mem (s_world s)) msg"
          "map (view_msg (w_mem (s_world s))) ms"] q Cons
      by (simp add: abstract_def view_def)
    ultimately show ?thesis using run by (intro good_step_keepI [of _ _ _ True s' owns lost S G])
  qed
qed

lemma exec_signal:
  assumes inv: "sys_inv owns s lost S G" and ok: "call_ok (Call_SendSignal l) s"
  shows "good_step owns lib (Call_SendSignal l) s lost"
proof -
  note i = sys_invD [OF inv] and w = world_invD [OF sys_invD(1) [OF inv]]
  from ok w(1) obtain rs where rs: "md_resources (w_data (s_world s)) = Some rs"
    by (auto simp: data_inv_def)
  then have R: "receivers_of (w_data (s_world s)) l = m_receivers (rs_mailboxes rs l)"
    by (simp add: receivers_of_def)
  have "\<forall>m. Some m \<in> set (m_receivers (rs_mailboxes rs l)) \<longrightarrow> w_queues (s_world s) m \<noteq> None"
    using i(3) [of _ l] R by simp
  from SendSignal_spec [OF i(1) rs i(2) this] obtain D w' where 1:
      "Mailbox_SendSignal l (s_world s) = Inr (True, w')" "world_inv owns w' (s_held s) lost S G"
      "w_data w' = w_data (s_world s)" "w_mem w' = w_mem (s_world s)" "caps w' = caps (s_world s)"
      "view w' = offer (caps (s_world s)) (targets (m_receivers (rs_mailboxes rs l))) (l, None)
         (view (s_world s))"
    by blast
  define s' where "s' = s\<lparr>s_world := w'\<rparr>"
  have "sys_inv owns s' lost S G"
    using i 1 caps_alive [OF 1(5)] by (auto simp: sys_inv_def s'_def)
  moreover have "abstract s' = (abstract s)\<lparr>a_queues := offer (a_caps (abstract s))
      (targets (a_slots (abstract s) l)) (l, None) (a_queues (abstract s))\<rparr>"
    using 1 by (simp add: abstract_def s'_def R)
  then have "pubsub_step (abstract s) (Call_SendSignal l) True (abstract s')"
    using ps_signal [of "abstract s" l] by simp
  ultimately show ?thesis using 1(1)
    by (intro good_step_keepI [of _ _ _ True s' owns lost S G]) (simp_all add: s'_def)
qed

text \<open>Registration changes the slots of one label and nothing else.\<close>

lemma sys_inv_slots:
  assumes inv: "sys_inv owns s lost S G" and rs: "md_resources (w_data (s_world s)) = Some rs"
    and R: "Receivers_wf R"
    and alive: "\<And>m. Some m \<in> set (m_receivers R) \<Longrightarrow> w_queues (s_world s) m \<noteq> None"
    and s': "s' = s\<lparr>s_world := (s_world s)\<lparr>w_data := (w_data (s_world s))\<lparr>md_resources :=
      Some (rs\<lparr>rs_mailboxes := (rs_mailboxes rs)(l := R)\<rparr>)\<rparr>\<rparr>\<rparr>"
  shows "sys_inv owns s' lost S G \<and> abstract s' =
    (abstract s)\<lparr>a_slots := (a_slots (abstract s))(l := m_receivers R)\<rparr>"
proof -
  note i = sys_invD [OF inv]
  have mok: "msg_ok (w_data (s_world s')) = msg_ok (w_data (s_world s))"
    using rs by (simp add: s' msg_ok_def fun_eq_iff MailboxData_smallSize_def
        MailboxData_largeSize_def)
  have slots: "receivers_of (w_data (s_world s')) =
      (receivers_of (w_data (s_world s)))(l := m_receivers R)"
    using rs by (simp add: s' receivers_of_def fun_eq_iff)
  have "data_inv owns (w_data (s_world s')) S G"
    using world_invD(1) [OF i(1)] rs R
    by (simp add: s' data_inv_def res_inv_def
        res_blocks_cong [of "rs\<lparr>rs_mailboxes := (rs_mailboxes rs)(l := R)\<rparr>" rs])
  then have "world_inv owns (s_world s') (s_held s') lost S G"
    using world_invD [OF i(1)] mok by (simp add: world_inv_def s')
  moreover have "MailboxData_largeSize (w_data (s_world s')) =
      MailboxData_largeSize (w_data (s_world s))"
    using rs by (simp add: s' MailboxData_largeSize_def)
  ultimately have "sys_inv owns s' lost S G"
    using i alive slots by (auto simp: sys_inv_def s' split: if_splits)
  moreover have "abstract s' =
      (abstract s)\<lparr>a_slots := (a_slots (abstract s))(l := m_receivers R)\<rparr>"
    using slots by (simp add: abstract_def s')
  ultimately show ?thesis ..
qed

lemma exec_register:
  assumes inv: "sys_inv owns s lost S G" and ok: "call_ok (Call_Register m l) s"
  shows "good_step owns lib (Call_Register m l) s lost"
proof -
  note i = sys_invD [OF inv] and w = world_invD [OF sys_invD(1) [OF inv]]
  from ok w(1) obtain rs where rs: "md_resources (w_data (s_world s)) = Some rs"
      "md_initialized (w_data (s_world s))"
    by (auto simp: data_inv_def)
  obtain b R where add: "Receivers_add (rs_mailboxes rs l) (Some m) = (b, R)" by fastforce
  define s' where "s' = s\<lparr>s_world := (s_world s)\<lparr>w_data := (w_data (s_world s))\<lparr>md_resources :=
      Some (rs\<lparr>rs_mailboxes := (rs_mailboxes rs)(l := R)\<rparr>)\<rparr>\<rparr>\<rparr>"
  have run: "sys_exec lib (Call_Register m l) s = Inr (b, s')"
    using i(2) rs add
    by (simp add: Mailbox_RegisterForLabel_def on_data_def MailboxData_RegisterForLabel_def
        md_lock_def ensure_initialized_def deref_resources_def s'_def md_unlock_def)
  have slots: "a_slots (abstract s) l = m_receivers (rs_mailboxes rs l)"
    by (simp add: abstract_def receivers_of_def rs)
  from add have al: "add_loop (Some m) (a_slots (abstract s) l) = (b, m_receivers R)"
    by (auto simp: Receivers_add_def slots split: prod.splits)
  have wf: "Receivers_wf (rs_mailboxes rs l)"
    using w(1) rs by (simp add: data_inv_def res_inv_def)
  have "w_queues (s_world s) k \<noteq> None" if "Some k \<in> set (m_receivers R)" for k
  proof -
    have "Some k \<in> set (a_slots (abstract s) l) \<or> k = m"
      using al that
      by (cases rule: add_loop_cases [of "a_slots (abstract s) l" "Some m"]) auto
    then show ?thesis using i(3) [of k l] ok by (auto simp: abstract_def)
  qed
  with sys_inv_slots [OF inv rs(1) Receivers_add_wf [OF add wf] _ s'_def]
  have "sys_inv owns s' lost S G" "abstract s' =
      (abstract s)\<lparr>a_slots := (a_slots (abstract s))(l := m_receivers R)\<rparr>"
    by blast+
  then show ?thesis using run ps_register [of m "abstract s" l, OF al]
    by (intro good_step_keepI [of _ _ _ b s' owns lost S G]) auto
qed

lemma exec_unregister:
  assumes inv: "sys_inv owns s lost S G" and ok: "call_ok (Call_Unregister m l) s"
  shows "good_step owns lib (Call_Unregister m l) s lost"
proof -
  note i = sys_invD [OF inv] and w = world_invD [OF sys_invD(1) [OF inv]]
  from ok w(1) obtain rs where rs: "md_resources (w_data (s_world s)) = Some rs"
      "md_initialized (w_data (s_world s))"
    by (auto simp: data_inv_def)
  obtain b R where rem: "Receivers_remove (rs_mailboxes rs l) (Some m) = (b, R)" by fastforce
  define s' where "s' = s\<lparr>s_world := (s_world s)\<lparr>w_data := (w_data (s_world s))\<lparr>md_resources :=
      Some (rs\<lparr>rs_mailboxes := (rs_mailboxes rs)(l := R)\<rparr>)\<rparr>\<rparr>\<rparr>"
  have run: "sys_exec lib (Call_Unregister m l) s = Inr (True, s')"
    using i(2) rs rem
    by (simp add: Mailbox_UnregisterForLabel_def on_data_def MailboxData_UnregisterForLabel_def
        md_lock_def ensure_initialized_def deref_resources_def s'_def md_unlock_def)
  have slots: "a_slots (abstract s) l = m_receivers (rs_mailboxes rs l)"
    by (simp add: abstract_def receivers_of_def rs)
  have wf: "Receivers_wf (rs_mailboxes rs l)"
    using w(1) rs by (simp add: data_inv_def res_inv_def)
  have R: "m_receivers R = map (\<lambda>r. if r = Some m then None else r) (a_slots (abstract s) l)"
    using rem wf by (auto simp: Receivers_remove_def slots remove_loop_map Receivers_wf_def)
  have "w_queues (s_world s) k \<noteq> None" if "Some k \<in> set (m_receivers R)" for k
    using that i(3) [of k l] by (auto simp: R abstract_def split: if_splits)
  with sys_inv_slots [OF inv rs(1) Receivers_remove_wf [OF rem wf] _ s'_def]
  have "sys_inv owns s' lost S G" "abstract s' =
      (abstract s)\<lparr>a_slots := (a_slots (abstract s))(l := m_receivers R)\<rparr>"
    by blast+
  then show ?thesis using run ps_unregister [of "abstract s" m l]
    by (intro good_step_keepI [of _ _ _ True s' owns lost S G]) (auto simp: R)
qed

context mailbox_lib begin

lemma exec_initialize:
  assumes inv: "sys_inv owns s lost S G" and ok: "call_ok (Call_Initialize a b c d) s"
  shows "good_step owns lib (Call_Initialize a b c d) s lost"
proof -
  note i = sys_invD [OF inv] and w = world_invD [OF sys_invD(1) [OF inv]]
  let ?d = "w_data (s_world s)"
  consider (noop) "sys_exec lib (Call_Initialize a b c d) s = Inr (False, s)"
    | (init) rs where "\<not> md_initialized ?d" "Resources_new lib a b c d = Some rs"
        "sys_exec lib (Call_Initialize a b c d) s = Inr (True, s\<lparr>s_world := (s_world s)\<lparr>w_data :=
           ?d\<lparr>md_resources := Some rs, md_initialized := True\<rparr>\<rparr>\<rparr>)"
    using i(2)
    by (cases "md_initialized ?d"; cases "Resources_new lib a b c d")
      (simp_all add: Mailbox_Initialize_def on_data_def MailboxData_Initialize_def md_lock_def
        lock_unlock, simp_all add: md_unlock_def)
  then show ?thesis
  proof cases
    case noop
    then show ?thesis using inv ps_init by (intro good_step_keepI [of _ _ _ False s owns lost S G])
  next
    case (init rs)
    define d' where "d' = ?d\<lparr>md_resources := Some rs, md_initialized := True\<rparr>"
    define s' where "s' = s\<lparr>s_world := (s_world s)\<lparr>w_data := d'\<rparr>\<rparr>"
    from init(1) w(1) have none: "md_resources ?d = None" and SG: "S = {}" "G = {}"
      by (auto simp: data_inv_def split: option.splits)
    have mok: "msg_ok d' {} {} = msg_ok ?d {} {}" by (simp add: msg_ok_def fun_eq_iff)
    have rs: "\<And>l. rs_mailboxes rs l = Receivers_new" "rs_largeSize rs = c"
      using init(2) by (auto simp: Resources_new_def Let_def split: option.splits)
    have slots: "receivers_of d' = receivers_of ?d"
      using none by (simp add: receivers_of_def d'_def fun_eq_iff rs Receivers_new_def)
    have "data_inv owns d' {} {}"
      using Resources_new_inv [OF init(2)] by (simp add: data_inv_def d'_def)
    then have "world_inv owns (s_world s') (s_held s') lost S G"
      using w mok by (simp add: world_inv_def s'_def SG)
    moreover have "unat (MailboxData_largeSize d') < 65536"
      using ok by (simp add: d'_def MailboxData_largeSize_def rs)
    moreover have "\<not> md_locked d'" using i(2) by (simp add: d'_def)
    ultimately have "sys_inv owns s' lost S G"
      using i(3) slots by (auto simp: sys_inv_def s'_def)
    moreover have "abstract s' = abstract s" using slots by (simp add: abstract_def s'_def)
    ultimately show ?thesis using init(3) ps_init [of "abstract s" a b c d True]
      by (intro good_step_keepI [of _ _ _ True s' owns lost S G]) (simp_all add: s'_def d'_def)
  qed
qed

lemma exec_send:
  assumes inv: "sys_inv owns s lost S G" and ok: "call_ok (Call_SendMessage l t) s"
  shows "good_step owns lib (Call_SendMessage l t) s lost"
proof -
  note i = sys_invD [OF inv] and w = world_invD [OF sys_invD(1) [OF inv]]
  let ?d = "w_data (s_world s)"
  show ?thesis
  proof (cases "unat (MailboxData_largeSize ?d) < length t")
    case True
    then have "sys_exec lib (Call_SendMessage l t) s = Inr (False, s)"
      using i(2) by (simp add: Mailbox_SendMessage_def md_lock_def unlock_world_def lock_unlock)
    then show ?thesis using inv ps_too_big by (intro good_step_keepI [of _ _ _ False s owns lost S G])
  next
    case False
    then obtain rs where rs: "md_resources ?d = Some rs"
      using ok by (auto simp: MailboxData_largeSize_def split: option.splits)
    have R: "receivers_of ?d l = m_receivers (rs_mailboxes rs l)"
      by (simp add: receivers_of_def rs)
    have "\<forall>m. Some m \<in> set (m_receivers (rs_mailboxes rs l)) \<longrightarrow> w_queues (s_world s) m \<noteq> None"
      using i(3) [of _ l] R by simp
    moreover have "length t < 65536" "length t \<le> unat (rs_largeSize rs)"
      using False i(4) by (simp_all add: MailboxData_largeSize_def rs)
    ultimately obtain D w' lost' S' G' where 1:
        "Mailbox_SendMessage lib l t (s_world s) =
           Inr (D = targets (m_receivers (rs_mailboxes rs l)), w')"
        "subseq D (targets (m_receivers (rs_mailboxes rs l)))"
        "world_inv owns w' (s_held s) lost' S' G'"
        "config (w_data w') = config ?d" "\<not> md_locked (w_data w')" "caps w' = caps (s_world s)"
        "view w' = deliver D (l, Some t) (view (s_world s))"
        "\<forall>msg. msg_ok ?d S G msg \<longrightarrow> view_msg (w_mem w') msg = view_msg (w_mem (s_world s)) msg"
        "room (s_world s) (targets (m_receivers (rs_mailboxes rs l))) \<longrightarrow> lost' = lost"
      using SendMessage_spec [OF i(1) rs i(2)] by blast
    define s' where "s' = s\<lparr>s_world := w'\<rparr>"
    have "sys_inv owns s' lost' S' G'"
      using i 1 caps_alive [OF 1(6)] config_sizes [OF 1(4)] receivers_of_config [OF 1(4)]
      by (auto simp: sys_inv_def s'_def)
    moreover have "map (view_msg (w_mem w')) (s_held s) = map (view_msg (w_mem (s_world s))) (s_held s)"
      using w(4) 1(8) by (auto simp: list_all_iff)
    then have "abstract s' = (abstract s)\<lparr>a_queues := deliver D (l, Some t) (a_queues (abstract s))\<rparr>"
      using 1(6,7) receivers_of_config [OF 1(4)] by (simp add: abstract_def s'_def)
    then have "pubsub_step (abstract s) (Call_SendMessage l t)
        (D = targets (m_receivers (rs_mailboxes rs l))) (abstract s')"
      using ps_send [of D "abstract s" l t] 1(2) R by (simp add: abstract_def)
    ultimately show ?thesis using 1(1,9)
      by (intro good_stepI [of _ _ _ "D = targets (m_receivers (rs_mailboxes rs l))" s' owns lost' S' G'])
        (simp_all add: s'_def R)
  qed
qed

end

section \<open>Releasing\<close>

lemma msg_refs_mem: "x \<in> set ms \<Longrightarrow> m_data x \<noteq> nullptr \<Longrightarrow> m_data x \<in># msg_refs ms"
  by (simp add: msg_refs_def)

lemma queue_refs_mem:
  assumes "finite (dom Q)" and "Q m = Some q" and "x \<in> set (q_queue q)" and "m_data x \<noteq> nullptr"
  shows "m_data x \<in># queue_refs Q"
  using msg_refs_mem [OF assms(3,4)] queue_refs_remove [OF assms(1,2)]
  by (metis mset_subset_eqD mset_subset_eq_add_right)

text \<open>A released block is referred to by nothing that is left.\<close>

lemma world_inv_release:
  assumes inv: "world_inv owns w held lost S G" and held: "held = as @ msg # bs"
    and p: "m_data msg = p" "p \<noteq> nullptr"
    and d: "data_inv owns d' S' G'" "config d' = config (w_data w)"
    and S': "S' = S - {p}" "G' = G - {p}"
  shows "world_inv owns (w\<lparr>w_data := d'\<rparr>) (as @ bs) lost S' G'"
proof -
  note w = world_invD [OF inv]
  have fin: "finite (S \<union> G)" using data_inv_finite [OF w(1)] by simp
  define M where "M = queue_refs (w_queues w) + msg_refs (as @ bs) + mset lost"
  have eq: "add_mset p M = mset_set (S \<union> G)" using w(5) p by (simp add: held M_def ac_simps)
  then have "count (add_mset p M) p \<le> 1" by (simp add: count_mset_set')
  then have pM: "p \<notin># M" by (simp add: not_in_iff)
  have "p \<in> S \<union> G" using eq fin by (metis elem_mset_set union_single_eq_member)
  then have "mset_set (S \<union> G) = add_mset p (mset_set (S \<union> G - {p}))"
    using fin by (metis mset_set.remove)
  then have M: "M = mset_set (S' \<union> G')" using eq S' by (simp add: Un_Diff)
  have keep: "msg_ok d' S' G' x"
    if "msg_ok (w_data w) S G x" "m_data x \<noteq> nullptr \<Longrightarrow> m_data x \<in># M" for x
    using that pM S' msg_ok_config [OF d(2)] by (auto simp: msg_ok_def split: if_splits)
  have "list_all (msg_ok d' S' G') (q_queue q)" if "w_queues w m = Some q" for m q
    using w(3) [OF that] queue_refs_mem [OF w(2) that]
    by (auto simp: list_all_iff M_def intro!: keep)
  moreover have "list_all (msg_ok d' S' G') (as @ bs)"
    using w(4) msg_refs_mem [of _ "as @ bs"] by (auto simp: list_all_iff held M_def intro!: keep)
  ultimately show ?thesis using d(1) w(2) M by (simp add: world_inv_def M_def)
qed

context mailbox_lib begin

lemma ReleaseMessage_spec:
  assumes inv: "world_inv owns w held lost S G" and held: "held = as @ msg # bs"
  obtains d' S' G' where "Mailbox_ReleaseMessage lib msg w = w\<lparr>w_data := d'\<rparr>"
    "world_inv owns (w\<lparr>w_data := d'\<rparr>) (as @ bs) lost S' G'" "config d' = config (w_data w)"
    "md_locked d' = md_locked (w_data w)"
proof (cases "m_data msg = nullptr")
  case True
  have "world_inv owns (w\<lparr>w_data := w_data w\<rparr>) (as @ bs) lost S G"
    using inv True by (simp add: world_inv_def held)
  then show ?thesis using True by (intro that [of "w_data w" S G])
    (simp_all add: Mailbox_ReleaseMessage_def)
next
  case False
  note w = world_invD [OF inv]
  let ?p = "m_data msg"
  have mok: "msg_ok (w_data w) S G msg" using w(4) held by simp
  then have "?p \<in> S \<union> G" using False by (auto simp: msg_ok_def split: if_splits)
  with w(1) obtain rs where rs: "res_inv owns rs S G" "md_resources (w_data w) = Some rs"
      "md_initialized (w_data w)"
    by (auto simp: data_inv_def split: option.splits)
  have dis: "S \<inter> G = {}" using rs(1) by (simp add: res_inv_def)
  show ?thesis
  proof (cases "unat (m_size msg) \<le> unat (MailboxData_smallSize (w_data w))")
    case True
    then have p: "?p \<in> S" using mok False by (simp add: msg_ok_def)
    note f = free_small [OF rs p]
    have "G - {?p} = G" using p dis by auto
    then have "world_inv owns (w\<lparr>w_data := MailboxData_freeSmall lib ?p (w_data w)\<rparr>) (as @ bs) lost
        (S - {?p}) (G - {?p})"
      using f by (intro world_inv_release [OF inv held refl False]) auto
    then show ?thesis using f True False
      by (intro that [of "MailboxData_freeSmall lib ?p (w_data w)" "S - {?p}" "G - {?p}"])
        (simp_all add: Mailbox_ReleaseMessage_def)
  next
    case large: False
    then have p: "?p \<in> G" using mok False by (simp add: msg_ok_def)
    note f = free_large [OF rs p]
    have "S - {?p} = S" using p dis by auto
    then have "world_inv owns (w\<lparr>w_data := MailboxData_freeLarge lib ?p (w_data w)\<rparr>) (as @ bs) lost
        (S - {?p}) (G - {?p})"
      using f by (intro world_inv_release [OF inv held refl False]) auto
    then show ?thesis using f large False
      by (intro that [of "MailboxData_freeLarge lib ?p (w_data w)" "S - {?p}" "G - {?p}"])
        (simp_all add: Mailbox_ReleaseMessage_def)
  qed
qed

lemma exec_release:
  assumes inv: "sys_inv owns s lost S G" and ok: "call_ok (Call_Release i) s"
  shows "good_step owns lib (Call_Release i) s lost"
proof -
  note i = sys_invD [OF inv]
  define held where "held = take i (s_held s) @ drop (Suc i) (s_held s)"
  from ok have "s_held s = take i (s_held s) @ s_held s ! i # drop (Suc i) (s_held s)"
    by (simp add: id_take_nth_drop)
  from ReleaseMessage_spec [OF i(1) this] obtain d' S' G' where 1:
      "Mailbox_ReleaseMessage lib (s_held s ! i) (s_world s) = (s_world s)\<lparr>w_data := d'\<rparr>"
      "world_inv owns ((s_world s)\<lparr>w_data := d'\<rparr>) held lost S' G'"
      "config d' = config (w_data (s_world s))" "md_locked d' = md_locked (w_data (s_world s))"
    unfolding held_def by blast
  define s' where "s' = s\<lparr>s_world := (s_world s)\<lparr>w_data := d'\<rparr>, s_held := held\<rparr>"
  have run: "sys_exec lib (Call_Release i) s = Inr (True, s')"
    using ok 1(1) by (simp add: s'_def held_def)
  have "sys_inv owns s' lost S' G'"
    using i(2-4) 1 config_sizes [OF 1(3)] receivers_of_config [OF 1(3)]
    by (simp add: sys_inv_def s'_def)
  moreover have "abstract s' = (abstract s)\<lparr>a_held :=
      take i (a_held (abstract s)) @ drop (Suc i) (a_held (abstract s))\<rparr>"
    using receivers_of_config [OF 1(3)]
    by (simp add: abstract_def s'_def held_def take_map drop_map)
  then have "pubsub_step (abstract s) (Call_Release i) True (abstract s')"
    using ps_release [of i "abstract s"] ok by (simp add: abstract_def)
  ultimately show ?thesis using run
    by (intro good_step_keepI [of _ _ _ True s' owns lost S' G'])
qed

section \<open>All calls, and runs\<close>

lemma exec_good:
  assumes "sys_inv owns s lost S G" and "call_ok c s"
  shows "good_step owns lib c s lost"
proof (cases c)
  case (Call_New m n)
  with assms show ?thesis by (blast intro: exec_new)
next
  case (Call_Destroy m)
  with assms show ?thesis by (blast intro: exec_destroy)
next
  case (Call_Initialize a b d e)
  with assms show ?thesis by (blast intro: exec_initialize)
next
  case (Call_Register m l)
  with assms show ?thesis by (blast intro: exec_register)
next
  case (Call_Unregister m l)
  with assms show ?thesis by (blast intro: exec_unregister)
next
  case (Call_SendMessage l t)
  with assms show ?thesis by (blast intro: exec_send)
next
  case (Call_SendSignal l)
  with assms show ?thesis by (blast intro: exec_signal)
next
  case (Call_Receive m)
  with assms show ?thesis by (blast intro: exec_receive)
next
  case (Call_Release i)
  with assms show ?thesis by (blast intro: exec_release)
qed

lemma run_good:
  "sys_inv owns s lost S G \<Longrightarrow> calls_ok lib cs s \<Longrightarrow>
     \<exists>oks s' lost' S' G'. sys_run lib cs s = Inr (oks, s') \<and> sys_inv owns s' lost' S' G' \<and>
       pubsub_run (abstract s) cs oks (abstract s')"
proof (induction cs arbitrary: s lost S G)
  case Nil
  then show ?case by (auto intro: run_done)
next
  case (Cons c cs)
  then have "call_ok c s" by simp
  from exec_good [OF Cons.prems(1) this] obtain ok s1 lost1 S1 G1 where 1:
      "sys_exec lib c s = Inr (ok, s1)" "sys_inv owns s1 lost1 S1 G1"
      "pubsub_step (abstract s) c ok (abstract s1)"
    unfolding good_step_def by blast
  with Cons.prems(2) have "calls_ok lib cs s1" by simp
  from Cons.IH [OF 1(2) this] obtain oks s' lost' S' G' where
      "sys_run lib cs s1 = Inr (oks, s')" "sys_inv owns s' lost' S' G'"
      "pubsub_run (abstract s1) cs oks (abstract s')"
    by blast
  with 1 show ?case by (auto intro: run_call)
qed

end

text \<open>Runs in which every step keeps all blocks in sight.\<close>

fun calls_no_loss :: "'r lib \<Rightarrow> call list \<Rightarrow> 'r sys \<Rightarrow> bool" where
  "calls_no_loss lib [] s \<longleftrightarrow> True"
| "calls_no_loss lib (c # cs) s \<longleftrightarrow> no_loss c s \<and>
     (case sys_exec lib c s of Inl _ \<Rightarrow> True | Inr (_, s') \<Rightarrow> calls_no_loss lib cs s')"

context mailbox_lib begin

lemma run_no_loss:
  "sys_inv owns s lost S G \<Longrightarrow> calls_ok lib cs s \<Longrightarrow> calls_no_loss lib cs s \<Longrightarrow>
     \<exists>oks s' S' G'. sys_run lib cs s = Inr (oks, s') \<and> sys_inv owns s' lost S' G'"
proof (induction cs arbitrary: s S G)
  case (Cons c cs)
  then have "call_ok c s" by simp
  from exec_good [OF Cons.prems(1) this] obtain ok s1 lost1 S1 G1 where 1:
      "sys_exec lib c s = Inr (ok, s1)" "sys_inv owns s1 lost1 S1 G1" "no_loss c s \<longrightarrow> lost1 = lost"
    unfolding good_step_def by blast
  with Cons.prems have "calls_ok lib cs s1" "calls_no_loss lib cs s1" "sys_inv owns s1 lost S1 G1"
    by auto
  from Cons.IH [OF this(3,1,2)] obtain oks s' S' G' where
      "sys_run lib cs s1 = Inr (oks, s')" "sys_inv owns s' lost S' G'" by blast
  with 1(1) show ?case by auto
qed auto

end

section \<open>Reachable states\<close>

definition reachable_sys :: "'r lib \<Rightarrow> 'r sys \<Rightarrow> bool" where
  "reachable_sys lib s \<longleftrightarrow>
     (\<exists>mem cs oks. calls_ok lib cs (sys_new mem) \<and> sys_run lib cs (sys_new mem) = Inr (oks, s))"

lemma reachable_sysI:
  "calls_ok lib cs (sys_new mem) \<Longrightarrow> sys_run lib cs (sys_new mem) = Inr (oks, s) \<Longrightarrow>
     reachable_sys lib s"
  unfolding reachable_sys_def by blast

lemma reachable_sys_inv:
  assumes "mailbox_lib lib owns" and "reachable_sys lib s"
  obtains lost S G where "sys_inv owns s lost S G"
  using assms mailbox_lib.run_good [OF assms(1) sys_inv_new]
  unfolding reachable_sys_def by (metis Inr_inject prod.inject)

end
