(* ===== verification/MailboxProps.thy ===== *)
theory MailboxProps
  imports SystemSpec
begin

text \<open>
  The properties of the mailbox system, for every memory resource that meets the contract and
  every program that keeps to the discipline, with witnesses on the resources as the code wires
  them; and what happens outside the discipline.
\<close>

section \<open>Running concrete programs\<close>

lemmas mailbox_run_defs =
  Mailbox_Initialize_def Mailbox_Initialize_default_def on_data_def MailboxData_Initialize_def
  MailboxData_Initialize_default_def md_lock_def md_unlock_def Resources_new_def std_lib_def
  sys_new_def world_new_def MailboxData_new_def Mailbox_new_def Mailbox_destroy_def Queue_new_def
  Mailbox_RegisterForLabel_def MailboxData_RegisterForLabel_def Mailbox_UnregisterForLabel_def
  MailboxData_UnregisterForLabel_def ensure_initialized_def deref_resources_def
  Receivers_add_def Receivers_remove_def Receivers_new_def
  Mailbox_SendMessage_def Mailbox_SendSignal_def MailboxData_largeSize_def
  MailboxData_smallSize_def unlock_world_def MailboxData_GetReceivers_def send_one_def
  signal_one_def MailboxData_allocateSmall_def MailboxData_allocateLarge_def BytePool_alloc_def
  sync_pool_pmr_def sync_pool_new_def monotonic_pmr_def monotonic_new_def sync_pool_allocate_def
  monotonic_allocate_def align_up_def DataBlock_put_def Queue_emplace_def Mailbox_Receive_def
  Queue_pop_def BytePool_new_def Mailbox_ReleaseMessage_def MailboxData_freeSmall_def
  BytePool_free_def MailboxData_freeLarge_def Let_def

abbreviation demo_lib :: "monotonic sync_pool lib" where "demo_lib \<equiv> std_lib 4096"

lemma demo_lib_ok: "mailbox_lib demo_lib std_owns"
  by (rule std.mailbox_lib_axioms)

text \<open>
  A program: two blocks of 16 bytes and one of 64, mailbox 100 with room for two messages
  registered for label 7, one message in its queue.
\<close>

definition demo_calls :: "call list" where
  "demo_calls = [Call_Initialize 16 2 64 1, Call_New 100 2, Call_Register 100 7,
     Call_SendMessage 7 [1, 2, 3]]"

definition demo_sys :: "monotonic sync_pool sys" where
  "demo_sys = snd (projr (sys_run demo_lib demo_calls (sys_new (\<lambda>_. 0))))"

lemma demo_calls_ok: "calls_ok demo_lib demo_calls (sys_new (\<lambda>_. 0))"
  by (simp add: demo_calls_def mailbox_run_defs)

lemma demo_run: "sys_run demo_lib demo_calls (sys_new (\<lambda>_. 0)) = Inr ([True, True, True, True], demo_sys)"
  by (simp add: demo_sys_def demo_calls_def mailbox_run_defs)

lemma demo_reachable: "reachable_sys demo_lib demo_sys"
  by (rule reachable_sysI [OF demo_calls_ok demo_run])

lemma demo_facts:
  "md_initialized (w_data (s_world demo_sys))"
  "MailboxData_largeSize (w_data (s_world demo_sys)) = 64"
  "receivers_of (w_data (s_world demo_sys)) l = (if l = 7 then [Some 100, None, None] else [None, None, None])"
  "s_held demo_sys = []"
  "view (s_world demo_sys) 100 = Some [(7, Some [1, 2, 3])]"
  "caps (s_world demo_sys) m = (if m = 100 then Some 2 else None)"
  by (simp_all add: demo_sys_def demo_calls_def mailbox_run_defs receivers_of_def view_def caps_def
      view_msg_def bytes_at_def upt_rec)

section \<open>Refinement\<close>

text \<open>
  C1. Refinement: a program that keeps to the discipline never ends in a fault, and its calls with
  their results are a run of the abstract publish/subscribe machine, with the queues and the held
  messages seen as labels and bytes. So what a client reads of a message it received is what was
  sent, until it releases it, whatever other calls come in between.
\<close>
theorem mailbox_refines_pubsub:
  fixes lib :: "'r lib"
  assumes "mailbox_lib lib owns" and "calls_ok lib cs (sys_new mem)"
  shows "\<exists>oks s. sys_run lib cs (sys_new mem) = Inr (oks, s) \<and>
    pubsub_run (abstract (sys_new mem :: 'r sys)) cs oks (abstract s)"
  using mailbox_lib.run_good [OF assms(1) sys_inv_new assms(2)] by blast

theorem mailbox_refines_pubsub_witness:
  "\<exists>s. sys_run demo_lib demo_calls (sys_new (\<lambda>_. 0)) = Inr ([True, True, True, True], s) \<and>
     pubsub_run (abstract (sys_new (\<lambda>_. 0) :: monotonic sync_pool sys)) demo_calls
       [True, True, True, True] (abstract s)"
  using mailbox_refines_pubsub [OF demo_lib_ok demo_calls_ok] by (simp add: demo_run)

section \<open>Accounting\<close>

text \<open>Blocks the two pools can still hand out, and the blocks they have in all.\<close>

definition blocks_left :: "'r MailboxData \<Rightarrow> nat" where
  "blocks_left d =
     (case md_resources d of None \<Rightarrow> 0
      | Some rs \<Rightarrow> unat (bp_size (rs_smallPool rs)) + unat (bp_size (rs_largePool rs)))"

definition blocks_total :: "'r MailboxData \<Rightarrow> nat" where
  "blocks_total d =
     (case md_resources d of None \<Rightarrow> 0
      | Some rs \<Rightarrow> unat (bp_capacity (rs_smallPool rs)) + unat (bp_capacity (rs_largePool rs)))"

text \<open>The blocks that queued messages and held messages refer to.\<close>

definition blocks_in_use :: "'r sys \<Rightarrow> addr multiset" where
  "blocks_in_use s = queue_refs (w_queues (s_world s)) + msg_refs (s_held s)"

lemma data_inv_total:
  "data_inv owns d S G \<Longrightarrow> blocks_left d + card (S \<union> G) = blocks_total d"
  by (auto simp: data_inv_def res_inv_def pool_inv_def blocks_left_def blocks_total_def
      card_Un_disjoint split: option.splits)

lemma sys_inv_total:
  assumes "sys_inv owns s lost S G"
  shows "size (blocks_in_use s) + length lost + blocks_left (w_data (s_world s)) =
    blocks_total (w_data (s_world s)) \<and>
    blocks_in_use s + mset lost = mset_set (S \<union> G)"
proof -
  note w = world_invD [OF sys_invD(1) [OF assms]]
  have "size (blocks_in_use s) + length lost = card (S \<union> G)"
    using arg_cong [OF w(5), of size] by (simp add: blocks_in_use_def)
  then show ?thesis using data_inv_total [OF w(1)] w(5) by (simp add: blocks_in_use_def)
qed

lemma blocks_total_config: "config d' = config d \<Longrightarrow> blocks_total d' = blocks_total d"
  by (cases "md_resources d"; cases "md_resources d'") (auto simp: config_def blocks_total_def)

text \<open>
  C8. Conservation: in every reachable state the messages in queues and with clients and the
  blocks left in the pools are at most the blocks the pools were built with, and no block is
  referred to by two messages (no double use, no double release).
\<close>
theorem blocks_accounted:
  assumes "mailbox_lib lib owns" and "reachable_sys lib s"
  shows "size (blocks_in_use s) + blocks_left (w_data (s_world s)) \<le>
      blocks_total (w_data (s_world s)) \<and>
    (\<forall>p. count (blocks_in_use s) p \<le> 1)"
proof -
  obtain lost S G where "sys_inv owns s lost S G" by (rule reachable_sys_inv [OF assms])
  note t = sys_inv_total [OF this]
  have "count (blocks_in_use s) p \<le> 1" for p
  proof -
    have "count (blocks_in_use s) p \<le> count (blocks_in_use s + mset lost) p" by simp
    also have "\<dots> \<le> 1" using t by (simp add: count_mset_set')
    finally show ?thesis .
  qed
  then show ?thesis using t by auto
qed

theorem blocks_accounted_witness:
  "size (blocks_in_use demo_sys) + blocks_left (w_data (s_world demo_sys)) \<le>
     blocks_total (w_data (s_world demo_sys))"
  using blocks_accounted [OF demo_lib_ok demo_reachable] by blast

text \<open>
  C7. No leak: a program none of whose messages meets a full queue, and that destroys no mailbox
  with unread messages, accounts for every block: in use or left in the pools.
\<close>
theorem no_overflow_no_leak:
  assumes "mailbox_lib lib owns" and "calls_ok lib cs (sys_new mem)"
    and "calls_no_loss lib cs (sys_new mem)"
  shows "\<exists>oks s. sys_run lib cs (sys_new mem) = Inr (oks, s) \<and>
    size (blocks_in_use s) + blocks_left (w_data (s_world s)) = blocks_total (w_data (s_world s))"
  using mailbox_lib.run_no_loss [OF assms(1) sys_inv_new assms(2,3)] sys_inv_total by fastforce

lemma demo_no_loss: "calls_no_loss demo_lib demo_calls (sys_new (\<lambda>_. 0))"
  by (simp add: demo_calls_def mailbox_run_defs room_def view_def caps_def receivers_of_def)

theorem no_overflow_no_leak_witness:
  "size (blocks_in_use demo_sys) + blocks_left (w_data (s_world demo_sys)) =
     blocks_total (w_data (s_world demo_sys))"
  using no_overflow_no_leak [OF demo_lib_ok demo_calls_ok demo_no_loss] by (simp add: demo_run)

section \<open>Sending\<close>

lemma reachable_send:
  assumes lib: "mailbox_lib lib owns" and s: "reachable_sys lib s"
    and init: "md_initialized (w_data (s_world s))"
    and size: "length t \<le> unat (MailboxData_largeSize (w_data (s_world s)))"
  obtains D w' where
    "Mailbox_SendMessage lib l t (s_world s) =
       Inr (D = targets (receivers_of (w_data (s_world s)) l), w')"
    "subseq D (targets (receivers_of (w_data (s_world s)) l))"
    "view w' = deliver D (l, Some t) (view (s_world s))" "caps w' = caps (s_world s)"
    "\<forall>msg \<in> set (s_held s). view_msg (w_mem w') msg = view_msg (w_mem (s_world s)) msg"
    "room (s_world s) (targets (receivers_of (w_data (s_world s)) l)) \<longrightarrow>
     stock lib (w_data (s_world s))
       (unat (MailboxData_smallSize (w_data (s_world s))) < length t)
       (length (targets (receivers_of (w_data (s_world s)) l))) \<longrightarrow>
     D = targets (receivers_of (w_data (s_world s)) l)"
proof -
  obtain lost S G where inv: "sys_inv owns s lost S G" by (rule reachable_sys_inv [OF lib s])
  note i = sys_invD [OF inv] and w = world_invD [OF sys_invD(1) [OF inv]]
  from init w(1) obtain rs where rs: "md_resources (w_data (s_world s)) = Some rs"
    by (auto simp: data_inv_def)
  have R: "receivers_of (w_data (s_world s)) l = m_receivers (rs_mailboxes rs l)"
    "MailboxData_smallSize (w_data (s_world s)) = rs_smallSize rs"
    by (simp_all add: receivers_of_def MailboxData_smallSize_def rs)
  have pre: "\<forall>m. Some m \<in> set (m_receivers (rs_mailboxes rs l)) \<longrightarrow> w_queues (s_world s) m \<noteq> None"
      "length t < 65536" "length t \<le> unat (rs_largeSize rs)"
    using i(3) [of _ l] i(4) R size by (simp_all add: MailboxData_largeSize_def rs)
  show thesis
    using mailbox_lib.SendMessage_spec [OF lib i(1) rs i(2) pre] w(4) that
    unfolding R by (fastforce simp: list_all_iff)
qed

text \<open>
  C9. What \<^verbatim>\<open>SendMessage\<close> returns: true exactly if every registered slot of the label got its own
  copy, in slot order; whatever it returns, the slots that got a copy have exactly that message
  appended, no other queue changes, and no message a client holds changes.
\<close>
theorem send_message_result:
  assumes "mailbox_lib lib owns" and "reachable_sys lib s"
    and "md_initialized (w_data (s_world s))"
    and "length t \<le> unat (MailboxData_largeSize (w_data (s_world s)))"
  shows "\<exists>D w'. Mailbox_SendMessage lib l t (s_world s) =
      Inr (D = targets (receivers_of (w_data (s_world s)) l), w') \<and>
    subseq D (targets (receivers_of (w_data (s_world s)) l)) \<and>
    view w' = deliver D (l, Some t) (view (s_world s)) \<and>
    (\<forall>msg \<in> set (s_held s). view_msg (w_mem w') msg = view_msg (w_mem (s_world s)) msg)"
  by (rule reachable_send [OF assms, of l]) blast

theorem send_message_result_witness:
  "\<exists>D w'. Mailbox_SendMessage demo_lib 7 [9] (s_world demo_sys) = Inr (D = [100], w') \<and> subseq D [100] \<and>
     view w' = deliver D (7, Some [9]) (view (s_world demo_sys))"
  using send_message_result [OF demo_lib_ok demo_reachable demo_facts(1), of "[9]" 7]
  by (auto simp: demo_facts)

text \<open>
  C10. Delivery: if every target has room and the pool of the message's class can hand out a block
  per target, \<^verbatim>\<open>SendMessage\<close> returns true and every target has its copy.
\<close>
theorem send_message_delivers:
  assumes "mailbox_lib lib owns" and "reachable_sys lib s"
    and "md_initialized (w_data (s_world s))"
    and "length t \<le> unat (MailboxData_largeSize (w_data (s_world s)))"
    and "room (s_world s) (targets (receivers_of (w_data (s_world s)) l))"
    and "stock lib (w_data (s_world s))
      (unat (MailboxData_smallSize (w_data (s_world s))) < length t)
      (length (targets (receivers_of (w_data (s_world s)) l)))"
  shows "\<exists>w'. Mailbox_SendMessage lib l t (s_world s) = Inr (True, w') \<and>
    view w' = deliver (targets (receivers_of (w_data (s_world s)) l)) (l, Some t) (view (s_world s))"
  by (rule reachable_send [OF assms(1-4), of l]) (use assms(5,6) in auto)

theorem send_message_delivers_witness:
  "\<exists>w'. Mailbox_SendMessage demo_lib 7 [9, 9] (s_world demo_sys) = Inr (True, w') \<and>
     view w' = deliver [100] (7, Some [9, 9]) (view (s_world demo_sys))"
proof -
  have "room (s_world demo_sys) [100]" by (auto simp: room_def demo_facts split: if_splits)
  moreover have "stock demo_lib (w_data (s_world demo_sys))
      (unat (MailboxData_smallSize (w_data (s_world demo_sys))) < length [9 :: byte, 9]) (length [100 :: mbox])"
    by (simp add: demo_sys_def demo_calls_def mailbox_run_defs stock_def pool_stock_def)
  ultimately show ?thesis
    using send_message_delivers [OF demo_lib_ok demo_reachable demo_facts(1), of "[9, 9]" 7]
    by (simp add: demo_facts)
qed

text \<open>
  C11. End to end: after a \<^verbatim>\<open>SendMessage\<close> that returned true, the last message in each target's queue
  is one that \<^verbatim>\<open>as<T>()\<close> accepts for a type of the sent object's size (and for no other size),
  and the bytes behind the pointer are the object's.
\<close>
theorem sent_message_reads_back:
  assumes "mailbox_lib lib owns" and "reachable_sys lib s"
    and "md_initialized (w_data (s_world s))"
    and "length t \<le> unat (MailboxData_largeSize (w_data (s_world s)))"
    and "Mailbox_SendMessage lib l t (s_world s) = Inr (True, w')"
    and "Some m \<in> set (receivers_of (w_data (s_world s)) l)"
  shows "\<exists>q msg. w_queues w' m = Some q \<and> q_queue q \<noteq> [] \<and> msg = last (q_queue q) \<and>
    m_label msg = l \<and>
    Message_as \<lparr>size_of = length t, trivially_copyable = True\<rparr> msg = m_data msg \<and>
    m_data msg \<noteq> nullptr \<and> bytes_at (w_mem w') (m_data msg) (length t) = t \<and>
    (\<forall>n. n \<noteq> length t \<longrightarrow> Message_as \<lparr>size_of = n, trivially_copyable = True\<rparr> msg = nullptr)"
proof -
  obtain lost S G where inv: "sys_inv owns s lost S G" by (rule reachable_sys_inv [OF assms(1,2)])
  have "view w' = deliver (targets (receivers_of (w_data (s_world s)) l)) (l, Some t)
      (view (s_world s))"
    by (rule reachable_send [OF assms(1-4), of l]) (use assms(5) in auto)
  moreover obtain v where v: "view (s_world s) m = Some v"
    using sys_invD(3) [OF inv assms(6)] by (auto simp: view_def)
  moreover obtain k where "count_list (targets (receivers_of (w_data (s_world s)) l)) m = Suc k"
    using assms(6) set_targets by (metis count_list_0_iff not0_implies_Suc)
  ultimately have "view w' m = Some (v @ replicate k (l, Some t) @ [(l, Some t)])"
    by (simp add: deliver_def replicate_append_same [symmetric] del: replicate_Suc)
      (simp add: replicate_append_same)
  then obtain q where q: "w_queues w' m = Some q"
      "map (view_msg (w_mem w')) (q_queue q) = (v @ replicate k (l, Some t)) @ [(l, Some t)]"
    by (auto simp: view_def)
  then have ne: "q_queue q \<noteq> []" by auto
  then have "view_msg (w_mem w') (last (q_queue q)) = (l, Some t)"
    using q(2) by (metis last_map last_snoc)
  then have msg: "m_label (last (q_queue q)) = l" "m_data (last (q_queue q)) \<noteq> nullptr"
      "bytes_at (w_mem w') (m_data (last (q_queue q))) (unat (m_size (last (q_queue q)))) = t"
    by (auto simp: view_msg_def split: if_splits)
  then have "unat (m_size (last (q_queue q))) = length t" by (metis length_bytes_at)
  with msg q(1) ne show ?thesis by (auto simp: Message_as_def)
qed

lemma length_two: "length [x, y] = 2"
  by simp

theorem sent_message_reads_back_witness:
  "\<exists>w' q. Mailbox_SendMessage demo_lib 7 [9, 9] (s_world demo_sys) = Inr (True, w') \<and>
     w_queues w' 100 = Some q \<and> bytes_at (w_mem w') (m_data (last (q_queue q))) 2 = [9, 9]"
proof -
  define r where "r = snd (projr (Mailbox_SendMessage demo_lib 7 [9, 9] (s_world demo_sys)))"
  have run: "Mailbox_SendMessage demo_lib 7 [9, 9] (s_world demo_sys) = Inr (True, r)"
    by (simp add: r_def demo_sys_def demo_calls_def mailbox_run_defs)
  have size: "length [9 :: byte, 9] \<le> unat (MailboxData_largeSize (w_data (s_world demo_sys)))"
    by (simp add: demo_facts)
  have to: "Some (100 :: mbox) \<in> set (receivers_of (w_data (s_world demo_sys)) 7)"
    by (simp add: demo_facts)
  from sent_message_reads_back [OF demo_lib_ok demo_reachable demo_facts(1) size run to] run
  show ?thesis by (metis length_two)
qed

text \<open>
  C12. Signals: \<^verbatim>\<open>SendSignal\<close> always returns true and uses no block; each target in turn gets the
  signal if its queue has room and is passed over, without a trace in the result, if it has not.
\<close>
theorem send_signal_result:
  assumes "mailbox_lib lib owns" and "reachable_sys lib s"
    and "md_initialized (w_data (s_world s))"
  shows "\<exists>w'. Mailbox_SendSignal l (s_world s) = Inr (True, w') \<and>
    w_data w' = w_data (s_world s) \<and> w_mem w' = w_mem (s_world s) \<and>
    view w' = offer (caps (s_world s)) (targets (receivers_of (w_data (s_world s)) l)) (l, None)
      (view (s_world s))"
proof -
  obtain lost S G where inv: "sys_inv owns s lost S G" by (rule reachable_sys_inv [OF assms(1,2)])
  note i = sys_invD [OF inv]
  obtain rs where rs: "md_resources (w_data (s_world s)) = Some rs"
    using assms(3) world_invD(1) [OF i(1)] by (auto simp: data_inv_def)
  have R: "receivers_of (w_data (s_world s)) l = m_receivers (rs_mailboxes rs l)"
    by (simp add: receivers_of_def rs)
  have "\<forall>m. Some m \<in> set (m_receivers (rs_mailboxes rs l)) \<longrightarrow> w_queues (s_world s) m \<noteq> None"
    using i(3) [of _ l] R by simp
  from SendSignal_spec [OF i(1) rs i(2) this] show ?thesis unfolding R by blast
qed

theorem send_signal_result_witness:
  "\<exists>w'. Mailbox_SendSignal 7 (s_world demo_sys) = Inr (True, w') \<and>
     view w' 100 = Some [(7, Some [1, 2, 3]), (7, None)]"
  using send_signal_result [OF demo_lib_ok demo_reachable demo_facts(1), of 7]
  by (auto simp: demo_facts)

section \<open>The leak on a full queue\<close>

lemma full_send:
  assumes lib: "mailbox_lib lib owns" and inv: "sys_inv owns s lost S G"
    and R: "receivers_of (w_data (s_world s)) l = [Some m, None, None]"
    and q: "w_queues (s_world s) m = Some q" "\<not> length (q_queue q) < q_bound q"
    and size: "length t \<le> unat (MailboxData_largeSize (w_data (s_world s)))"
    and st: "stock lib (w_data (s_world s))
      (unat (MailboxData_smallSize (w_data (s_world s))) < length t) (Suc k)"
  obtains d' mem' where
    "Mailbox_SendMessage lib l t (s_world s) = Inr (False, (s_world s)\<lparr>w_data := d', w_mem := mem'\<rparr>)"
    "Suc (blocks_left d') = blocks_left (w_data (s_world s))" "config d' = config (w_data (s_world s))"
    "stock lib d' (unat (MailboxData_smallSize (w_data (s_world s))) < length t) k"
proof -
  note i = sys_invD [OF inv] and w = world_invD [OF sys_invD(1) [OF inv]]
  let ?d = "w_data (s_world s)"
  define isL where "isL \<longleftrightarrow> unat (MailboxData_smallSize ?d) < length t"
  define d0 where "d0 = ?d\<lparr>md_locked := True\<rparr>"
  obtain rs where rs: "md_resources ?d = Some rs"
    using st by (auto simp: stock_def split: option.splits)
  have d0: "data_inv owns d0 S G" "md_resources d0 = Some rs" "stock lib d0 isL (Suc k)"
    using w(1) rs st by (simp_all add: d0_def isL_def)
  obtain d' p S' G' where 2:
      "(if isL then MailboxData_allocateLarge lib d0 else MailboxData_allocateSmall lib d0) =
         Inr (DataBlock_new (if isL then rs_largeSize rs else rs_smallSize rs) p, d')"
      "config d' = config d0" "md_locked d' = md_locked d0" "data_inv owns d' S' G'"
      "p \<noteq> nullptr" "p \<notin> S \<union> G" "S' \<union> G' = insert p (S \<union> G)" "stock lib d' isL k"
  proof (rule mailbox_lib.allocate_block [OF lib d0(1,2), of isL], goal_cases)
    case (1 d')
    then show ?case using d0(3) by blast
  next
    case (2 d' p S' G')
    show ?case by (rule that) (use 2 d0(3) in blast)+
  qed
  have fits: "length t \<le> unat (if isL then rs_largeSize rs else rs_smallSize rs)"
    using size by (auto simp: isL_def MailboxData_smallSize_def MailboxData_largeSize_def rs)
  define w0 where "w0 = (s_world s)\<lparr>w_data := d0\<rparr>"
  have one: "send_one lib isL l t (Some m) (True, w0) =
      Inr (False, w0\<lparr>w_data := d', w_mem := memcpy (w_mem w0) p t,
        w_queues := (w_queues w0)(m \<mapsto> q)\<rparr>)"
  proof -
    have al: "(if isL then MailboxData_allocateLarge lib (w_data w0)
        else MailboxData_allocateSmall lib (w_data w0)) =
        Inr (DataBlock_new (if isL then rs_largeSize rs else rs_smallSize rs) p, d')"
      using 2(1) by (cases isL) (simp_all add: w0_def)
    have "w_queues w0 m = Some q" using q(1) by (simp add: w0_def)
    from mailbox_lib.send_one_run [OF lib al 2(5) fits this, of l True] q(2)
    show ?thesis by (simp add: Queue_push_def del: fun_upd_apply)
  qed
  have none: "send_one lib isL l t None x = Inr x" for x by (simp add: send_one_def)
  have qs: "(w_queues w0)(m \<mapsto> q) = w_queues (s_world s)"
    using q(1) by (simp add: w0_def fun_upd_idem)
  have loop: "send_loop lib isL l t [Some m, None, None] (True, w0) =
      Inr (False, (s_world s)\<lparr>w_data := d', w_mem := memcpy (w_mem (s_world s)) p t\<rparr>)"
    by (simp add: one none qs del: fun_upd_apply) (simp add: w0_def)
  have run: "Mailbox_SendMessage lib l t (s_world s) =
      Inr (False, (s_world s)\<lparr>w_data := md_unlock d', w_mem := memcpy (w_mem (s_world s)) p t\<rparr>)"
    using i(2) size loop [unfolded isL_def w0_def d0_def] R rs
    by (simp add: Mailbox_SendMessage_def md_lock_def receivers_of_def MailboxData_GetReceivers_def
        deref_resources_def unlock_world_def MailboxData_smallSize_def MailboxData_largeSize_def
        not_less)
  have "config d' = config ?d" using 2(2) by (simp add: d0_def)
  moreover from data_inv_total [OF 2(4)] data_inv_total [OF w(1)] blocks_total_config [OF this]
  have "Suc (blocks_left d') = blocks_left ?d"
    using 2(6,7) data_inv_finite [OF w(1)] by simp
  ultimately show thesis using run 2(8)
    by (intro that [where d' = "md_unlock d'"]) (simp_all add: md_unlock_def isL_def blocks_left_def)
qed

text \<open>
  C13. Messages to a mailbox whose queue is full leak: \<open>k\<close> sends to it all return false, deliver
  nothing, and take \<open>k\<close> blocks out of the pools for good (no queue and no client refers to them).
\<close>
theorem full_queue_leaks_blocks:
  assumes "mailbox_lib lib owns" and "reachable_sys lib s"
    and "receivers_of (w_data (s_world s)) l = [Some m, None, None]"
    and "w_queues (s_world s) m = Some q" and "\<not> length (q_queue q) < q_bound q"
    and "t \<noteq> []" and "length t \<le> unat (MailboxData_largeSize (w_data (s_world s)))"
    and "stock lib (w_data (s_world s))
      (unat (MailboxData_smallSize (w_data (s_world s))) < length t) k"
  shows "\<exists>s'. sys_run lib (replicate k (Call_SendMessage l t)) s = Inr (replicate k False, s') \<and>
    w_queues (s_world s') = w_queues (s_world s) \<and> s_held s' = s_held s \<and>
    blocks_in_use s' = blocks_in_use s \<and>
    blocks_left (w_data (s_world s')) + k = blocks_left (w_data (s_world s))"
proof -
  obtain lost S G where "sys_inv owns s lost S G" by (rule reachable_sys_inv [OF assms(1,2)])
  then show ?thesis using assms(3-8)
  proof (induction k arbitrary: s lost S G)
    case 0
    then show ?case by simp
  next
    case (Suc k)
    from full_send [OF assms(1) Suc.prems(1-4,6,7)] obtain d' mem' where 1:
        "Mailbox_SendMessage lib l t (s_world s) =
           Inr (False, (s_world s)\<lparr>w_data := d', w_mem := mem'\<rparr>)"
        "Suc (blocks_left d') = blocks_left (w_data (s_world s))"
        "config d' = config (w_data (s_world s))"
        "stock lib d' (unat (MailboxData_smallSize (w_data (s_world s))) < length t) k"
      by blast
    define s1 where "s1 = s\<lparr>s_world := (s_world s)\<lparr>w_data := d', w_mem := mem'\<rparr>\<rparr>"
    have ex: "sys_exec lib (Call_SendMessage l t) s = Inr (False, s1)"
      using 1(1) by (simp add: s1_def)
    obtain lost1 S1 G1 where inv1: "sys_inv owns s1 lost1 S1 G1"
      using mailbox_lib.exec_good [OF assms(1) Suc.prems(1), of "Call_SendMessage l t"]
        Suc.prems(5) ex unfolding good_step_def by auto
    have "\<exists>s'. sys_run lib (replicate k (Call_SendMessage l t)) s1 = Inr (replicate k False, s') \<and>
        w_queues (s_world s') = w_queues (s_world s1) \<and> s_held s' = s_held s1 \<and>
        blocks_in_use s' = blocks_in_use s1 \<and>
        blocks_left (w_data (s_world s')) + k = blocks_left (w_data (s_world s1))"
      using Suc.prems 1(4) config_sizes [OF 1(3)] receivers_of_config [OF 1(3)]
      by (intro Suc.IH [OF inv1]) (simp_all add: s1_def)
    then show ?case using ex 1(2) by (auto simp: s1_def blocks_in_use_def)
  qed
qed

definition full_calls :: "call list" where
  "full_calls = [Call_Initialize 16 3 64 1, Call_New 100 1, Call_Register 100 7,
     Call_SendMessage 7 [1, 2, 3]]"

definition full_sys :: "monotonic sync_pool sys" where
  "full_sys = snd (projr (sys_run demo_lib full_calls (sys_new (\<lambda>_. 0))))"

lemma serves_two:
  "serves mr n 2 r =
    (case do_allocate mr r n 1 of
       (None, _) \<Rightarrow> False
     | (Some _, r) \<Rightarrow> (case do_allocate mr r n 1 of (None, _) \<Rightarrow> False | (Some _, _) \<Rightarrow> True))"
  by (simp add: numeral_2_eq_2 split: prod.splits option.splits)

lemma full_reachable: "reachable_sys demo_lib full_sys"
proof (rule reachable_sysI)
  show "calls_ok demo_lib full_calls (sys_new (\<lambda>_. 0))"
    by (simp add: full_calls_def mailbox_run_defs)
  show "sys_run demo_lib full_calls (sys_new (\<lambda>_. 0)) = Inr ([True, True, True, True], full_sys)"
    by (simp add: full_sys_def full_calls_def mailbox_run_defs)
qed

theorem full_queue_leaks_blocks_witness:
  "\<exists>s'. sys_run demo_lib (replicate 2 (Call_SendMessage 7 [5])) full_sys =
       Inr (replicate 2 False, s') \<and>
     blocks_left (w_data (s_world full_sys)) = 3 \<and> blocks_left (w_data (s_world s')) = 1 \<and>
     blocks_in_use s' = blocks_in_use full_sys"
proof -
  obtain q where q: "w_queues (s_world full_sys) 100 = Some q" "\<not> length (q_queue q) < q_bound q"
    by (simp add: full_sys_def full_calls_def mailbox_run_defs)
  have R: "receivers_of (w_data (s_world full_sys)) 7 = [Some 100, None, None]"
    "length [5 :: byte] \<le> unat (MailboxData_largeSize (w_data (s_world full_sys)))"
    by (simp_all add: full_sys_def full_calls_def mailbox_run_defs receivers_of_def)
  have st: "stock demo_lib (w_data (s_world full_sys))
      (unat (MailboxData_smallSize (w_data (s_world full_sys))) < length [5 :: byte]) 2"
    by (simp add: full_sys_def full_calls_def mailbox_run_defs stock_def pool_stock_def
        serves_two)
  have "blocks_left (w_data (s_world full_sys)) = 3"
    by (simp add: full_sys_def full_calls_def mailbox_run_defs blocks_left_def)
  moreover have "[5 :: byte] \<noteq> []" by simp
  ultimately show ?thesis
    using full_queue_leaks_blocks [OF demo_lib_ok full_reachable R(1) q _ R(2) st] by fastforce
qed

end
