(* ===== verification/MailboxMisuse.thy ===== *)
theory MailboxMisuse
  imports MailboxProps
begin

text \<open>
  What happens outside the discipline of theory MailboxSystem: calls before \<^verbatim>\<open>Initialize\<close>, a second
  \<^verbatim>\<open>Initialize\<close>, a mailbox destroyed while it is registered, a mailbox registered twice, and objects
  whose size does not fit the 16 bits of \<^verbatim>\<open>m_size\<close>.
\<close>

section \<open>Before Initialize\<close>

fun needs_resources :: "call \<Rightarrow> bool" where
  "needs_resources (Call_Register m l) \<longleftrightarrow> True"
| "needs_resources (Call_Unregister m l) \<longleftrightarrow> True"
| "needs_resources (Call_SendSignal l) \<longleftrightarrow> True"
| "needs_resources (Call_SendMessage l t) \<longleftrightarrow> t = []"
| "needs_resources _ \<longleftrightarrow> False"

fun is_initialize :: "call \<Rightarrow> bool" where
  "is_initialize (Call_Initialize a b c d) \<longleftrightarrow> True"
| "is_initialize _ \<longleftrightarrow> False"

text \<open>The fault in which a call made too early ends.\<close>

fun early_fault :: "call \<Rightarrow> fault" where
  "early_fault (Call_Register m l) = Self_Deadlock"
| "early_fault (Call_Unregister m l) = Self_Deadlock"
| "early_fault (Call_Receive m) = Dangling_Mailbox"
| "early_fault _ = Null_Deref"

definition pristine :: "'r sys \<Rightarrow> bool" where
  "pristine s \<longleftrightarrow> w_data (s_world s) = MailboxData_new \<and> s_held s = [] \<and>
     (\<forall>m q. w_queues (s_world s) m = Some q \<longrightarrow> q_queue q = [])"

lemma MailboxData_new_simps [simp]:
  "md_lock MailboxData_new = Inr (MailboxData_new\<lparr>md_locked := True\<rparr>)"
  "md_initialized MailboxData_new = False" "md_resources MailboxData_new = None"
  "md_locked MailboxData_new = False"
  "md_unlock (MailboxData_new\<lparr>md_locked := True\<rparr>) = MailboxData_new"
  by (simp_all add: md_lock_def MailboxData_new_def md_unlock_def)

lemma pristine_faults:
  assumes "pristine s"
  shows "sys_exec lib (Call_Register m l) s = Inl Self_Deadlock"
    "sys_exec lib (Call_Unregister m l) s = Inl Self_Deadlock"
    "sys_exec lib (Call_SendSignal l) s = Inl Null_Deref"
    "sys_exec lib (Call_SendMessage l []) s = Inl Null_Deref"
  using assms
  by (simp_all add: pristine_def Mailbox_RegisterForLabel_def Mailbox_UnregisterForLabel_def
      on_data_def MailboxData_RegisterForLabel_def MailboxData_UnregisterForLabel_def
      ensure_initialized_def MailboxData_Initialize_default_def md_lock_def [of "_\<lparr>md_locked := _\<rparr>"]
      Mailbox_SendSignal_def MailboxData_GetReceivers_def deref_resources_def
      Mailbox_SendMessage_def MailboxData_largeSize_def Let_def)

lemma pristine_exec:
  assumes "pristine s" and "\<not> is_initialize c"
  shows "if needs_resources c then sys_exec lib c s = Inl (early_fault c)
    else (sys_exec lib c s = Inl (early_fault c) \<and> (\<exists>m. c = Call_Receive m \<and> w_queues (s_world s) m = None)) \<or>
      (\<exists>ok s'. sys_exec lib c s = Inr (ok, s') \<and> pristine s' \<and>
        (\<forall>l t. c = Call_SendMessage l t \<longrightarrow> \<not> ok \<and> s' = s))"
proof (cases c)
  case (Call_SendMessage l t)
  show ?thesis
  proof (cases t)
    case Nil
    then show ?thesis using pristine_faults [OF assms(1)] Call_SendMessage by simp
  next
    case (Cons x xs)
    with assms Call_SendMessage have "sys_exec lib c s = Inr (False, s)"
      by (simp add: pristine_def Mailbox_SendMessage_def MailboxData_largeSize_def unlock_world_def
          Let_def)
    then show ?thesis using assms(1) Call_SendMessage Cons by auto
  qed
next
  case (Call_Receive m)
  with assms show ?thesis
    by (cases "w_queues (s_world s) m") (auto simp: Mailbox_Receive_def pristine_def Queue_pop_def)
qed (use assms pristine_faults [OF assms(1)] in \<open>auto simp: pristine_def Mailbox_new_def
      Mailbox_destroy_def Queue_new_def split: if_splits\<close>)

lemma pristine_returns:
  assumes "pristine s0" and "list_all (\<lambda>c. \<not> is_initialize c) cs" and "sys_run lib cs s0 = Inr (oks, s)"
  shows "list_all (\<lambda>c. \<not> needs_resources c) cs \<and> pristine s \<and>
    (\<forall>i < length cs. \<forall>l t. cs ! i = Call_SendMessage l t \<longrightarrow> \<not> oks ! i)"
  using assms
proof (induction cs arbitrary: s0 oks)
  case (Cons c cs)
  from Cons.prems(3) obtain ok s1 oks' where 1: "sys_exec lib c s0 = Inr (ok, s1)"
      "sys_run lib cs s1 = Inr (oks', s)" "oks = ok # oks'"
    by (auto simp: and_then_eq_Inr)
  from pristine_exec [OF Cons.prems(1), of c lib] Cons.prems(2) 1(1)
  have 2: "\<not> needs_resources c" "pristine s1" "\<forall>l t. c = Call_SendMessage l t \<longrightarrow> \<not> ok"
    by (auto split: if_splits)
  have 3: "list_all (\<lambda>c. \<not> needs_resources c) cs" "pristine s"
      "\<And>i l t. i < length cs \<Longrightarrow> cs ! i = Call_SendMessage l t \<Longrightarrow> \<not> oks' ! i"
    using Cons.IH [OF 2(2) _ 1(2)] Cons.prems(2) by auto
  have "\<not> oks ! i" if "i < length (c # cs)" "(c # cs) ! i = Call_SendMessage l t" for i l t
    using that 2(3) 3(3) 1(3) by (cases i) auto
  then show ?case using 2(1) 3(1,2) by simp
qed simp

lemma pristine_ends:
  assumes "pristine s0" and "list_all (\<lambda>c. \<not> is_initialize c) cs" and "sys_run lib cs s0 = Inl e"
  shows "\<exists>before c rest oks s. cs = before @ c # rest \<and> sys_run lib before s0 = Inr (oks, s) \<and>
    list_all (\<lambda>c. \<not> needs_resources c) before \<and> e = early_fault c \<and>
    (needs_resources c \<or> (\<exists>m. c = Call_Receive m \<and> w_queues (s_world s) m = None))"
  using assms
proof (induction cs arbitrary: s0)
  case (Cons c cs)
  show ?case
  proof (cases "sys_exec lib c s0")
    case (Inl e')
    with pristine_exec [OF Cons.prems(1), of c lib] Cons.prems(2,3)
    have "e = early_fault c"
        "needs_resources c \<or> (\<exists>m. c = Call_Receive m \<and> w_queues (s_world s0) m = None)"
      by (auto split: if_splits)
    then show ?thesis
      by (intro exI [of _ "[]"] exI [of _ c] exI [of _ cs] exI [of _ s0]) simp
  next
    case (Inr x)
    obtain ok s1 where x: "x = (ok, s1)" by (cases x)
    with pristine_exec [OF Cons.prems(1), of c lib] Cons.prems(2) Inr
    have 2: "\<not> needs_resources c" "pristine s1" by (auto split: if_splits)
    have "sys_run lib cs s1 = Inl e" using Cons.prems(3) Inr x by (auto simp: and_then_eq_Inl)
    with Cons.IH [OF 2(2)] Cons.prems(2) obtain before d rest oks s where b: "cs = before @ d # rest"
        "sys_run lib before s1 = Inr (oks, s)" "list_all (\<lambda>c. \<not> needs_resources c) before"
        "e = early_fault d"
        "needs_resources d \<or> (\<exists>m. d = Call_Receive m \<and> w_queues (s_world s) m = None)"
      by auto
    have "sys_run lib (c # before) s0 = Inr (ok # oks, s)" using Inr x b(2) by simp
    with b 2(1) show ?thesis
      by (intro exI [of _ "c # before"] exI [of _ d] exI [of _ rest] exI [of _ "ok # oks"] exI [of _ s]) simp
  qed
qed simp

text \<open>
  C22. Before \<^verbatim>\<open>Initialize\<close>: a program without that call either comes to its end, and then it has made
  no registration and sent no signal, every message it sent was refused and it has received nothing;
  or it ends at its first call that needs the resources, in the fault of that call:
  \<^verbatim>\<open>RegisterForLabel\<close> and \<^verbatim>\<open>UnregisterForLabel\<close> lock the mutex they hold, \<^verbatim>\<open>SendSignal\<close> (and
  \<^verbatim>\<open>SendMessage\<close> of an object of no bytes) dereferences the null \<^verbatim>\<open>m_resources\<close>; or, before that, at
  a \<^verbatim>\<open>Receive\<close> of a mailbox that does not exist.
\<close>
theorem run_without_initialize:
  fixes lib :: "'r lib"
  assumes "list_all (\<lambda>c. \<not> is_initialize c) cs"
  shows "case sys_run lib cs (sys_new mem) of
      Inr (oks, s) \<Rightarrow> list_all (\<lambda>c. \<not> needs_resources c) cs \<and> s_held s = [] \<and>
        w_data (s_world s) = MailboxData_new \<and>
        (\<forall>i < length cs. \<forall>l t. cs ! i = Call_SendMessage l t \<longrightarrow> \<not> oks ! i)
    | Inl e \<Rightarrow> \<exists>before c rest oks s. cs = before @ c # rest \<and>
        sys_run lib before (sys_new mem) = Inr (oks, s) \<and>
        list_all (\<lambda>c. \<not> needs_resources c) before \<and>
        ((\<exists>m l. c = Call_Register m l \<or> c = Call_Unregister m l) \<and> e = Self_Deadlock \<or>
         (\<exists>l. c = Call_SendSignal l \<or> c = Call_SendMessage l []) \<and> e = Null_Deref \<or>
         (\<exists>m. c = Call_Receive m \<and> w_queues (s_world s) m = None) \<and> e = Dangling_Mailbox)"
proof -
  have new: "pristine (sys_new mem :: 'r sys)"
    by (simp add: pristine_def sys_new_def world_new_def)
  show ?thesis
  proof (cases "sys_run lib cs (sys_new mem)")
    case (Inl e)
    from pristine_ends [OF new assms Inl]
    obtain before c rest oks s where b: "cs = before @ c # rest"
        "sys_run lib before (sys_new mem) = Inr (oks, s)" "list_all (\<lambda>c. \<not> needs_resources c) before"
        "e = early_fault c"
        "needs_resources c \<or> (\<exists>m. c = Call_Receive m \<and> w_queues (s_world s) m = None)"
      by auto
    from b(4,5) have "(\<exists>m l. c = Call_Register m l \<or> c = Call_Unregister m l) \<and> e = Self_Deadlock \<or>
         (\<exists>l. c = Call_SendSignal l \<or> c = Call_SendMessage l []) \<and> e = Null_Deref \<or>
         (\<exists>m. c = Call_Receive m \<and> w_queues (s_world s) m = None) \<and> e = Dangling_Mailbox"
      by (cases c) auto
    with b(1-3) show ?thesis unfolding Inl sum.case by blast
  next
    case (Inr x)
    then show ?thesis using pristine_returns [OF new assms] by (cases x) (auto simp: pristine_def)
  qed
qed

theorem run_without_initialize_witness:
  "sys_run demo_lib [Call_New 100 2, Call_SendMessage 7 [1], Call_Register 100 7] (sys_new (\<lambda>_. 0)) =
     Inl Self_Deadlock"
proof -
  define s where "s = sys_run demo_lib [Call_New 100 2, Call_SendMessage 7 [1], Call_Register 100 7]
     (sys_new (\<lambda>_. 0))"
  have "list_all (\<lambda>c. \<not> is_initialize c) [Call_New 100 2, Call_SendMessage 7 [1], Call_Register 100 7]"
    by simp
  from run_without_initialize [OF this, of demo_lib "\<lambda>_. 0", folded s_def]
  have "s = Inl Self_Deadlock"
    by (auto split: sum.splits simp: append_eq_Cons_conv Cons_eq_append_conv)
  then show ?thesis by (simp add: s_def)
qed

section \<open>Initialize\<close>

lemma Mailbox_Initialize_eq:
  assumes "\<not> md_locked (w_data w)"
  shows "Mailbox_Initialize lib a b c d w =
    (case (if md_initialized (w_data w) then None else Resources_new lib a b c d) of
       None \<Rightarrow> Inr (False, w)
     | Some rs \<Rightarrow> Inr (True, w\<lparr>w_data := (w_data w)\<lparr>md_resources := Some rs, md_initialized := True\<rparr>\<rparr>))"
proof -
  have "(w_data w)\<lparr>md_locked := False\<rparr> = w_data w" using assms by (cases "w_data w") simp
  moreover have "(w_data w)\<lparr>md_locked := False, md_resources := x, md_initialized := y\<rparr> =
      (w_data w)\<lparr>md_resources := x, md_initialized := y\<rparr>" for x y
    using assms by (cases "w_data w") simp
  ultimately show ?thesis using assms
    by (auto simp: Mailbox_Initialize_def on_data_def MailboxData_Initialize_def md_lock_def
        md_unlock_def split: option.splits)
qed

text \<open>
  C23. \<^verbatim>\<open>Initialize\<close> takes effect once: in every reachable initialized state it returns false and
  changes nothing, whatever its arguments, so the sizes and capacities are those of the first
  successful call; in a reachable state not yet initialized it returns true exactly if the
  resources could be set up, and a failure leaves the state as it was, so it can be tried again.
\<close>
theorem initialize_once:
  assumes "mailbox_lib lib owns" and "reachable_sys lib s"
  shows "(md_initialized (w_data (s_world s)) \<longrightarrow>
      sys_exec lib (Call_Initialize a b c d) s = Inr (False, s)) \<and>
    (\<not> md_initialized (w_data (s_world s)) \<longrightarrow>
      (\<exists>ok s'. sys_exec lib (Call_Initialize a b c d) s = Inr (ok, s') \<and>
        (ok \<longleftrightarrow> Resources_new lib a b c d \<noteq> None) \<and> (\<not> ok \<longrightarrow> s' = s) \<and>
        (ok \<longrightarrow> md_initialized (w_data (s_world s')) \<and>
           md_resources (w_data (s_world s')) = Resources_new lib a b c d)))"
proof -
  obtain lost S G where "sys_inv owns s lost S G" by (rule reachable_sys_inv [OF assms])
  from Mailbox_Initialize_eq [OF sys_invD(2) [OF this], of lib a b c d] show ?thesis
    by (auto split: option.splits)
qed

theorem initialize_once_witness:
  "sys_exec demo_lib (Call_Initialize 1 1 1 1) demo_sys = Inr (False, demo_sys)"
  using initialize_once [OF demo_lib_ok demo_reachable] demo_facts(1) by blast

section \<open>Destroying a registered mailbox\<close>

lemma signal_loop_dangling:
  "Some m \<in> set rs \<Longrightarrow> w_queues w m = None \<Longrightarrow> signal_loop l rs w = Inl Dangling_Mailbox"
proof (induction rs arbitrary: w)
  case (Cons r rs)
  show ?case
  proof (cases "\<exists>k. r = Some k \<and> w_queues w k = None")
    case True
    then show ?thesis by (auto simp: signal_one_def)
  next
    case False
    with Cons.prems(2) have "\<exists>w'. signal_one l r w = Inr w' \<and> w_queues w' m = None"
      by (auto simp: signal_one_def split: option.splits prod.splits)
    with Cons False show ?thesis by auto
  qed
qed simp

lemma signal_dangles:
  assumes "\<not> md_locked (w_data w)" and "Some m \<in> set (receivers_of (w_data w) l)"
    and "w_queues w m = None"
  shows "Mailbox_SendSignal l w = Inl Dangling_Mailbox"
proof -
  from assms(2) obtain rs where rs: "md_resources (w_data w) = Some rs"
      "Some m \<in> set (m_receivers (rs_mailboxes rs l))"
    by (auto simp: receivers_of_def split: option.splits)
  have "signal_loop l (m_receivers (rs_mailboxes rs l)) (w\<lparr>w_data := (w_data w)\<lparr>md_locked := True\<rparr>\<rparr>) =
      Inl Dangling_Mailbox"
    by (rule signal_loop_dangling [OF rs(2)]) (simp add: assms(3))
  then show ?thesis using assms(1) rs(1)
    by (simp add: Mailbox_SendSignal_def md_lock_def MailboxData_GetReceivers_def deref_resources_def)
qed

lemma send_one_keeps_dead:
  assumes "send_one lib isL l t r (res, w) = Inr (res', w')"
  shows "(w_queues w m = None \<longrightarrow> w_queues w' m = None) \<and> (res' \<longrightarrow> res) \<and>
    (r = Some m \<and> w_queues w m = None \<longrightarrow> \<not> res')"
  using assms
  by (auto simp: send_one_def and_then_eq_Inr Let_def split: option.splits if_splits prod.splits
      bool.splits)

lemma send_loop_dead:
  "send_loop lib isL l t rs (res, w) = Inr (res', w') \<Longrightarrow>
     (res' \<longrightarrow> res) \<and> (Some m \<in> set rs \<and> w_queues w m = None \<longrightarrow> \<not> res')"
proof (induction rs arbitrary: res w)
  case (Cons r rs)
  then obtain res1 w1 where 1: "send_one lib isL l t r (res, w) = Inr (res1, w1)"
      "send_loop lib isL l t rs (res1, w1) = Inr (res', w')"
    by (auto simp: and_then_eq_Inr)
  from send_one_keeps_dead [OF 1(1), of m] Cons.IH [OF 1(2)] show ?case by auto
qed simp

text \<open>
  C21. A mailbox that goes while it is registered leaves its address in the receivers: from then
  on every signal with a label it was registered for is an access to the destroyed mailbox, and no
  message with that label is reported as delivered.
\<close>
theorem destroyed_mailbox_dangles:
  assumes "mailbox_lib lib owns" and "reachable_sys lib s"
    and "Some m \<in> set (receivers_of (w_data (s_world s)) l)"
    and "sys_exec lib (Call_Destroy m) s = Inr (ok, s')"
  shows "sys_exec lib (Call_SendSignal l) s' = Inl Dangling_Mailbox \<and>
    (\<forall>t s''. t \<noteq> [] \<longrightarrow> sys_exec lib (Call_SendMessage l t) s' \<noteq> Inr (True, s''))"
proof -
  obtain lost S G where "sys_inv owns s lost S G" by (rule reachable_sys_inv [OF assms(1,2)])
  note unlocked = sys_invD(2) [OF this]
  from assms(3) obtain rs where rs: "md_resources (w_data (s_world s)) = Some rs"
      "Some m \<in> set (m_receivers (rs_mailboxes rs l))"
    by (auto simp: receivers_of_def split: option.splits)
  have s': "s' = s\<lparr>s_world := Mailbox_destroy m (s_world s)\<rparr>" using assms(4) by simp
  have dead: "w_queues (s_world s') m = None" and d: "w_data (s_world s') = w_data (s_world s)"
    by (simp_all add: s' Mailbox_destroy_def)
  have "sys_exec lib (Call_SendSignal l) s' = Inl Dangling_Mailbox"
    using signal_dangles [of "s_world s'" m l] unlocked assms(3) dead by (simp add: d)
  moreover have "sys_exec lib (Call_SendMessage l t) s' \<noteq> Inr (True, s'')" for t s''
    using rs dead
    by (auto simp: Mailbox_SendMessage_def md_lock_def d MailboxData_GetReceivers_def
        deref_resources_def and_then_eq_Inr Let_def dest!: send_loop_dead [where m = m]
        split: if_splits)
  ultimately show ?thesis by blast
qed

theorem destroyed_mailbox_dangles_witness:
  "sys_exec demo_lib (Call_SendSignal 7) (demo_sys\<lparr>s_world := Mailbox_destroy 100 (s_world demo_sys)\<rparr>) =
     Inl Dangling_Mailbox"
  using destroyed_mailbox_dangles [OF demo_lib_ok demo_reachable, of 100 7 True
      "demo_sys\<lparr>s_world := Mailbox_destroy 100 (s_world demo_sys)\<rparr>"] demo_facts(3) [of 7]
  by simp

section \<open>Objects of more than 65535 bytes\<close>

text \<open>
  C24. \<^verbatim>\<open>m_size\<close> keeps the size modulo 65536. A message for an object of any size \<open>n > 65535\<close> can not
  be read: \<^verbatim>\<open>as<T>()\<close> gives null for the type that was sent. Releasing it chooses the pool by
  \<open>n mod 65536\<close>: where that is a small size, the block (a large one, if \<open>n\<close> is over the small size)
  goes to the small pool, which gives it back to the memory resource as one of its own size, something a \<^verbatim>\<open>memory_resource\<close> does not allow
  (so that nothing is said of the result), and counts one more element; the large pool is not
  touched.
\<close>
theorem size_truncated:
  fixes w :: "'r world"
  assumes "n > 65535" and "p \<noteq> nullptr"
  shows "Message_as \<lparr>size_of = n, trivially_copyable = True\<rparr> (Message_new l (of_nat n) p) = nullptr \<and>
    Mailbox_ReleaseMessage lib (Message_new l (of_nat n) p) w =
      (if n mod 65536 \<le> unat (MailboxData_smallSize (w_data w))
       then w\<lparr>w_data := MailboxData_freeSmall lib p (w_data w)\<rparr>
       else w\<lparr>w_data := MailboxData_freeLarge lib p (w_data w)\<rparr>) \<and>
    (\<forall>rs. md_resources (w_data w) = Some rs \<and> n mod 65536 \<le> unat (rs_smallSize rs) \<longrightarrow>
      Mailbox_ReleaseMessage lib (Message_new l (of_nat n) p) w =
        w\<lparr>w_data := (w_data w)\<lparr>md_resources := Some
          (let (b, r) = BytePool_free (lib_mr lib) (rs_smallPool rs) (rs_sync rs) p
           in rs\<lparr>rs_smallPool := b, rs_sync := r\<rparr>)\<rparr>\<rparr>)"
proof -
  define msg where "msg = Message_new l (of_nat n) p"
  have size: "unat (m_size msg) = n mod 65536"
    by (simp add: msg_def unsigned_ucast_eq unsigned_of_nat take_bit_eq_mod mod_mod_cancel)
  have p: "m_data msg = p" by (simp add: msg_def)
  have "n mod 65536 < 65536" by simp
  then have "n mod 65536 \<noteq> n" using assms(1) by linarith
  then have "Message_as \<lparr>size_of = n, trivially_copyable = True\<rparr> msg = nullptr"
    by (auto simp: Message_as_def size)
  then show ?thesis using assms(2)
    by (auto simp: Mailbox_ReleaseMessage_def size p MailboxData_smallSize_def MailboxData_freeSmall_def
        Let_def simp flip: msg_def split: prod.splits)
qed

text \<open>
  Such a message: small blocks of 16 bytes, large ones of 70000, an object of 65544 bytes sent to
  mailbox 100 and received.
\<close>

definition big_sys :: "monotonic sync_pool sys" where
  "big_sys = snd (projr (sys_run demo_lib
     [Call_Initialize 16 2 70000 1, Call_New 100 2, Call_Register 100 7,
      Call_SendMessage 7 (replicate 65544 0), Call_Receive 100] (sys_new (\<lambda>_. 0))))"

lemma replicate_not_Nil: "0 < n \<Longrightarrow> replicate n x \<noteq> []"
  by simp

theorem size_truncated_witness:
  "\<exists>rs p. md_resources (w_data (s_world big_sys)) = Some rs \<and>
     s_held big_sys = [Message_new 7 (of_nat 65544) p] \<and>
     Message_as \<lparr>size_of = 65544, trivially_copyable = True\<rparr> (Message_new 7 (of_nat 65544) p) = nullptr \<and>
     rs_smallSize rs = 16 \<and>
     Mailbox_ReleaseMessage demo_lib (Message_new 7 (of_nat 65544) p) (s_world big_sys) =
       (s_world big_sys)\<lparr>w_data := MailboxData_freeSmall demo_lib p (w_data (s_world big_sys))\<rparr>"
proof -
  obtain rs p where big: "md_resources (w_data (s_world big_sys)) = Some rs"
      "s_held big_sys = [Message_new 7 (of_nat 65544) p]" "p \<noteq> nullptr" "rs_smallSize rs = 16"
    by (simp add: big_sys_def mailbox_run_defs)
  have "(65544 :: nat) > 65535" by simp
  from size_truncated [OF this big(3), of 7 demo_lib "s_world big_sys"] big
  show ?thesis by (intro exI [of _ rs] exI [of _ p]) (simp add: MailboxData_smallSize_def)
qed

end
