(* ===== verification/SendInterleaved.thy ===== *)
theory SendInterleaved
  imports MailboxProps
begin

text \<open>
  \<^verbatim>\<open>SendMessage\<close> and \<^verbatim>\<open>SendSignal\<close> round by round, with other threads in between: they hold
  \<^verbatim>\<open>GetMutex()\<close>, so that no other send and no registration can run, but \<^verbatim>\<open>Receive\<close>, \<^verbatim>\<open>ReleaseMessage\<close>
  and the creation and destruction of mailboxes do not take that mutex.
\<close>

section \<open>The steps of a send\<close>

text \<open>A send that holds the mutex: what it sends (\<open>None\<close>: a signal), the slots it has yet to serve.\<close>

record 'r sending =
  sn_sys :: "'r sys"
  sn_label :: label
  sn_data :: "byte list option"
  sn_large :: bool
  sn_left :: "mbox option list"
  sn_result :: bool

definition set_data :: "'r MailboxData \<Rightarrow> 'r sys \<Rightarrow> 'r sys" where
  "set_data d s = s\<lparr>s_world := (s_world s)\<lparr>w_data := d\<rparr>\<rparr>"

text \<open>Up to the loop. \<open>Inl\<close>: \<^verbatim>\<open>SendMessage\<close> has returned false, as the object is too large.\<close>

definition SendMessage_start ::
  "label \<Rightarrow> byte list \<Rightarrow> 'r sys \<Rightarrow> fault + ('r sys + 'r sending)" where
  "SendMessage_start lbl t s =
     and_then (md_lock (w_data (s_world s))) (\<lambda>d.
       if length t > unat (MailboxData_largeSize d) then Inr (Inl (set_data (md_unlock d) s))
       else and_then (MailboxData_GetReceivers lbl d) (\<lambda>receivers.
         Inr (Inr \<lparr>sn_sys = set_data d s, sn_label = lbl, sn_data = Some t,
           sn_large = (length t > unat (MailboxData_smallSize d)), sn_left = m_receivers receivers,
           sn_result = True\<rparr>)))"

definition SendSignal_start :: "label \<Rightarrow> 'r sys \<Rightarrow> fault + 'r sending" where
  "SendSignal_start lbl s =
     and_then (md_lock (w_data (s_world s))) (\<lambda>d.
     and_then (MailboxData_GetReceivers lbl d) (\<lambda>receivers.
       Inr \<lparr>sn_sys = set_data d s, sn_label = lbl, sn_data = None, sn_large = False,
         sn_left = m_receivers receivers, sn_result = True\<rparr>))"

definition send_round :: "'r lib \<Rightarrow> 'r sending \<Rightarrow> fault + 'r sending" where
  "send_round lib p =
     (case sn_left p of
        [] \<Rightarrow> Inr p
      | r # rs \<Rightarrow>
          and_then
            (case sn_data p of
               None \<Rightarrow> and_then (signal_one (sn_label p) r (s_world (sn_sys p))) (\<lambda>w. Inr (True, w))
             | Some t \<Rightarrow> send_one lib (sn_large p) (sn_label p) t r (sn_result p, s_world (sn_sys p)))
            (\<lambda>(ok, w). Inr (p\<lparr>sn_sys := (sn_sys p)\<lparr>s_world := w\<rparr>, sn_left := rs, sn_result := ok\<rparr>)))"

text \<open>After the loop.\<close>

definition send_finish :: "'r sending \<Rightarrow> 'r sys" where
  "send_finish p = (sn_sys p)\<lparr>s_world := unlock_world (s_world (sn_sys p))\<rparr>"

section \<open>Other threads in between\<close>

fun lock_free :: "call \<Rightarrow> bool" where
  "lock_free (Call_New m c) \<longleftrightarrow> True"
| "lock_free (Call_Destroy m) \<longleftrightarrow> True"
| "lock_free (Call_Receive m) \<longleftrightarrow> True"
| "lock_free (Call_Release i) \<longleftrightarrow> True"
| "lock_free _ \<longleftrightarrow> False"

datatype send_event = Round | Other call

fun send_event_step :: "'r lib \<Rightarrow> send_event \<Rightarrow> 'r sending \<Rightarrow> fault + (bool list \<times> 'r sending)" where
  "send_event_step lib Round p = and_then (send_round lib p) (\<lambda>p. Inr ([], p))"
| "send_event_step lib (Other c) p =
     and_then (sys_exec lib c (sn_sys p)) (\<lambda>(ok, s). Inr ([ok], p\<lparr>sn_sys := s\<rparr>))"

text \<open>The results of the other calls, and the send as it stands then.\<close>

fun send_run :: "'r lib \<Rightarrow> send_event list \<Rightarrow> 'r sending \<Rightarrow> fault + (bool list \<times> 'r sending)" where
  "send_run lib [] p = Inr ([], p)"
| "send_run lib (e # es) p =
     and_then (send_event_step lib e p) (\<lambda>(ok, p).
     and_then (send_run lib es p) (\<lambda>(oks, p). Inr (ok @ oks, p)))"

fun others :: "send_event list \<Rightarrow> call list" where
  "others [] = []"
| "others (Round # es) = others es"
| "others (Other c # es) = c # others es"

text \<open>Calls that the discipline allows; a \<^verbatim>\<open>Receive\<close> that waits is no event.\<close>

fun send_event_ok :: "send_event \<Rightarrow> 'r sending \<Rightarrow> bool" where
  "send_event_ok Round p \<longleftrightarrow> True"
| "send_event_ok (Other c) p \<longleftrightarrow> lock_free c \<and> call_ok c (sn_sys p) \<and>
     (\<forall>m. c = Call_Receive m \<longrightarrow> view (s_world (sn_sys p)) m \<noteq> Some [])"

fun send_events_ok :: "'r lib \<Rightarrow> send_event list \<Rightarrow> 'r sending \<Rightarrow> bool" where
  "send_events_ok lib [] p \<longleftrightarrow> True"
| "send_events_ok lib (e # es) p \<longleftrightarrow> send_event_ok e p \<and>
     (case send_event_step lib e p of Inl _ \<Rightarrow> True | Inr (_, q) \<Rightarrow> send_events_ok lib es q)"

text \<open>Without other threads the steps are the call.\<close>

lemma rounds_send_loop:
  assumes "sn_data p = Some t" and "sn_left p = rs"
  shows "send_run lib (replicate (length rs) Round) p =
    and_then (send_loop lib (sn_large p) (sn_label p) t rs (sn_result p, s_world (sn_sys p)))
      (\<lambda>(ok, w). Inr ([], p\<lparr>sn_sys := (sn_sys p)\<lparr>s_world := w\<rparr>, sn_left := [], sn_result := ok\<rparr>))"
  using assms
proof (induction rs arbitrary: p)
  case Nil
  then show ?case by (cases p; cases "sn_sys p") auto
next
  case (Cons r rs)
  show ?case
  proof (cases "send_one lib (sn_large p) (sn_label p) t r (sn_result p, s_world (sn_sys p))")
    case (Inl e)
    then show ?thesis using Cons.prems by (simp add: send_round_def)
  next
    case (Inr bw)
    obtain ok w where bw: "bw = (ok, w)" by fastforce
    define q where "q = p\<lparr>sn_sys := (sn_sys p)\<lparr>s_world := w\<rparr>, sn_left := rs, sn_result := ok\<rparr>"
    have q: "sn_data q = Some t" "sn_left q = rs" "sn_large q = sn_large p" "sn_label q = sn_label p"
        "sn_result q = ok" "s_world (sn_sys q) = w"
        "q\<lparr>sn_sys := (sn_sys q)\<lparr>s_world := x\<rparr>, sn_left := [], sn_result := b\<rparr> =
         p\<lparr>sn_sys := (sn_sys p)\<lparr>s_world := x\<rparr>, sn_left := [], sn_result := b\<rparr>" for x b
      by (simp_all add: q_def Cons.prems)
    have "send_round lib p = Inr q" using Inr bw Cons.prems by (simp add: send_round_def q_def)
    then show ?thesis using Cons.IH [OF q(1,2)] Inr
      by (simp add: bw q and_then_def split: sum.split prod.split)
  qed
qed

lemma rounds_signal_loop:
  assumes "sn_data p = None" and "sn_left p = rs" and "sn_result p"
  shows "send_run lib (replicate (length rs) Round) p =
    and_then (signal_loop (sn_label p) rs (s_world (sn_sys p)))
      (\<lambda>w. Inr ([], p\<lparr>sn_sys := (sn_sys p)\<lparr>s_world := w\<rparr>, sn_left := []\<rparr>))"
  using assms
proof (induction rs arbitrary: p)
  case Nil
  then show ?case by (cases p; cases "sn_sys p") auto
next
  case (Cons r rs)
  show ?case
  proof (cases "signal_one (sn_label p) r (s_world (sn_sys p))")
    case (Inl e)
    then show ?thesis using Cons.prems by (simp add: send_round_def)
  next
    case (Inr w)
    define q where "q = p\<lparr>sn_sys := (sn_sys p)\<lparr>s_world := w\<rparr>, sn_left := rs\<rparr>"
    have q: "sn_data q = None" "sn_left q = rs" "sn_result q" "sn_label q = sn_label p" "s_world (sn_sys q) = w"
        "q\<lparr>sn_sys := (sn_sys q)\<lparr>s_world := x\<rparr>, sn_left := []\<rparr> =
         p\<lparr>sn_sys := (sn_sys p)\<lparr>s_world := x\<rparr>, sn_left := []\<rparr>" for x
      by (simp_all add: q_def Cons.prems)
    have "send_round lib p = Inr q"
      using Inr Cons.prems by (cases p) (simp add: send_round_def q_def)
    then show ?thesis using Cons.IH [OF q(1-3)] Inr
      by (simp add: q and_then_def split: sum.split prod.split)
  qed
qed

lemma uninterrupted_message:
  "sys_exec lib (Call_SendMessage l t) s =
     and_then (SendMessage_start l t s) (\<lambda>x. case x of
       Inl s' \<Rightarrow> Inr (False, s')
     | Inr p \<Rightarrow> and_then (send_run lib (replicate (length (sn_left p)) Round) p)
         (\<lambda>(_, q). Inr (sn_result q, send_finish q)))"
proof (cases "md_lock (w_data (s_world s))")
  case (Inr d)
  show ?thesis
  proof (cases "length t > unat (MailboxData_largeSize d)")
    case True
    then show ?thesis using Inr
      by (simp add: SendMessage_start_def Mailbox_SendMessage_def set_data_def unlock_world_def)
  next
    case False
    show ?thesis
    proof (cases "MailboxData_GetReceivers l d")
      case R: (Inr R)
      then show ?thesis using Inr False
        by (simp add: SendMessage_start_def Mailbox_SendMessage_def rounds_send_loop set_data_def Let_def
            and_then_def send_finish_def split: sum.split)
    qed (use Inr False in \<open>simp add: SendMessage_start_def Mailbox_SendMessage_def Let_def\<close>)
  qed
qed (simp add: SendMessage_start_def Mailbox_SendMessage_def)

lemma uninterrupted_signal:
  "sys_exec lib (Call_SendSignal l) s =
     and_then (SendSignal_start l s) (\<lambda>p.
     and_then (send_run lib (replicate (length (sn_left p)) Round) p)
       (\<lambda>(_, q). Inr (True, send_finish q)))"
proof (cases "md_lock (w_data (s_world s))")
  case (Inr d)
  show ?thesis
  proof (cases "MailboxData_GetReceivers l d")
    case R: (Inr R)
    then show ?thesis using Inr
      by (simp add: SendSignal_start_def Mailbox_SendSignal_def rounds_signal_loop set_data_def
          and_then_def send_finish_def split: sum.split)
  qed (use Inr in \<open>simp add: SendSignal_start_def Mailbox_SendSignal_def\<close>)
qed (simp add: SendSignal_start_def Mailbox_SendSignal_def)

section \<open>The mutex does not matter to the calls that do not take it\<close>

definition with_lock :: "bool \<Rightarrow> 'r sys \<Rightarrow> 'r sys" where
  "with_lock b s = set_data ((w_data (s_world s))\<lparr>md_locked := b\<rparr>) s"

lemma receivers_of_locked [simp]: "receivers_of (d\<lparr>md_locked := b\<rparr>) = receivers_of d"
  by (simp add: receivers_of_def fun_eq_iff)

lemma with_lock_simps [simp]:
  "with_lock b (with_lock c s) = with_lock b s" "s_held (with_lock b s) = s_held s"
  "w_queues (s_world (with_lock b s)) = w_queues (s_world s)" "w_mem (s_world (with_lock b s)) = w_mem (s_world s)"
  "w_data (s_world (with_lock b s)) = (w_data (s_world s))\<lparr>md_locked := b\<rparr>"
  "view (s_world (with_lock b s)) = view (s_world s)" "caps (s_world (with_lock b s)) = caps (s_world s)"
  "abstract (with_lock b s) = abstract s"
  by (simp_all add: with_lock_def set_data_def abstract_def)

lemma with_lock_same: "\<not> md_locked (w_data (s_world s)) \<Longrightarrow> with_lock False s = s"
  by (simp add: with_lock_def set_data_def)

lemma free_locked [simp]:
  "MailboxData_freeSmall lib a (d\<lparr>md_locked := b\<rparr>) = (MailboxData_freeSmall lib a d)\<lparr>md_locked := b\<rparr>"
  "MailboxData_freeLarge lib a (d\<lparr>md_locked := b\<rparr>) = (MailboxData_freeLarge lib a d)\<lparr>md_locked := b\<rparr>"
  by (simp_all add: MailboxData_freeSmall_def MailboxData_freeLarge_def split: option.split prod.split)

lemma lock_free_exec:
  assumes "lock_free c" and "sys_exec lib c s = Inr (ok, s')"
  shows "sys_exec lib c (with_lock b s) = Inr (ok, with_lock b s')"
proof (cases c)
  case (Call_Release i)
  then show ?thesis using assms(2)
    by (auto simp: with_lock_def set_data_def Mailbox_ReleaseMessage_def split: if_splits)
next
  case (Call_Receive m)
  then show ?thesis using assms(2)
    by (auto simp: with_lock_def set_data_def Mailbox_Receive_def and_then_eq_Inr split: option.splits prod.splits)
qed (use assms in \<open>auto simp: with_lock_def set_data_def Mailbox_new_def Mailbox_destroy_def\<close>)

lemma lock_free_ok: "lock_free c \<Longrightarrow> call_ok c (with_lock b s) = call_ok c s"
  by (cases c) simp_all

lemma lock_free_config:
  assumes "lock_free c" and "sys_exec lib c s = Inr (ok, s')"
  shows "config (w_data (s_world s')) = config (w_data (s_world s))"
proof (cases c)
  case (Call_Release i)
  have "config (MailboxData_freeSmall lib a d) = config d" "config (MailboxData_freeLarge lib a d) = config d" for a d
    by (auto simp: MailboxData_freeSmall_def MailboxData_freeLarge_def BytePool_free_def config_def Let_def
        split: option.splits prod.splits bool.splits if_splits)
  then show ?thesis using assms(2) Call_Release
    by (auto simp: Mailbox_ReleaseMessage_def split: if_splits)
qed (use assms in \<open>auto simp: Mailbox_new_def Mailbox_destroy_def Mailbox_Receive_def and_then_eq_Inr
    split: option.splits prod.splits\<close>)

section \<open>What the other calls see of a send\<close>

text \<open>
  On the bus a send comes before the calls made during it: the copies its rounds deliver later wait
  behind everything these calls find in the queues.
\<close>

inductive bus_step :: "pubsub \<Rightarrow> call \<Rightarrow> bool \<Rightarrow> pubsub \<Rightarrow> bool" where
  bs_call: "pubsub_step a c ok b \<Longrightarrow> bus_step a c ok b"
| bs_signal: "subseq D (targets (a_slots a l)) \<Longrightarrow>
     bus_step a (Call_SendSignal l) True (a\<lparr>a_queues := deliver D (l, None) (a_queues a)\<rparr>)"

inductive bus_run :: "pubsub \<Rightarrow> call list \<Rightarrow> bool list \<Rightarrow> pubsub \<Rightarrow> bool" where
  bus_done: "bus_run a [] [] a"
| bus_call: "bus_step a c ok b \<Longrightarrow> bus_run b cs oks d \<Longrightarrow> bus_run a (c # cs) (ok # oks) d"

lemma bus_run_append:
  "bus_run a cs oks b \<Longrightarrow> bus_run b cs' oks' d \<Longrightarrow> bus_run a (cs @ cs') (oks @ oks') d"
  by (induction rule: bus_run.induct) (auto intro: bus_call)

definition delivered :: "mbox list \<Rightarrow> payload \<Rightarrow> pubsub \<Rightarrow> pubsub" where
  "delivered D x a = a\<lparr>a_queues := deliver D x (a_queues a)\<rparr>"

lemma delivered_simps [simp]:
  "a_slots (delivered D x a) = a_slots a" "a_held (delivered D x a) = a_held a"
  "a_caps (delivered D x a) = a_caps a" "delivered [] x a = a"
  "a_queues (delivered D x a) = deliver D x (a_queues a)"
  by (simp_all add: delivered_def)

lemma deliver_append: "deliver E x (deliver D x V) = deliver (D @ E) x V"
  by (auto simp: deliver_def fun_eq_iff option.map_comp o_def replicate_add)

lemma deliver_one:
  "V' = V(m := map_option (\<lambda>v. v @ (if ok then [x] else [])) (V m)) \<Longrightarrow>
     V' = deliver (if ok then [m] else []) x V"
  by (cases ok) (auto simp: deliver_def fun_eq_iff option.map_ident)

lemma delivered_append: "delivered E x (delivered D x a) = delivered (D @ E) x a"
  by (simp add: delivered_def deliver_append)

text \<open>The mailboxes of \<open>D\<close> exist and are registered.\<close>

definition seated :: "mbox list \<Rightarrow> pubsub \<Rightarrow> bool" where
  "seated D a \<longleftrightarrow> (\<forall>m \<in> set D. a_queues a m \<noteq> None \<and> (\<exists>l. Some m \<in> set (a_slots a l)))"

lemma delivered_step:
  assumes "pubsub_step a c ok b" and "lock_free c" and "ok" and "seated D a"
  shows "pubsub_step (delivered D x a) c ok (delivered D x b) \<and> seated D b \<and> a_slots b = a_slots a"
  using assms
proof (cases rule: pubsub_step.cases)
  case (ps_new m c)
  then have "m \<notin> set D" using assms(4) by (auto simp: seated_def)
  then have "delivered D x b = (delivered D x a)\<lparr>a_queues := (a_queues (delivered D x a))(m \<mapsto> []),
      a_caps := (a_caps (delivered D x a))(m \<mapsto> c)\<rparr>"
    by (auto simp: ps_new delivered_def deliver_def fun_eq_iff)
  moreover have "a_queues (delivered D x a) m = None" using ps_new by (simp add: deliver_def)
  ultimately show ?thesis using pubsub_step.ps_new [of "delivered D x a" m c] ps_new assms(4)
    by (auto simp: seated_def)
next
  case (ps_destroy m)
  then have "m \<notin> set D" using assms(4) by (auto simp: seated_def)
  moreover have "delivered D x b = (delivered D x a)\<lparr>a_queues := (a_queues (delivered D x a))(m := None),
      a_caps := (a_caps (delivered D x a))(m := None)\<rparr>"
    by (auto simp: ps_destroy delivered_def deliver_def fun_eq_iff)
  ultimately show ?thesis using pubsub_step.ps_destroy [of m "delivered D x a"] ps_destroy assms(4)
    by (auto simp: seated_def)
next
  case (ps_receive m y ys)
  then have "delivered D x b = (delivered D x a)\<lparr>a_queues := (a_queues (delivered D x a))
      (m \<mapsto> ys @ replicate (count_list D m) x), a_held := a_held (delivered D x a) @ [y]\<rparr>"
    by (auto simp: delivered_def deliver_def fun_eq_iff)
  then show ?thesis using pubsub_step.ps_receive [of "delivered D x a" m y "ys @ replicate (count_list D m) x"]
      ps_receive assms(4)
    by (auto simp: seated_def deliver_def)
next
  case (ps_release i)
  have held: "delivered D x (a\<lparr>a_held := h\<rparr>) = (delivered D x a)\<lparr>a_held := h\<rparr>" for h
    by (cases a) (simp add: delivered_def)
  show ?thesis using pubsub_step.ps_release [of i "delivered D x a"] ps_release assms(4)
    by (simp add: seated_def held)
qed simp_all

lemma delivered_run:
  assumes "bus_run a cs oks b" and "list_all lock_free cs" and "list_all id oks" and "seated D a"
  shows "bus_run (delivered D x a) cs oks (delivered D x b) \<and> seated D b \<and> a_slots b = a_slots a"
  using assms
proof (induction rule: bus_run.induct)
  case (bus_call a c ok b cs oks d)
  from bus_call.hyps(1) bus_call.prems(1) have "pubsub_step a c ok b" by (cases rule: bus_step.cases) auto
  with delivered_step [of a c ok b D x] bus_call show ?case by (auto intro: bus_run.bus_call bs_call)
qed (simp add: bus_done)

section \<open>Every interleaving\<close>

text \<open>A send that has begun: \<open>s\<close> is the system but for the mutex.\<close>

definition send_inv ::
  "('r \<Rightarrow> blocks \<Rightarrow> bool) \<Rightarrow> 'r sending \<Rightarrow> 'r sys \<Rightarrow> bool" where
  "send_inv owns p s \<longleftrightarrow>
     sn_sys p = with_lock True s \<and> (\<exists>lost S G. sys_inv owns s lost S G) \<and> md_initialized (w_data (s_world s)) \<and>
     set (sn_left p) \<subseteq> set (a_slots (abstract s) (sn_label p)) \<and> (sn_data p = None \<longrightarrow> sn_result p) \<and>
     (\<forall>t. sn_data p = Some t \<longrightarrow> length t \<le> unat (MailboxData_largeSize (w_data (s_world s))) \<and>
        sn_large p = (unat (MailboxData_smallSize (w_data (s_world s))) < length t))"

text \<open>
  What the calls of the others look like on the bus when the send comes before them; \<open>a\<close> is the bus
  when the send began, \<open>D\<close> are the copies delivered so far among the slots served so far.
\<close>

definition send_first :: "pubsub \<Rightarrow> 'r sending \<Rightarrow> 'r sys \<Rightarrow> call list \<Rightarrow> bool list \<Rightarrow> bool" where
  "send_first a p s cs oks \<longleftrightarrow>
     (\<exists>D X. X @ targets (sn_left p) = targets (a_slots a (sn_label p)) \<and> subseq D X \<and>
        sn_result p = (sn_data p = None \<or> D = X) \<and>
        bus_run (delivered D (sn_label p, sn_data p) a) cs oks (abstract s)) \<and>
     list_all lock_free cs \<and> list_all id oks \<and> a_slots (abstract s) = a_slots a \<and>
     seated (targets (a_slots a (sn_label p))) a"

lemma after_round:
  assumes inv: "sys_inv owns s lost S G" and w: "world_inv owns w (s_held s) lost' S' G'"
    and config: "config (w_data w) = config (w_data (s_world s))" and caps: "caps w = caps (s_world s)"
    and view: "view w = deliver D x (view (s_world s))"
    and same: "\<And>msg. msg_ok (w_data (s_world s)) S G msg \<Longrightarrow> view_msg (w_mem w) msg = view_msg (w_mem (s_world s)) msg"
    and lock: "md_locked (w_data w)"
  defines "s' \<equiv> s\<lparr>s_world := unlock_world w\<rparr>"
  shows "sys_inv owns s' lost' S' G'" "abstract s' = delivered D x (abstract s)"
    "s\<lparr>s_world := w\<rparr> = with_lock True s'" "config (w_data (s_world s')) = config (w_data (s_world s))"
proof -
  note i = sys_invD [OF inv]
  show "sys_inv owns s' lost' S' G'"
    using i w caps_alive [OF caps] config_sizes [OF config] receivers_of_config [OF config]
    by (auto simp: sys_inv_def s'_def unlock_world_def md_unlock_def)
  have "map (view_msg (w_mem w)) (s_held s) = map (view_msg (w_mem (s_world s))) (s_held s)"
    using world_invD(4) [OF i(1)] same by (auto simp: list_all_iff)
  then show "abstract s' = delivered D x (abstract s)"
    using receivers_of_config [OF config] caps view
    by (simp add: abstract_def s'_def delivered_def unlock_world_def md_unlock_def)
  show "s\<lparr>s_world := w\<rparr> = with_lock True s'"
    using lock by (cases w) (simp add: s'_def with_lock_def set_data_def unlock_world_def md_unlock_def)
  show "config (w_data (s_world s')) = config (w_data (s_world s))" using config by (simp add: s'_def)
qed

context mailbox_lib begin

lemma send_round_served:
  assumes inv: "send_inv owns p s" and left: "sn_left p = Some m # rs"
  obtains D ok w lost S G lost' S' G' where
    "send_round lib p = Inr (p\<lparr>sn_sys := s\<lparr>s_world := w\<rparr>, sn_left := rs, sn_result := sn_result p \<and> ok\<rparr>)"
    "D = [] \<or> D = [m]" "ok = (sn_data p = None \<or> D = [m])"
    "sys_inv owns s lost S G" "world_inv owns w (s_held s) lost' S' G'"
    "config (w_data w) = config (w_data (s_world s))" "caps w = caps (s_world s)"
    "view w = deliver D (sn_label p, sn_data p) (view (s_world s))" "md_locked (w_data w)"
    "\<And>msg. msg_ok (w_data (s_world s)) S G msg \<Longrightarrow> view_msg (w_mem w) msg = view_msg (w_mem (s_world s)) msg"
proof -
  let ?w = "s_world (with_lock True s)" and ?l = "sn_label p"
  from inv obtain lost S G where i: "sys_inv owns s lost S G" and sys: "sn_sys p = with_lock True s"
    by (auto simp: send_inv_def)
  have w: "world_inv owns ?w (s_held s) lost S G"
    using sys_invD(1) [OF i] by (simp add: with_lock_def set_data_def)
  have reg: "Some m \<in> set (receivers_of (w_data (s_world s)) ?l)"
    using inv left by (simp add: send_inv_def abstract_def)
  then obtain q where q: "w_queues ?w m = Some q" using sys_invD(3) [OF i] by auto
  have upd: "(with_lock True s)\<lparr>s_world := x\<rparr> = s\<lparr>s_world := x\<rparr>" for x
    by (simp add: with_lock_def set_data_def)
  have mok: "msg_ok (w_data ?w) = msg_ok (w_data (s_world s))" by (simp add: msg_ok_def fun_eq_iff)
  show thesis
  proof (cases "sn_data p")
    case None
    from signal_one_spec [OF w q, of ?l] obtain ok w' where 1: "signal_one ?l (Some m) ?w = Inr w'"
        "world_inv owns w' (s_held s) lost S G" "w_data w' = w_data ?w" "w_mem w' = w_mem ?w" "caps w' = caps ?w"
        "view w' = (view ?w)(m := map_option (\<lambda>v. v @ (if ok then [(?l, None)] else [])) (view ?w m))"
      by blast
    have "view w' = deliver (if ok then [m] else []) (?l, None) (view (s_world s))"
      using deliver_one [OF 1(6)] by simp
    moreover have "sn_result p" using inv None by (simp add: send_inv_def)
    moreover from this have "send_round lib p = Inr (p\<lparr>sn_sys := s\<lparr>s_world := w'\<rparr>, sn_left := rs, sn_result := sn_result p \<and> True\<rparr>)"
      using 1(1) None left sys by (simp add: send_round_def upd)
    ultimately have D: "view w' = deliver (if ok then [m] else []) (?l, sn_data p) (view (s_world s))"
        "send_round lib p = Inr (p\<lparr>sn_sys := s\<lparr>s_world := w'\<rparr>, sn_left := rs, sn_result := sn_result p \<and> True\<rparr>)"
      by (simp_all only: None)
    show thesis
      by (rule that [OF D(2) _ _ i 1(2) _ _ D(1)]) (simp_all add: 1(3-5) None)
  next
    case (Some t)
    have size: "length t \<le> unat (MailboxData_largeSize (w_data (s_world s)))"
        "sn_large p = (unat (MailboxData_smallSize (w_data (s_world s))) < length t)"
      using inv Some by (simp_all add: send_inv_def)
    obtain rs0 where rs0: "md_resources (w_data (s_world s)) = Some rs0"
      using inv world_invD(1) [OF sys_invD(1) [OF i]] by (auto simp: send_inv_def data_inv_def)
    then have pre: "md_resources (w_data ?w) = Some rs0" "length t < 65536" "length t \<le> unat (rs_largeSize rs0)"
        "sn_large p = (unat (rs_smallSize rs0) < length t)"
      using size sys_invD(4) [OF i] by (simp_all add: MailboxData_smallSize_def MailboxData_largeSize_def)
    obtain ok w' lost' S' G' where 1:
        "send_one lib (sn_large p) ?l t (Some m) (sn_result p, ?w) = Inr (sn_result p \<and> ok, w')"
        "world_inv owns w' (s_held s) lost' S' G'" "config (w_data w') = config (w_data ?w)"
        "md_locked (w_data w') = md_locked (w_data ?w)" "caps w' = caps ?w"
        "view w' = (view ?w)(m := map_option (\<lambda>v. v @ (if ok then [(?l, Some t)] else [])) (view ?w m))"
        "\<And>msg. msg_ok (w_data ?w) S G msg \<Longrightarrow> view_msg (w_mem w') msg = view_msg (w_mem ?w) msg"
      by (rule send_one_spec [OF w pre(1) q pre(2-4), of ?l "sn_result p"]) blast
    have "view w' = deliver (if ok then [m] else []) (?l, Some t) (view (s_world s))"
      using deliver_one [OF 1(6)] by simp
    moreover have "send_round lib p = Inr (p\<lparr>sn_sys := s\<lparr>s_world := w'\<rparr>, sn_left := rs, sn_result := sn_result p \<and> ok\<rparr>)"
      using 1(1) Some left sys by (simp add: send_round_def upd)
    ultimately show thesis using i 1(2-5) 1(7) Some mok
      by (intro that [of ok w' "if ok then [m] else []" lost S G lost' S' G']) simp_all
  qed
qed

lemma send_round_good:
  assumes inv: "send_inv owns p s" and left: "sn_left p = r # rs"
  shows "\<exists>D q s'. send_round lib p = Inr q \<and> send_inv owns q s' \<and> (D = [] \<or> D = targets [r]) \<and>
    abstract s' = delivered D (sn_label p, sn_data p) (abstract s) \<and> sn_left q = rs \<and>
    sn_label q = sn_label p \<and> sn_data q = sn_data p \<and>
    sn_result q = (sn_result p \<and> (sn_data p = None \<or> D = targets [r]))"
proof (cases r)
  case None
  define q where "q = p\<lparr>sn_left := rs\<rparr>"
  have "(sn_sys p)\<lparr>s_world := s_world (sn_sys p)\<rparr> = sn_sys p" by simp
  then have "send_round lib p = Inr q"
    using left None inv
    by (cases p) (auto simp: send_round_def send_one_def signal_one_def q_def send_inv_def split: option.split)
  moreover have "send_inv owns q s" using inv left by (auto simp: send_inv_def q_def)
  ultimately show ?thesis
    using None by (intro exI [of _ "[]"] exI [of _ q] exI [of _ s]) (auto simp: q_def)
next
  case (Some m)
  show ?thesis
  proof (rule send_round_served [OF inv left [unfolded Some]])
    fix D ok w lost S G lost' S' G'
    let ?q = "p\<lparr>sn_sys := s\<lparr>s_world := w\<rparr>, sn_left := rs, sn_result := sn_result p \<and> ok\<rparr>"
    let ?s = "s\<lparr>s_world := unlock_world w\<rparr>"
    assume 1: "send_round lib p = Inr ?q" "D = [] \<or> D = [m]" "ok = (sn_data p = None \<or> D = [m])"
      and w: "sys_inv owns s lost S G" "world_inv owns w (s_held s) lost' S' G'"
        "config (w_data w) = config (w_data (s_world s))" "caps w = caps (s_world s)"
        "view w = deliver D (sn_label p, sn_data p) (view (s_world s))"
      and locked: "md_locked (w_data w)"
      and same: "\<And>msg. msg_ok (w_data (s_world s)) S G msg \<Longrightarrow>
        view_msg (w_mem w) msg = view_msg (w_mem (s_world s)) msg"
    note a = after_round [OF w same locked]
    have "send_inv owns ?q ?s"
      using inv a left 1(3) config_sizes [OF a(4)] by (auto simp: send_inv_def)
    then show ?thesis using 1 a(2) Some
      by (intro exI [of _ D] exI [of _ ?q] exI [of _ ?s]) auto
  qed
qed

end

lemma targets_append: "targets (rs @ rs') = targets rs @ targets rs'"
  by (induction rs rule: targets.induct) simp_all

lemma seated_subset: "seated T a \<Longrightarrow> set D \<subseteq> set T \<Longrightarrow> seated D (delivered E x a)"
  by (auto simp: seated_def deliver_def)

text \<open>A round delivers behind what the others have done.\<close>

lemma send_first_round:
  assumes first: "send_first a p s cs oks" and left: "sn_left p = r # rs"
    and q: "sn_left q = rs" "sn_label q = sn_label p" "sn_data q = sn_data p"
      "sn_result q = (sn_result p \<and> (sn_data p = None \<or> E = targets [r]))"
    and E: "E = [] \<or> E = targets [r]" "abstract s' = delivered E (sn_label p, sn_data p) (abstract s)"
  shows "send_first a q s' cs oks"
proof -
  let ?x = "(sn_label p, sn_data p)" and ?T = "targets (a_slots a (sn_label p))"
  from first obtain D X where D: "X @ targets (r # rs) = ?T" "subseq D X"
      "sn_result p = (sn_data p = None \<or> D = X)" "bus_run (delivered D ?x a) cs oks (abstract s)"
    and cs: "list_all lock_free cs" "list_all id oks" "a_slots (abstract s) = a_slots a" "seated ?T a"
    using left by (auto simp: send_first_def)
  have r: "targets (r # rs) = targets [r] @ targets rs" using targets_append [of "[r]" rs] by simp
  have "set E \<subseteq> set ?T" using E(1) D(1) [symmetric] by (auto simp: r)
  from delivered_run [OF D(4) cs(1,2) seated_subset [OF cs(4) this], of ?x]
  have "bus_run (delivered (D @ E) ?x a) cs oks (abstract s')" by (simp add: delivered_append E(2))
  moreover have "subseq (D @ E) (X @ targets [r])" using D(2) E(1) by (auto intro: list_emb_append_mono)
  moreover have "(D @ E = X @ targets [r]) = (D = X \<and> E = targets [r])"
  proof (cases "E = targets [r]")
    case False
    then have "E = []" "length (targets [r]) > 0" using E(1) by auto
    then show ?thesis using list_emb_length [OF D(2)] False by (auto dest: arg_cong [of _ _ length])
  qed simp
  moreover have "(X @ targets [r]) @ targets rs = ?T" using D(1) r by simp
  ultimately show ?thesis unfolding send_first_def
    using q E cs D(3) by (intro conjI exI [of _ "D @ E"] exI [of _ "X @ targets [r]"]) auto
qed

lemma lock_free_true:
  "pubsub_step a c ok b \<Longrightarrow> lock_free c \<Longrightarrow> (\<And>m. c = Call_Receive m \<Longrightarrow> a_queues a m \<noteq> Some []) \<Longrightarrow>
     ok \<and> a_slots b = a_slots a"
  by (erule pubsub_step.cases) auto

context mailbox_lib begin

lemma send_other_good:
  assumes inv: "send_inv owns p s" and ok: "send_event_ok (Other c) p" and first: "send_first a p s cs oks"
  shows "\<exists>s'. sys_exec lib c (sn_sys p) = Inr (True, with_lock True s') \<and>
    send_inv owns (p\<lparr>sn_sys := with_lock True s'\<rparr>) s' \<and>
    send_first a (p\<lparr>sn_sys := with_lock True s'\<rparr>) s' (cs @ [c]) (oks @ [True])"
proof -
  from inv obtain lost S G where i: "sys_inv owns s lost S G" and sys: "sn_sys p = with_lock True s"
    by (auto simp: send_inv_def)
  from ok have c: "lock_free c" "call_ok c s" "\<And>m. c = Call_Receive m \<Longrightarrow> a_queues (abstract s) m \<noteq> Some []"
    by (auto simp: sys lock_free_ok abstract_def)
  from exec_good [OF i c(2)] obtain b s' lost' S' G' where 1: "sys_exec lib c s = Inr (b, s')"
      "sys_inv owns s' lost' S' G'" "pubsub_step (abstract s) c b (abstract s')"
    unfolding good_step_def by blast
  note t = lock_free_true [OF 1(3) c(1,3)]
  have exec: "sys_exec lib c (sn_sys p) = Inr (True, with_lock True s')"
    using lock_free_exec [OF c(1) 1(1), of True] t by (simp add: sys)
  have "send_inv owns (p\<lparr>sn_sys := with_lock True s'\<rparr>) s'"
    using inv 1(2) t config_sizes [OF lock_free_config [OF c(1) 1(1)]] by (auto simp: send_inv_def)
  moreover have "bus_run (abstract s) [c] [True] (abstract s')"
    using 1(3) t by (auto intro: bus_call bs_call bus_done)
  then have "send_first a (p\<lparr>sn_sys := with_lock True s'\<rparr>) s' (cs @ [c]) (oks @ [True])"
    using first c(1) t by (auto simp: send_first_def intro: bus_run_append)
  ultimately show ?thesis using exec by blast
qed

text \<open>Whatever happens during a send, it goes on, and what happens can be put behind it.\<close>

lemma send_run_good:
  assumes "send_inv owns p s" and "send_events_ok lib es p" and "send_first a p s cs oks"
  shows "\<exists>bs q s'. send_run lib es p = Inr (bs, q) \<and> send_inv owns q s' \<and> sn_label q = sn_label p \<and>
    sn_data q = sn_data p \<and> send_first a q s' (cs @ others es) (oks @ bs)"
  using assms
proof (induction es arbitrary: p s cs oks)
  case Nil
  then show ?case by auto
next
  case (Cons e es)
  show ?case
  proof (cases e)
    case Round
    have "\<exists>p1 s1. send_round lib p = Inr p1 \<and> send_inv owns p1 s1 \<and> send_first a p1 s1 cs oks \<and>
        sn_label p1 = sn_label p \<and> sn_data p1 = sn_data p"
    proof (cases "sn_left p")
      case Nil
      then show ?thesis using Cons.prems(1,3) by (intro exI [of _ p] exI [of _ s]) (simp add: send_round_def)
    next
      case left: (Cons r rs)
      from send_round_good [OF Cons.prems(1) left] obtain D p1 s1 where 1: "send_round lib p = Inr p1"
          "send_inv owns p1 s1" "D = [] \<or> D = targets [r]"
          "abstract s1 = delivered D (sn_label p, sn_data p) (abstract s)" "sn_left p1 = rs"
          "sn_label p1 = sn_label p" "sn_data p1 = sn_data p"
          "sn_result p1 = (sn_result p \<and> (sn_data p = None \<or> D = targets [r]))" by blast
      from send_first_round [OF Cons.prems(3) left 1(5-8) 1(3,4)] 1 show ?thesis by blast
    qed
    then obtain p1 s1 where 1: "send_round lib p = Inr p1" "send_inv owns p1 s1" "send_first a p1 s1 cs oks"
        "sn_label p1 = sn_label p" "sn_data p1 = sn_data p" by blast
    have "send_events_ok lib es p1" using Cons.prems(2) Round 1(1) by simp
    from Cons.IH [OF 1(2) this 1(3)] show ?thesis using Round 1 by auto
  next
    case (Other c)
    then have "send_event_ok (Other c) p" using Cons.prems(2) by simp
    from send_other_good [OF Cons.prems(1) this Cons.prems(3)] obtain s1 where 1:
        "sys_exec lib c (sn_sys p) = Inr (True, with_lock True s1)"
        "send_inv owns (p\<lparr>sn_sys := with_lock True s1\<rparr>) s1"
        "send_first a (p\<lparr>sn_sys := with_lock True s1\<rparr>) s1 (cs @ [c]) (oks @ [True])" by blast
    have "send_events_ok lib es (p\<lparr>sn_sys := with_lock True s1\<rparr>)" using Cons.prems(2) Other 1(1) by simp
    from Cons.IH [OF 1(2) this 1(3)] show ?thesis using Other 1(1) by auto
  qed
qed

lemma send_done:
  assumes "send_inv owns q s'" and "send_first a q s' cs oks" and "sn_left q = []"
  shows "send_finish q = s'" "\<exists>lost S G. sys_inv owns s' lost S G"
    "sn_data q = Some t \<Longrightarrow> bus_run a (Call_SendMessage (sn_label q) t # cs) (sn_result q # oks) (abstract s')"
    "sn_data q = None \<Longrightarrow> bus_run a (Call_SendSignal (sn_label q) # cs) (True # oks) (abstract s')"
proof -
  let ?T = "targets (a_slots a (sn_label q))"
  from assms(1) show inv: "\<exists>lost S G. sys_inv owns s' lost S G" by (simp add: send_inv_def)
  then have "with_lock False s' = s'" by (auto simp: sys_inv_def intro: with_lock_same)
  moreover have "send_finish q = with_lock False (sn_sys q)"
    by (simp add: send_finish_def with_lock_def set_data_def unlock_world_def md_unlock_def)
  ultimately show "send_finish q = s'" using assms(1) by (simp add: send_inv_def)
  from assms(2,3) obtain D where D: "subseq D ?T" "sn_result q = (sn_data q = None \<or> D = ?T)"
      "bus_run (delivered D (sn_label q, sn_data q) a) cs oks (abstract s')"
    by (auto simp: send_first_def)
  show "sn_data q = Some t \<Longrightarrow> bus_run a (Call_SendMessage (sn_label q) t # cs) (sn_result q # oks) (abstract s')"
    using ps_send [OF D(1), of t] D(2,3) by (auto simp: delivered_def intro: bus_call bs_call)
  show "sn_data q = None \<Longrightarrow> bus_run a (Call_SendSignal (sn_label q) # cs) (True # oks) (abstract s')"
    using bs_signal [OF D(1)] D(3) by (auto simp: delivered_def intro: bus_call)
qed

end

section \<open>Programs of several threads\<close>

text \<open>
  A program whose sends run round by round among the calls of the other threads. \<open>cs\<close> are its calls
  with a send where it took the mutex, \<open>oks\<close> their results.
\<close>

inductive threads_run :: "'r lib \<Rightarrow> 'r sys \<Rightarrow> call list \<Rightarrow> bool list \<Rightarrow> 'r sys \<Rightarrow> bool" for lib where
  tr_done: "threads_run lib s [] [] s"
| tr_call: "call_ok c s \<Longrightarrow> sys_exec lib c s = Inr (ok, s1) \<Longrightarrow> threads_run lib s1 cs oks s' \<Longrightarrow>
     threads_run lib s (c # cs) (ok # oks) s'"
| tr_message: "t \<noteq> [] \<Longrightarrow> SendMessage_start l t s = Inr (Inr p) \<Longrightarrow> send_events_ok lib es p \<Longrightarrow>
     send_run lib es p = Inr (bs, q) \<Longrightarrow> sn_left q = [] \<Longrightarrow> threads_run lib (send_finish q) cs oks s' \<Longrightarrow>
     threads_run lib s (Call_SendMessage l t # others es @ cs) (sn_result q # bs @ oks) s'"
| tr_signal: "md_initialized (w_data (s_world s)) \<Longrightarrow> SendSignal_start l s = Inr p \<Longrightarrow>
     send_events_ok lib es p \<Longrightarrow> send_run lib es p = Inr (bs, q) \<Longrightarrow> sn_left q = [] \<Longrightarrow>
     threads_run lib (send_finish q) cs oks s' \<Longrightarrow>
     threads_run lib s (Call_SendSignal l # others es @ cs) (True # bs @ oks) s'"

lemma run_threads:
  "calls_ok lib cs s \<Longrightarrow> sys_run lib cs s = Inr (oks, s1) \<Longrightarrow> threads_run lib s1 cs' oks' s' \<Longrightarrow>
     threads_run lib s (cs @ cs') (oks @ oks') s'"
proof (induction cs arbitrary: s oks)
  case (Cons c cs)
  then obtain ok s2 oks2 where 1: "sys_exec lib c s = Inr (ok, s2)" "sys_run lib cs s2 = Inr (oks2, s1)"
      "oks = ok # oks2" "call_ok c s" "calls_ok lib cs s2"
    by (auto simp: and_then_eq_Inr)
  from tr_call [OF 1(4,1) Cons.IH [OF 1(5,2) Cons.prems(3)]] show ?case by (simp add: 1(3))
qed simp

context mailbox_lib begin

lemma send_start_seated:
  assumes "sys_inv owns s lost S G"
  shows "seated (targets (a_slots (abstract s) l)) (abstract s)"
  using sys_invD(3) [OF assms] by (auto simp: seated_def set_targets abstract_def view_def)

lemma start_first:
  "sn_left p = a_slots (abstract s) (sn_label p) \<Longrightarrow> sn_result p \<Longrightarrow> sys_inv owns s lost S G \<Longrightarrow>
     send_first (abstract s) p s [] []"
  using send_start_seated by (auto simp: send_first_def bus_done intro!: exI [of _ "[]"])

lemma message_start_good:
  assumes inv: "sys_inv owns s lost S G" and t: "t \<noteq> []"
  obtains (refused) "SendMessage_start l t s = Inr (Inl s)"
    | (begun) p where "SendMessage_start l t s = Inr (Inr p)" "send_inv owns p s"
      "send_first (abstract s) p s [] []" "sn_label p = l" "sn_data p = Some t"
proof (cases "length t > unat (MailboxData_largeSize (w_data (s_world s)))")
  note i = sys_invD [OF inv]
  case True
  have "set_data (md_unlock ((w_data (s_world s))\<lparr>md_locked := True\<rparr>)) s = s"
    using i(2) by (simp add: md_unlock_def set_data_def)
  then show thesis using True i(2) refused by (simp add: SendMessage_start_def md_lock_def)
next
  note i = sys_invD [OF inv]
  case False
  then obtain rs where rs: "md_resources (w_data (s_world s)) = Some rs"
    using t by (auto simp: MailboxData_largeSize_def split: option.splits)
  let ?p = "\<lparr>sn_sys = with_lock True s, sn_label = l, sn_data = Some t,
      sn_large = (length t > unat (MailboxData_smallSize (w_data (s_world s)))),
      sn_left = m_receivers (rs_mailboxes rs l), sn_result = True\<rparr>"
  have "SendMessage_start l t s = Inr (Inr ?p)"
    using False i(2) rs
    by (simp add: SendMessage_start_def md_lock_def MailboxData_GetReceivers_def deref_resources_def with_lock_def)
  moreover have slots: "m_receivers (rs_mailboxes rs l) = a_slots (abstract s) l"
    by (simp add: abstract_def receivers_of_def rs)
  moreover have "md_initialized (w_data (s_world s))" using world_invD(1) [OF i(1)] rs by (auto simp: data_inv_def)
  then have "send_inv owns ?p s" using inv False slots by (auto simp: send_inv_def)
  ultimately show thesis using begun [of ?p] start_first [OF _ _ inv, of ?p] by simp
qed

lemma signal_start_good:
  assumes inv: "sys_inv owns s lost S G" and init: "md_initialized (w_data (s_world s))"
  obtains p where "SendSignal_start l s = Inr p" "send_inv owns p s"
    "send_first (abstract s) p s [] []" "sn_label p = l" "sn_data p = None"
proof -
  note i = sys_invD [OF inv]
  obtain rs where rs: "md_resources (w_data (s_world s)) = Some rs"
    using init world_invD(1) [OF i(1)] by (auto simp: data_inv_def)
  let ?p = "\<lparr>sn_sys = with_lock True s, sn_label = l, sn_data = None, sn_large = False,
      sn_left = m_receivers (rs_mailboxes rs l), sn_result = True\<rparr>"
  have "SendSignal_start l s = Inr ?p"
    using i(2) rs
    by (simp add: SendSignal_start_def md_lock_def MailboxData_GetReceivers_def deref_resources_def with_lock_def)
  moreover have slots: "m_receivers (rs_mailboxes rs l) = a_slots (abstract s) l"
    by (simp add: abstract_def receivers_of_def rs)
  moreover have "send_inv owns ?p s" using inv init slots by (auto simp: send_inv_def)
  ultimately show thesis using that [of ?p] start_first [OF _ _ inv, of ?p] by simp
qed

lemma threads_run_good:
  assumes "threads_run lib s cs oks s'" and "\<exists>lost S G. sys_inv owns s lost S G"
  shows "(\<exists>lost S G. sys_inv owns s' lost S G) \<and> bus_run (abstract s) cs oks (abstract s')"
  using assms
proof (induction rule: threads_run.induct)
  case (tr_done s)
  then show ?case by (simp add: bus_done)
next
  case (tr_call c s ok s1 cs oks s')
  from tr_call.prems obtain lost S G where "sys_inv owns s lost S G" by blast
  from exec_good [OF this tr_call.hyps(1)] tr_call.hyps(2)
  have "\<exists>lost S G. sys_inv owns s1 lost S G" "pubsub_step (abstract s) c ok (abstract s1)"
    by (auto simp: good_step_def)
  with tr_call.IH show ?case by (auto intro: bus_call bs_call)
next
  case (tr_message t l s p es bs q cs oks s')
  from tr_message.prems obtain lost S G where "sys_inv owns s lost S G" by blast
  from message_start_good [OF this tr_message.hyps(1), of l] tr_message.hyps(2)
  have p: "send_inv owns p s" "send_first (abstract s) p s [] []" "sn_label p = l" "sn_data p = Some t" by auto
  from send_run_good [OF p(1) tr_message.hyps(3) p(2)] tr_message.hyps(4) obtain s1 where q: "send_inv owns q s1"
      "send_first (abstract s) q s1 (others es) bs" "sn_label q = l" "sn_data q = Some t"
    using p(3,4) by auto
  note d = send_done [OF q(1,2) tr_message.hyps(5)]
  from d(3) [OF q(4)] d(1,2) tr_message.IH q(3) show ?case
    using bus_run_append [of "abstract s" "Call_SendMessage l t # others es" "sn_result q # bs" "abstract s1"] by auto
next
  case (tr_signal s l p es bs q cs oks s')
  from tr_signal.prems obtain lost S G where "sys_inv owns s lost S G" by blast
  from signal_start_good [OF this tr_signal.hyps(1), of l] tr_signal.hyps(2)
  have p: "send_inv owns p s" "send_first (abstract s) p s [] []" "sn_label p = l" "sn_data p = None" by auto
  from send_run_good [OF p(1) tr_signal.hyps(3) p(2)] tr_signal.hyps(4) obtain s1 where q: "send_inv owns q s1"
      "send_first (abstract s) q s1 (others es) bs" "sn_label q = l" "sn_data q = None"
    using p(3,4) by auto
  note d = send_done [OF q(1,2) tr_signal.hyps(5)]
  from d(4) [OF q(4)] d(1,2) tr_signal.IH q(3) show ?case
    using bus_run_append [of "abstract s" "Call_SendSignal l # others es" "True # bs" "abstract s1"] by auto
qed

lemma send_returns:
  assumes inv: "sys_inv owns s lost S G"
  shows "(t \<noteq> [] \<longrightarrow> SendMessage_start l t s = Inr (Inl s) \<or>
      (\<exists>p. SendMessage_start l t s = Inr (Inr p) \<and>
        (send_events_ok lib es p \<longrightarrow> (\<exists>bs q. send_run lib es p = Inr (bs, q))))) \<and>
    (md_initialized (w_data (s_world s)) \<longrightarrow> (\<exists>p. SendSignal_start l s = Inr p \<and>
        (send_events_ok lib es p \<longrightarrow> (\<exists>bs q. send_run lib es p = Inr (bs, q)))))"
proof (intro conjI impI)
  assume t: "t \<noteq> []"
  show "SendMessage_start l t s = Inr (Inl s) \<or> (\<exists>p. SendMessage_start l t s = Inr (Inr p) \<and>
      (send_events_ok lib es p \<longrightarrow> (\<exists>bs q. send_run lib es p = Inr (bs, q))))"
    by (rule message_start_good [OF inv t, of l]) (use send_run_good in blast)+
next
  assume init: "md_initialized (w_data (s_world s))"
  show "\<exists>p. SendSignal_start l s = Inr p \<and>
      (send_events_ok lib es p \<longrightarrow> (\<exists>bs q. send_run lib es p = Inr (bs, q)))"
    by (rule signal_start_good [OF inv init, of l]) (use send_run_good in blast)
qed

end

section \<open>Sends are linearizable\<close>

text \<open>
  C2. Sends among the calls of other threads. Whatever \<^verbatim>\<open>Receive\<close>, \<^verbatim>\<open>ReleaseMessage\<close>, creation and
  destruction of mailboxes come between the rounds of a send, none of them and no round faults, and
  the calls with their results are a run of the publish/subscribe machine in which the send happens at
  once when it takes the mutex: a message goes to a subsequence of its label's slots and the result
  tells whether it is all of them, a signal to a subsequence.
\<close>
theorem interleaved_sends_refine:
  fixes lib :: "'r lib"
  assumes "mailbox_lib lib owns" and "threads_run lib (sys_new mem) cs oks s"
  shows "bus_run (abstract (sys_new mem :: 'r sys)) cs oks (abstract s) \<and>
    (\<forall>c. call_ok c s \<longrightarrow> (\<exists>ok s'. sys_exec lib c s = Inr (ok, s'))) \<and>
    (\<forall>l t es. t \<noteq> [] \<longrightarrow> SendMessage_start l t s = Inr (Inl s) \<or>
      (\<exists>p. SendMessage_start l t s = Inr (Inr p) \<and>
        (send_events_ok lib es p \<longrightarrow> (\<exists>bs q. send_run lib es p = Inr (bs, q))))) \<and>
    (\<forall>l es. md_initialized (w_data (s_world s)) \<longrightarrow> (\<exists>p. SendSignal_start l s = Inr p \<and>
        (send_events_ok lib es p \<longrightarrow> (\<exists>bs q. send_run lib es p = Inr (bs, q)))))"
proof -
  have "\<exists>lost S G. sys_inv owns (sys_new mem) lost S G" using sys_inv_new [of owns mem] by blast
  note good = mailbox_lib.threads_run_good [OF assms this]
  from conjunct1 [OF good] obtain lost S G where inv: "sys_inv owns s lost S G" by (elim exE)
  have "\<exists>ok s'. sys_exec lib c s = Inr (ok, s')" if "call_ok c s" for c
    using mailbox_lib.exec_good [OF assms(1) inv that] by (auto simp: good_step_def)
  with conjunct2 [OF good] mailbox_lib.send_returns [OF assms(1) inv] show ?thesis by simp
qed

text \<open>A send of a message, with the message before it and the message itself received between its rounds.\<close>

definition busy_send_events :: "send_event list" where
  "busy_send_events = [Other (Call_Receive 100), Round, Other (Call_Receive 100), Round, Round]"

lemma busy_send_eval:
  "and_then (sys_run demo_lib demo_calls (sys_new (\<lambda>_. 0))) (\<lambda>(_, s).
     and_then (SendMessage_start 7 [9] s) (\<lambda>x. case x of Inl _ \<Rightarrow> Inl Null_Deref | Inr p \<Rightarrow>
     and_then (send_run demo_lib busy_send_events p) (\<lambda>(bs, q). Inr (bs, sn_left q, sn_result q)))) =
   Inr ([True, True], [], True)"
  by (simp add: demo_calls_def busy_send_events_def SendMessage_start_def send_round_def set_data_def mailbox_run_defs)

lemma busy_send_eval_ok:
  "and_then (sys_run demo_lib demo_calls (sys_new (\<lambda>_. 0))) (\<lambda>(_, s).
     and_then (SendMessage_start 7 [9] s) (\<lambda>x. case x of Inl _ \<Rightarrow> Inl Null_Deref | Inr p \<Rightarrow>
     Inr (send_events_ok demo_lib busy_send_events p))) = Inr True"
  by (simp add: demo_calls_def busy_send_events_def SendMessage_start_def send_round_def set_data_def view_def mailbox_run_defs)

lemma busy_send:
  "\<exists>p q. SendMessage_start 7 [9] demo_sys = Inr (Inr p) \<and> send_events_ok demo_lib busy_send_events p \<and>
     send_run demo_lib busy_send_events p = Inr ([True, True], q) \<and> sn_left q = [] \<and> sn_result q"
proof (cases "SendMessage_start 7 [9] demo_sys")
  case (Inr x)
  then show ?thesis using busy_send_eval busy_send_eval_ok by (cases x) (auto simp: demo_run and_then_eq_Inr)
qed (use busy_send_eval in \<open>simp add: demo_run\<close>)

theorem interleaved_sends_refine_witness:
  "\<exists>s :: monotonic sync_pool sys. bus_run (abstract (sys_new (\<lambda>_. 0) :: monotonic sync_pool sys))
     (demo_calls @ [Call_SendMessage 7 [9], Call_Receive 100, Call_Receive 100])
     ([True, True, True, True] @ [True, True, True]) (abstract s)"
proof -
  from busy_send obtain p q where q: "SendMessage_start 7 [9] demo_sys = Inr (Inr p)"
      "send_events_ok demo_lib busy_send_events p" "send_run demo_lib busy_send_events p = Inr ([True, True], q)"
      "sn_left q = []" "sn_result q" by (elim exE conjE)
  have "threads_run demo_lib demo_sys (Call_SendMessage 7 [9] # others busy_send_events @ [])
      (sn_result q # [True, True] @ []) (send_finish q)"
    by (rule tr_message [OF _ q(1-4) tr_done]) simp
  from run_threads [OF demo_calls_ok demo_run this]
  have "threads_run demo_lib (sys_new (\<lambda>_. 0))
      (demo_calls @ [Call_SendMessage 7 [9], Call_Receive 100, Call_Receive 100])
      ([True, True, True, True] @ [True, True, True]) (send_finish q)"
    by (simp add: busy_send_events_def q(5))
  from interleaved_sends_refine [OF demo_lib_ok this] show ?thesis by blast
qed

end
