(* ===== verification/TimeConv.thy ===== *)
theory TimeConv
  imports Prelude "HOL-Library.Signed_Division"
begin

text \<open>
  The conversions of detail/TimeConv.h. The integers of \<^verbatim>\<open>std::chrono\<close> (\<^verbatim>\<open>intmax_t\<close>) and of
  \<^verbatim>\<open>timespec\<close> (\<^verbatim>\<open>time_t\<close>, \<^verbatim>\<open>long\<close>) are signed and 64 bits wide; an overflow, which is undefined in
  C++, is \<open>None\<close>. Division truncates towards zero.
\<close>

record timespec =
  tv_sec :: int
  tv_nsec :: int

record timeval =
  tval_sec :: int
  tval_usec :: int

definition in_int64 :: "int \<Rightarrow> bool" where
  "in_int64 x \<longleftrightarrow> - (2 ^ 63) \<le> x \<and> x < 2 ^ 63"

definition int64 :: "int \<Rightarrow> int option" where
  "int64 x = (if in_int64 x then Some x else None)"

lemma int64_ok: "in_int64 x \<Longrightarrow> int64 x = Some x"
  by (simp add: int64_def)

text \<open>
  \<open>cnt\<close> ticks of \<^verbatim>\<open>1/d\<close> of a second. (\<^verbatim>\<open>dur -= secs\<close> only compiles for a period that divides a
  second.) \<^verbatim>\<open>duration_cast<nanoseconds>\<close> multiplies and divides by the terms of the reduced
  fraction \<^verbatim>\<open>10^9/d\<close>.
\<close>

definition NANO :: int where "NANO = 1000000000"

definition cast_seconds :: "int \<Rightarrow> int \<Rightarrow> int" where
  "cast_seconds d cnt = cnt sdiv d"

definition cast_nanoseconds :: "int \<Rightarrow> int \<Rightarrow> int option" where
  "cast_nanoseconds d cnt =
     map_option (\<lambda>x. x sdiv (d div gcd NANO d)) (int64 (cnt * (NANO div gcd NANO d)))"

definition Chrono2Timespec :: "int \<Rightarrow> int \<Rightarrow> timespec option" where
  "Chrono2Timespec d cnt =
     (let secs = cast_seconds d cnt
      in case int64 (secs * d) of
           None \<Rightarrow> None
         | Some ticks \<Rightarrow>
             (case int64 (cnt - ticks) of
                None \<Rightarrow> None
              | Some dur \<Rightarrow>
                  map_option (\<lambda>ns. \<lparr>tv_sec = secs, tv_nsec = ns\<rparr>) (cast_nanoseconds d dur)))"

definition SECONDS_TO_USEC :: int where "SECONDS_TO_USEC = 1000000"
definition USEC_TO_NSEC :: int where "USEC_TO_NSEC = 1000"

text \<open>The result with the caller's \<^verbatim>\<open>ts\<close>, which is left alone when the conversion fails.\<close>

definition Timeval2Timespec :: "timeval \<Rightarrow> timespec \<Rightarrow> (bool \<times> timespec) option" where
  "Timeval2Timespec tv ts =
     (if tval_usec tv < SECONDS_TO_USEC then
        map_option (\<lambda>ns. (True, \<lparr>tv_sec = tval_sec tv, tv_nsec = ns\<rparr>))
          (int64 (tval_usec tv * USEC_TO_NSEC))
      else Some (False, ts))"

section \<open>Truncating division\<close>

lemma sdiv_mult_cancel: "0 < k \<Longrightarrow> (a * k) sdiv (b * k) = (a :: int) sdiv b"
  by (simp add: signed_divide_int_def abs_mult sgn_mult)

lemma sdiv_nonneg: "0 \<le> a \<Longrightarrow> 0 \<le> b \<Longrightarrow> a sdiv b = (a :: int) div b"
  by (auto simp: signed_divide_int_def sgn_if)

lemma sdiv_nonpos: "a \<le> 0 \<Longrightarrow> 0 \<le> b \<Longrightarrow> a sdiv b = - ((- a :: int) div b)"
  by (auto simp: signed_divide_int_def sgn_if)

text \<open>The quotient of \<open>a\<close> by \<open>d\<close>, its sign and how much is lost.\<close>

lemma sdiv_bounds:
  fixes a d :: int
  assumes "0 < d"
  shows "\<bar>a - a sdiv d * d\<bar> < d" and "0 \<le> a \<Longrightarrow> 0 \<le> a sdiv d \<and> a sdiv d * d \<le> a"
    and "a \<le> 0 \<Longrightarrow> a sdiv d \<le> 0 \<and> a \<le> a sdiv d * d"
proof -
  have pos: "0 \<le> x div d \<and> x div d * d \<le> x \<and> x - x div d * d < d" if "0 \<le> x" for x
    using that assms by (simp add: pos_imp_zdiv_nonneg_iff minus_div_mult_eq_mod)
      (metis div_mult_mod_eq le_add_same_cancel1 pos_mod_sign)
  show "\<bar>a - a sdiv d * d\<bar> < d"
  proof (cases "0 \<le> a")
    case True
    with pos [of a] assms show ?thesis by (simp add: sdiv_nonneg)
  next
    case False
    with pos [of "- a"] assms show ?thesis by (simp add: sdiv_nonpos)
  qed
  show "0 \<le> a \<Longrightarrow> 0 \<le> a sdiv d \<and> a sdiv d * d \<le> a"
    using pos [of a] assms by (simp add: sdiv_nonneg)
  show "a \<le> 0 \<Longrightarrow> a sdiv d \<le> 0 \<and> a \<le> a sdiv d * d"
    using pos [of "- a"] assms by (simp add: sdiv_nonpos)
qed

section \<open>Durations\<close>

lemma NANO_pos: "0 < NANO"
  by (simp add: NANO_def)

lemma cast_nanoseconds_eq:
  assumes "0 < d" and "d \<le> 9000000000" and "\<bar>r\<bar> < d"
  shows "cast_nanoseconds d r = Some ((r * NANO) sdiv d)"
proof -
  define g where "g = gcd NANO d"
  have g: "0 < g" "g dvd NANO" "g dvd d" using assms(1) by (simp_all add: g_def)
  have n: "0 < NANO div g" "NANO div g \<le> NANO"
    using g NANO_pos by (auto simp: pos_imp_zdiv_pos_iff zdvd_imp_le intro: zdiv_mono2 [of NANO 1 g, simplified])
  have "\<bar>r * (NANO div g)\<bar> \<le> (d - 1) * NANO"
    unfolding abs_mult using assms(3) n by (intro mult_mono) auto
  also have "\<dots> < 2 ^ 63" using assms(2) by (simp add: NANO_def)
  finally have "in_int64 (r * (NANO div g))" unfolding in_int64_def by linarith
  moreover have "(r * (NANO div g)) sdiv (d div g) = (r * NANO) sdiv d"
    using sdiv_mult_cancel [OF g(1), of "r * (NANO div g)" "d div g"] g
    by (simp add: mult.assoc)
  ultimately show ?thesis by (simp add: cast_nanoseconds_def int64_ok g_def)
qed

lemma sdiv_split:
  assumes d: "0 < d"
  shows "(c * NANO) sdiv d = (c sdiv d) * NANO + ((c - (c sdiv d) * d) * NANO) sdiv d"
proof -
  define sec where "sec = c sdiv d"
  define r where "r = c - sec * d"
  note b = sdiv_bounds [OF d, of c, folded sec_def]
  have r: "0 \<le> c \<Longrightarrow> 0 \<le> r" "c \<le> 0 \<Longrightarrow> r \<le> 0" using b by (simp_all add: r_def)
  have parts: "c * NANO = r * NANO + (sec * NANO) * d" by (simp add: r_def algebra_simps)
  have "(c * NANO) sdiv d = sec * NANO + (r * NANO) sdiv d"
  proof (cases "0 \<le> c")
    case True
    then have "(c * NANO) sdiv d = (c * NANO) div d" using d NANO_pos by (simp add: sdiv_nonneg)
    also have "\<dots> = sec * NANO + (r * NANO) div d" unfolding parts using d by simp
    finally show ?thesis using r(1) True d NANO_pos by (simp add: sdiv_nonneg)
  next
    case False
    then have neg: "c * NANO \<le> 0" "r * NANO \<le> 0"
      using r(2) NANO_pos by (simp_all add: mult_nonpos_nonneg)
    have "- (c * NANO) = - (r * NANO) + (- (sec * NANO)) * d" using parts by simp
    moreover have "(x + y * d) div d = y + x div d" for x y using d by simp
    ultimately have "(- (c * NANO)) div d = - (sec * NANO) + (- (r * NANO)) div d" by metis
    then show ?thesis using neg d by (simp add: sdiv_nonpos)
  qed
  then show ?thesis by (simp add: r_def sec_def)
qed

text \<open>If the nanoseconds of \<open>c\<close> ticks can be computed, so can those of its full seconds.\<close>

lemma full_seconds_fit:
  assumes dg: "0 < k" and N: "0 \<le> N" and c': "in_int64 (c * N)" and n: "n = (c * N) sdiv k"
    and parts: "n = sec + rest" "0 \<le> c \<Longrightarrow> 0 \<le> sec \<and> 0 \<le> rest" "c \<le> 0 \<Longrightarrow> sec \<le> 0 \<and> rest \<le> 0"
  shows "in_int64 sec"
proof -
  note q = sdiv_bounds [OF dg, of "c * N", folded n]
  show ?thesis
  proof (cases "0 \<le> c")
    case True
    have "0 \<le> c * N" using True N by simp
    from q(2) [OF this] have "n * k \<le> c * N" "0 \<le> n" by auto
    moreover have "n * 1 \<le> n * k" using \<open>0 \<le> n\<close> dg by (intro mult_left_mono) auto
    ultimately show ?thesis using c' parts(1) parts(2) [OF True] unfolding in_int64_def by linarith
  next
    case False
    then have neg: "c \<le> 0" by simp
    then have "c * N \<le> 0" using N by (simp add: mult_nonpos_nonneg)
    from q(3) [OF this] have "c * N \<le> n * k" "n \<le> 0" by auto
    moreover have "n * k \<le> n * 1" using \<open>n \<le> 0\<close> dg by (intro mult_left_mono_neg) auto
    ultimately show ?thesis using c' parts(1) parts(3) [OF neg] unfolding in_int64_def by linarith
  qed
qed

lemma Chrono2Timespec_eq:
  assumes "0 < d" and "d \<le> 9000000000" and "in_int64 c"
  shows "Chrono2Timespec d c =
    Some \<lparr>tv_sec = c sdiv d, tv_nsec = ((c - c sdiv d * d) * NANO) sdiv d\<rparr>"
proof -
  note b = sdiv_bounds [OF assms(1), of c]
  have "in_int64 (c sdiv d * d)"
  proof (cases "0 \<le> c")
    case True
    with b(2) assms(1) have "0 \<le> c sdiv d * d" "c sdiv d * d \<le> c" by simp_all
    then show ?thesis using assms(3) unfolding in_int64_def by linarith
  next
    case False
    with b(3) assms(1) have "c sdiv d * d \<le> 0" "c \<le> c sdiv d * d" by (simp_all add: mult_le_0_iff)
    then show ?thesis using assms(3) unfolding in_int64_def by linarith
  qed
  moreover have "in_int64 (c - c sdiv d * d)" using b(1) assms(2) by (simp add: in_int64_def abs_if split: if_splits)
  ultimately show ?thesis
    using cast_nanoseconds_eq [OF assms(1,2) b(1)]
    by (simp add: Chrono2Timespec_def cast_seconds_def int64_ok Let_def)
qed

lemma Chrono2Timespec_facts:
  assumes "0 < d" and "d \<le> 9000000000" and "in_int64 c"
  shows "\<exists>ts. Chrono2Timespec d c = Some ts \<and> \<bar>tv_nsec ts\<bar> < NANO \<and>
    (0 \<le> c \<longrightarrow> 0 \<le> tv_sec ts \<and> 0 \<le> tv_nsec ts) \<and> (c \<le> 0 \<longrightarrow> tv_sec ts \<le> 0 \<and> tv_nsec ts \<le> 0) \<and>
    \<bar>c * NANO - (tv_sec ts * NANO + tv_nsec ts) * d\<bar> < d \<and>
    (0 \<le> c \<longrightarrow> (tv_sec ts * NANO + tv_nsec ts) * d \<le> c * NANO) \<and>
    (c \<le> 0 \<longrightarrow> c * NANO \<le> (tv_sec ts * NANO + tv_nsec ts) * d) \<and>
    (d dvd NANO \<longrightarrow> tv_sec ts * NANO + tv_nsec ts = c * (NANO div d))"
proof -
  define s r where "s = c sdiv d" and "r = c - s * d"
  define n where "n = (r * NANO) sdiv d"
  have r: "\<bar>r\<bar> < d" "0 \<le> c \<Longrightarrow> 0 \<le> r \<and> 0 \<le> s" "c \<le> 0 \<Longrightarrow> r \<le> 0 \<and> s \<le> 0"
    using sdiv_bounds [OF assms(1), of c] by (auto simp: s_def r_def)
  note b = sdiv_bounds [OF assms(1), of "r * NANO", folded n_def]
  have sign: "0 \<le> c \<Longrightarrow> 0 \<le> n" "c \<le> 0 \<Longrightarrow> n \<le> 0"
    using b(2,3) r(2,3) NANO_pos by (simp_all add: mult_le_0_iff)
  have lost: "c * NANO - (s * NANO + n) * d = r * NANO - n * d"
    by (simp add: r_def algebra_simps)
  have toward: "0 \<le> c \<Longrightarrow> (s * NANO + n) * d \<le> c * NANO" "c \<le> 0 \<Longrightarrow> c * NANO \<le> (s * NANO + n) * d"
    using b(2,3) r(2,3) NANO_pos lost by (simp_all add: mult_le_0_iff)
  have "\<bar>n\<bar> * d \<le> \<bar>r\<bar> * NANO"
    using b r NANO_pos by (cases "0 \<le> c") (auto simp: abs_if mult_nonneg_nonneg mult_le_0_iff)
  also have "\<dots> < d * NANO" using r(1) NANO_pos by simp
  finally have "\<bar>n\<bar> < NANO" using assms(1) by (simp add: mult.commute)
  moreover have "s * NANO + n = c * (NANO div d)" if "d dvd NANO"
  proof -
    have "n = r * (NANO div d)"
      using sdiv_mult_cancel [OF assms(1), of "r * (NANO div d)" 1] that
      by (simp add: n_def mult.assoc)
    moreover have "d * (NANO div d) = NANO" using that by simp
    ultimately show ?thesis unfolding r_def by (metis (no_types) diff_add_cancel distrib_right mult.assoc add.commute)
  qed
  ultimately show ?thesis
    using Chrono2Timespec_eq [OF assms] b(1) lost r(2,3) sign toward by (simp add: s_def r_def n_def)
qed

lemma Chrono2Timespec_small:
  "0 < d \<Longrightarrow> d \<le> 9000000000 \<Longrightarrow> in_int64 c \<Longrightarrow>
     \<exists>ts. Chrono2Timespec d c = Some ts \<and> \<bar>tv_nsec ts\<bar> < NANO"
  using Chrono2Timespec_facts [of d c] by blast

text \<open>
  C28. \<^verbatim>\<open>Chrono2Timespec\<close> never overflows for durations of up to \<open>9 * 10^9\<close> ticks a second, and
  gives the duration rounded towards zero to nanoseconds: less than one is lost, and the result is
  not beyond the duration on either side of zero. Both fields have the duration's sign, the second
  is less than \<open>10^9\<close>; nothing is lost where the tick is a whole number of nanoseconds.
\<close>
theorem Chrono2Timespec_correct:
  assumes "0 < d" and "d \<le> 9000000000" and "in_int64 c"
  shows "\<exists>ts. Chrono2Timespec d c = Some ts \<and> \<bar>tv_nsec ts\<bar> < NANO \<and>
    (0 \<le> c \<longrightarrow> 0 \<le> tv_sec ts \<and> 0 \<le> tv_nsec ts) \<and> (c \<le> 0 \<longrightarrow> tv_sec ts \<le> 0 \<and> tv_nsec ts \<le> 0) \<and>
    \<bar>c * NANO - (tv_sec ts * NANO + tv_nsec ts) * d\<bar> < d \<and>
    (0 \<le> c \<longrightarrow> (tv_sec ts * NANO + tv_nsec ts) * d \<le> c * NANO) \<and>
    (c \<le> 0 \<longrightarrow> c * NANO \<le> (tv_sec ts * NANO + tv_nsec ts) * d) \<and>
    (d dvd NANO \<longrightarrow> tv_sec ts * NANO + tv_nsec ts = c * (NANO div d))"
  by (rule Chrono2Timespec_facts [OF assms])

theorem Chrono2Timespec_correct_witness:
  "\<exists>ts. Chrono2Timespec 1000 2750 = Some ts \<and> tv_sec ts * NANO + tv_nsec ts = 2750 * (NANO div 1000)"
  using Chrono2Timespec_correct [of 1000 2750] by (auto simp: in_int64_def NANO_def)

section \<open>Time values\<close>

text \<open>What \<^verbatim>\<open>timer_settime\<close> accepts.\<close>

definition valid_timespec :: "timespec \<Rightarrow> bool" where
  "valid_timespec ts \<longleftrightarrow> 0 \<le> tv_sec ts \<and> 0 \<le> tv_nsec ts \<and> tv_nsec ts < NANO"

text \<open>
  C29. \<^verbatim>\<open>Timeval2Timespec\<close> succeeds exactly if \<^verbatim>\<open>tv_usec\<close> is below a second, and then keeps the
  value; on failure it leaves its output alone. There is no test for negative fields: the result
  is a valid time exactly if neither was negative.
\<close>
theorem Timeval2Timespec_correct:
  assumes "in_int64 (tval_usec tv * 1000)"
  shows "\<exists>ok ts'. Timeval2Timespec tv ts = Some (ok, ts') \<and> (ok \<longleftrightarrow> tval_usec tv < 1000000) \<and>
    (ok \<longrightarrow> tv_sec ts' * NANO + tv_nsec ts' = (tval_sec tv * 1000000 + tval_usec tv) * 1000 \<and>
       (valid_timespec ts' \<longleftrightarrow> 0 \<le> tval_sec tv \<and> 0 \<le> tval_usec tv)) \<and>
    (\<not> ok \<longrightarrow> ts' = ts)"
  using assms
  by (auto simp: Timeval2Timespec_def SECONDS_TO_USEC_def USEC_TO_NSEC_def int64_ok NANO_def
      valid_timespec_def)

theorem Timeval2Timespec_correct_witness:
  "\<exists>ts'. Timeval2Timespec \<lparr>tval_sec = 1, tval_usec = -5\<rparr> \<lparr>tv_sec = 0, tv_nsec = 0\<rparr> =
     Some (True, ts') \<and> \<not> valid_timespec ts'"
  using Timeval2Timespec_correct [of "\<lparr>tval_sec = 1, tval_usec = -5\<rparr>" "\<lparr>tv_sec = 0, tv_nsec = 0\<rparr>"]
  by (auto simp: in_int64_def)

end
