(* ===== verification/Timer.thy ===== *)
theory Timer
  imports TimeConv MailboxSystem
begin

text \<open>
  \<^verbatim>\<open>Timer\<close>, \<^verbatim>\<open>TimerResources\<close> and \<^verbatim>\<open>TimerManagerData\<close> (detail/TimerManagerData.h),
  \<^verbatim>\<open>TimerManager\<close> (TimerManager.h) and \<^verbatim>\<open>msglib::Initialize\<close> (Msglib.h). The POSIX calls are
  parameters. Each member function holds the recursive mutex \<^verbatim>\<open>m_mutex\<close> throughout, so it is one
  function on the state; an exception keeps the state it leaves behind.
\<close>

section \<open>The POSIX calls\<close>

record itimerspec =
  it_interval :: timespec
  it_value :: timespec

text \<open>
  \<^verbatim>\<open>timer_create(CLOCK_MONOTONIC, sev, ..)\<close> with the \<^verbatim>\<open>sival_ptr\<close> of its \<^verbatim>\<open>sigevent\<close> (\<open>None\<close>: it returned
  -1); \<^verbatim>\<open>timer_settime\<close> tells whether it returned 0 and gives the old setting; \<^verbatim>\<open>sigtimedwait\<close> gives
  the \<^verbatim>\<open>sival_ptr\<close> of a \<^verbatim>\<open>SIGRTMIN\<close>, or \<open>None\<close> for a time-out or an error. The calls on signal masks tell
  whether they returned 0.
\<close>

record 'k posix =
  timer_create :: "'k \<Rightarrow> addr \<Rightarrow> nat option \<times> 'k"
  timer_settime :: "'k \<Rightarrow> nat \<Rightarrow> itimerspec \<Rightarrow> bool \<times> itimerspec \<times> 'k"
  timer_delete :: "'k \<Rightarrow> nat \<Rightarrow> 'k"
  sigtimedwait :: "'k \<Rightarrow> addr option \<times> 'k"
  sigemptyset :: "'k \<Rightarrow> bool \<times> 'k"
  sigaddset :: "'k \<Rightarrow> bool \<times> 'k"
  sigprocmask :: "'k \<Rightarrow> bool \<times> 'k"
  pthread_sigmask :: "'k \<Rightarrow> bool \<times> 'k"

definition timespec_zero :: timespec where
  "timespec_zero = \<lparr>tv_sec = 0, tv_nsec = 0\<rparr>"

section \<open>Timer\<close>

datatype TimerType = PERIODIC | ONE_SHOT

record Timer =
  tm_label :: label
  tm_timer :: nat
  tm_type :: TimerType
  tm_spec :: itimerspec

text \<open>
  The constructor. \<open>this\<close> is the signal's value. If \<^verbatim>\<open>timer_settime\<close> fails the POSIX timer stays, as
  the destructor of an object that was not constructed does not run.
\<close>

definition Timer_new ::
  "'k posix \<Rightarrow> addr \<Rightarrow> label \<Rightarrow> timespec \<Rightarrow> TimerType \<Rightarrow> 'k \<Rightarrow> (fault + Timer) \<times> 'k" where
  "Timer_new px this lbl time type k =
     (case timer_create px k this of
        (None, k) \<Rightarrow> (Inl (Runtime_Error ''Couldn't create timer''), k)
      | (Some timer, k) \<Rightarrow>
          (let spec =
             (case type of
                PERIODIC \<Rightarrow> \<lparr>it_interval = time, it_value = time\<rparr>
              | ONE_SHOT \<Rightarrow> \<lparr>it_interval = timespec_zero, it_value = time\<rparr>)
           in case timer_settime px k timer spec of
                (False, _, k) \<Rightarrow> (Inl (Runtime_Error ''Couldn't start timer''), k)
              | (True, _, k) \<Rightarrow>
                  (Inr \<lparr>tm_label = lbl, tm_timer = timer, tm_type = type, tm_spec = spec\<rparr>, k)))"

definition Timer_destroy :: "'k posix \<Rightarrow> Timer \<Rightarrow> 'k \<Rightarrow> 'k" where
  "Timer_destroy px tm k = timer_delete px k (tm_timer tm)"

definition Timer_cancel :: "'k posix \<Rightarrow> Timer \<Rightarrow> 'k \<Rightarrow> Timer \<times> 'k" where
  "Timer_cancel px tm k =
     (let itsnew = \<lparr>it_interval = timespec_zero, it_value = timespec_zero\<rparr>;
          (ok, old, k) = timer_settime px k (tm_timer tm) itsnew
      in (if ok then tm\<lparr>tm_spec := old\<rparr> else tm, k))"

section \<open>TimerManagerData\<close>

text \<open>\<^verbatim>\<open>sizeof(Timer)\<close> and \<^verbatim>\<open>alignof(Timer)\<close> on x86-64 Linux.\<close>

definition SIZEOF_TIMER :: size_t where "SIZEOF_TIMER = 136"
definition ALIGNOF_TIMER :: size_t where "ALIGNOF_TIMER = 8"
definition MAX_TIMERS :: nat where "MAX_TIMERS = 65536"

record TimerResources =
  tr_buffer :: monotonic
  tr_timers :: "label \<Rightarrow> addr"
  tr_shutdown :: bool

text \<open>
  The constructor, with the address of \<^verbatim>\<open>m_bytes\<close> and the contents that \<^verbatim>\<open>m_timers\<close>, which nothing
  initializes, happens to have.
\<close>

definition TimerResources_new :: "addr \<Rightarrow> (label \<Rightarrow> addr) \<Rightarrow> TimerResources" where
  "TimerResources_new base slots =
     \<lparr>tr_buffer = monotonic_new base (of_nat MAX_TIMERS * SIZEOF_TIMER),
      tr_timers = slots, tr_shutdown = False\<rparr>"

definition TimerResources_destroy :: "TimerResources \<Rightarrow> TimerResources" where
  "TimerResources_destroy tr = tr\<lparr>tr_shutdown := True\<rparr>"

record TimerManagerData =
  td_initialized :: bool
  td_resources :: "TimerResources option"

definition TimerManagerData_new :: TimerManagerData where
  "TimerManagerData_new = \<lparr>td_initialized = False, td_resources = None\<rparr>"

text \<open>
  The program's state: the mailboxes, the kernel, the timer data, the \<^verbatim>\<open>Timer\<close> objects that are
  alive, by address, and the pointer the signal thread has taken out of \<^verbatim>\<open>info\<close> and not used yet.
\<close>

record ('r, 'k) tsys =
  t_sys :: "'r sys"
  t_kernel :: 'k
  t_data :: TimerManagerData
  t_objs :: "addr \<Rightarrow> Timer option"
  t_taken :: "addr option"

text \<open>
  \<open>fresh\<close> is what \<^verbatim>\<open>make_unique<TimerResources>\<close> comes to: address of the bytes and contents of the
  array, or \<open>None\<close> if memory or the thread can not be had.
\<close>

definition TimerManagerData_Initialize ::
  "(addr \<times> (label \<Rightarrow> addr)) option \<Rightarrow> TimerManagerData \<Rightarrow> bool \<times> TimerManagerData" where
  "TimerManagerData_Initialize fresh d =
     (if \<not> td_initialized d then
        (case fresh of
           None \<Rightarrow> (False, d)
         | Some (base, slots) \<Rightarrow>
             (True, d\<lparr>td_resources := Some (TimerResources_new base slots), td_initialized := True\<rparr>))
      else (True, d))"

definition set_resources :: "TimerResources \<Rightarrow> ('r, 'k) tsys \<Rightarrow> ('r, 'k) tsys" where
  "set_resources tr s = s\<lparr>t_data := (t_data s)\<lparr>td_resources := Some tr\<rparr>\<rparr>"

definition TimerManagerData_startTimer ::
  "'k posix \<Rightarrow> label \<Rightarrow> timespec \<Rightarrow> TimerType \<Rightarrow> ('r, 'k) tsys \<Rightarrow> (fault + bool) \<times> ('r, 'k) tsys" where
  "TimerManagerData_startTimer px lbl time type s =
     (case td_resources (t_data s) of
        None \<Rightarrow> (Inl Null_Deref, s)
      | Some tr \<Rightarrow>
          if tr_timers tr lbl = nullptr then
            (case monotonic_allocate (tr_buffer tr) SIZEOF_TIMER ALIGNOF_TIMER of
               (None, buf) \<Rightarrow> (Inl Bad_Alloc, set_resources (tr\<lparr>tr_buffer := buf\<rparr>) s)
             | (Some p, buf) \<Rightarrow>
                 (let s = set_resources (tr\<lparr>tr_buffer := buf, tr_timers := (tr_timers tr)(lbl := p)\<rparr>) s
                  in case Timer_new px p lbl time type (t_kernel s) of
                       (Inl e, k) \<Rightarrow> (Inl e, s\<lparr>t_kernel := k\<rparr>)
                     | (Inr tm, k) \<Rightarrow>
                         (Inr True, s\<lparr>t_kernel := k, t_objs := (t_objs s)(p \<mapsto> tm)\<rparr>)))
          else (Inr False, s))"

text \<open>The buffer resource does nothing on \<^verbatim>\<open>deallocate\<close>.\<close>

definition TimerManagerData_cancelTimer ::
  "'k posix \<Rightarrow> label \<Rightarrow> ('r, 'k) tsys \<Rightarrow> (fault + bool) \<times> ('r, 'k) tsys" where
  "TimerManagerData_cancelTimer px lbl s =
     (case td_resources (t_data s) of
        None \<Rightarrow> (Inl Null_Deref, s)
      | Some tr \<Rightarrow>
          (let p = tr_timers tr lbl
           in if p \<noteq> nullptr then
                (case t_objs s p of
                   None \<Rightarrow> (Inl Dangling_Timer, s)
                 | Some tm \<Rightarrow>
                     (let (tm, k) = Timer_cancel px tm (t_kernel s);
                          k = Timer_destroy px tm k;
                          (_, buf) = do_deallocate monotonic_pmr (tr_buffer tr) p SIZEOF_TIMER ALIGNOF_TIMER
                      in (Inr True,
                          set_resources (tr\<lparr>tr_buffer := buf, tr_timers := (tr_timers tr)(lbl := nullptr)\<rparr>)
                            (s\<lparr>t_kernel := k, t_objs := (t_objs s)(p := None)\<rparr>))))
              else (Inr False, s)))"

text \<open>
  \<^verbatim>\<open>cancelTimer(m_label)\<close> takes the label by reference, to a member of the object it destroys, and
  reads it again afterwards; the buffer is not reused, so the value read is the label's.
\<close>

definition Timer_timerEvent ::
  "'k posix \<Rightarrow> addr \<Rightarrow> ('r, 'k) tsys \<Rightarrow> (fault + unit) \<times> ('r, 'k) tsys" where
  "Timer_timerEvent px this s =
     (case t_objs s this of
        None \<Rightarrow> (Inl Dangling_Timer, s)
      | Some tm \<Rightarrow>
          (case Mailbox_SendSignal (tm_label tm) (s_world (t_sys s)) of
             Inl e \<Rightarrow> (Inl e, s)
           | Inr (_, w) \<Rightarrow>
               (let s = s\<lparr>t_sys := (t_sys s)\<lparr>s_world := w\<rparr>\<rparr>
                in if tm_type tm = ONE_SHOT then
                     (case TimerManagerData_cancelTimer px (tm_label tm) s of
                        (Inl e, s) \<Rightarrow> (Inl e, s)
                      | (Inr _, s) \<Rightarrow> (Inr (), s))
                   else (Inr (), s))))"

section \<open>The signal thread\<close>

text \<open>
  What \<^verbatim>\<open>HandleSignals\<close> does before its loop. A round of the loop is two steps when there is a signal:
  it takes the signal, and then, with \<^verbatim>\<open>m_mutex\<close>, calls \<^verbatim>\<open>timerEvent\<close>; other threads can come in between.
\<close>

definition HandleSignals_setup :: "'k posix \<Rightarrow> 'k \<Rightarrow> (fault + unit) \<times> 'k" where
  "HandleSignals_setup px k =
     (case sigemptyset px k of
        (False, k) \<Rightarrow> (Inl (Runtime_Error ''sigemptyset error''), k)
      | (True, k) \<Rightarrow>
          (case sigaddset px k of
             (False, k) \<Rightarrow> (Inl (Runtime_Error ''sigaddset error''), k)
           | (True, k) \<Rightarrow>
               (case pthread_sigmask px k of
                  (False, k) \<Rightarrow> (Inl (Runtime_Error ''pthread_sigmask error''), k)
                | (True, k) \<Rightarrow> (Inr (), k))))"

definition HandleSignals_step ::
  "'k posix \<Rightarrow> ('r, 'k) tsys \<Rightarrow> (fault + unit) \<times> ('r, 'k) tsys" where
  "HandleSignals_step px s =
     (case t_taken s of
        None \<Rightarrow> (case sigtimedwait px (t_kernel s) of (got, k) \<Rightarrow> (Inr (), s\<lparr>t_kernel := k, t_taken := got\<rparr>))
      | Some p \<Rightarrow> Timer_timerEvent px p (s\<lparr>t_taken := None\<rparr>))"

definition HandleSignals_round ::
  "'k posix \<Rightarrow> ('r, 'k) tsys \<Rightarrow> (fault + unit) \<times> ('r, 'k) tsys" where
  "HandleSignals_round px s =
     (case HandleSignals_step px s of
        (Inl e, s) \<Rightarrow> (Inl e, s)
      | (Inr _, s) \<Rightarrow>
          (case t_taken s of None \<Rightarrow> (Inr (), s) | Some p \<Rightarrow> HandleSignals_step px s))"

text \<open>At most \<open>n\<close> rounds of the loop; it ends when the destructor has set \<^verbatim>\<open>m_shutdown\<close>.\<close>

fun HandleSignals_loop ::
  "'k posix \<Rightarrow> nat \<Rightarrow> ('r, 'k) tsys \<Rightarrow> (fault + unit) \<times> ('r, 'k) tsys" where
  "HandleSignals_loop px 0 s = (Inr (), s)"
| "HandleSignals_loop px (Suc n) s =
     (case td_resources (t_data s) of
        None \<Rightarrow> (Inl Null_Deref, s)
      | Some tr \<Rightarrow>
          if tr_shutdown tr then (Inr (), s)
          else (case HandleSignals_round px s of
                  (Inl e, s) \<Rightarrow> (Inl e, s)
                | (Inr _, s) \<Rightarrow> HandleSignals_loop px n s))"

section \<open>TimerManager\<close>

definition TimerManager_Initialize ::
  "'k posix \<Rightarrow> (addr \<times> (label \<Rightarrow> addr)) option \<Rightarrow> ('r, 'k) tsys \<Rightarrow> bool \<times> ('r, 'k) tsys" where
  "TimerManager_Initialize px fresh s =
     (case sigemptyset px (t_kernel s) of
        (False, k) \<Rightarrow> (False, s\<lparr>t_kernel := k\<rparr>)
      | (True, k) \<Rightarrow>
     (case sigaddset px k of
        (False, k) \<Rightarrow> (False, s\<lparr>t_kernel := k\<rparr>)
      | (True, k) \<Rightarrow>
     (case sigprocmask px k of
        (False, k) \<Rightarrow> (False, s\<lparr>t_kernel := k\<rparr>)
      | (True, k) \<Rightarrow>
     (case pthread_sigmask px k of
        (False, k) \<Rightarrow> (False, s\<lparr>t_kernel := k\<rparr>)
      | (True, k) \<Rightarrow>
          (let (ok, d) = TimerManagerData_Initialize fresh (t_data s)
           in (ok, s\<lparr>t_kernel := k, t_data := d\<rparr>))))))"

definition TimerManager_StartTimer_timespec ::
  "'k posix \<Rightarrow> label \<Rightarrow> timespec \<Rightarrow> TimerType \<Rightarrow> ('r, 'k) tsys \<Rightarrow> (fault + bool) \<times> ('r, 'k) tsys" where
  "TimerManager_StartTimer_timespec px lbl time type = TimerManagerData_startTimer px lbl time type"

text \<open>The other overloads: \<open>None\<close> is an overflow in the conversion, which is undefined in C++.\<close>

definition TimerManager_StartTimer_timeval ::
  "'k posix \<Rightarrow> label \<Rightarrow> timeval \<Rightarrow> TimerType \<Rightarrow> ('r, 'k) tsys \<Rightarrow>
    ((fault + bool) \<times> ('r, 'k) tsys) option" where
  "TimerManager_StartTimer_timeval px lbl time type s =
     (case Timeval2Timespec time timespec_zero of
        None \<Rightarrow> None
      | Some (ok, ts) \<Rightarrow>
          Some (if ok then TimerManagerData_startTimer px lbl ts type s else (Inr False, s)))"

definition TimerManager_StartTimer_duration ::
  "'k posix \<Rightarrow> label \<Rightarrow> int \<Rightarrow> int \<Rightarrow> TimerType \<Rightarrow> ('r, 'k) tsys \<Rightarrow>
    ((fault + bool) \<times> ('r, 'k) tsys) option" where
  "TimerManager_StartTimer_duration px lbl d cnt type s =
     map_option (\<lambda>ts. TimerManagerData_startTimer px lbl ts type s) (Chrono2Timespec d cnt)"

text \<open>A \<^verbatim>\<open>time_point\<close> is the duration \<open>cnt\<close> (in ticks of \<open>1/d\<close> of a second) since its clock's epoch.\<close>

definition time_point_timespec :: "int \<Rightarrow> int \<Rightarrow> timespec option" where
  "time_point_timespec d cnt =
     (let secs = cast_seconds d cnt
      in case (cast_nanoseconds d cnt, int64 (secs * NANO)) of
           (Some ns, Some whole) \<Rightarrow>
             map_option (\<lambda>n. \<lparr>tv_sec = secs, tv_nsec = n\<rparr>) (int64 (ns - whole))
         | _ \<Rightarrow> None)"

definition TimerManager_StartTimer_time_point ::
  "'k posix \<Rightarrow> label \<Rightarrow> int \<Rightarrow> int \<Rightarrow> ('r, 'k) tsys \<Rightarrow>
    ((fault + bool) \<times> ('r, 'k) tsys) option" where
  "TimerManager_StartTimer_time_point px lbl d cnt s =
     map_option (\<lambda>ts. TimerManagerData_startTimer px lbl ts ONE_SHOT s) (time_point_timespec d cnt)"

definition TimerManager_CancelTimer ::
  "'k posix \<Rightarrow> label \<Rightarrow> ('r, 'k) tsys \<Rightarrow> (fault + bool) \<times> ('r, 'k) tsys" where
  "TimerManager_CancelTimer px lbl = TimerManagerData_cancelTimer px lbl"

section \<open>msglib::Initialize\<close>

definition set_world :: "'r world \<Rightarrow> ('r, 'k) tsys \<Rightarrow> ('r, 'k) tsys" where
  "set_world w s = s\<lparr>t_sys := (t_sys s)\<lparr>s_world := w\<rparr>\<rparr>"

definition msglib_Initialize ::
  "'k posix \<Rightarrow> (addr \<times> (label \<Rightarrow> addr)) option \<Rightarrow> 'r lib \<Rightarrow> size_t \<Rightarrow> size_t \<Rightarrow> size_t \<Rightarrow> size_t \<Rightarrow>
    ('r, 'k) tsys \<Rightarrow> fault + (bool \<times> ('r, 'k) tsys)" where
  "msglib_Initialize px fresh lib smallSize smallCap largeSize largeCap s =
     (let (result, s) = TimerManager_Initialize px fresh s
      in and_then (Mailbox_Initialize lib smallSize smallCap largeSize largeCap (s_world (t_sys s)))
           (\<lambda>(ok, w). Inr (result \<and> ok, set_world w s)))"

definition msglib_Initialize_default ::
  "'k posix \<Rightarrow> (addr \<times> (label \<Rightarrow> addr)) option \<Rightarrow> 'r lib \<Rightarrow> ('r, 'k) tsys \<Rightarrow>
    fault + (bool \<times> ('r, 'k) tsys)" where
  "msglib_Initialize_default px fresh lib s =
     (let (result, s) = TimerManager_Initialize px fresh s
      in and_then (Mailbox_Initialize_default lib (s_world (t_sys s)))
           (\<lambda>(ok, w). Inr (result \<and> ok, set_world w s)))"

end
