(* ===== verification/PosixTimers.thy ===== *)
theory PosixTimers
  imports Timer
begin

text \<open>
  What the timer code relies on of POSIX timers, as a locale, and two kernels that provide it. POSIX
  leaves open what becomes of a pending signal when its timer is disarmed, set again or deleted: it
  may stay or be withdrawn.
\<close>

section \<open>The contract\<close>

text \<open>
  \<open>live\<close>: the timers that exist, with their signal value; \<open>armed\<close>: those running, with their setting;
  \<open>pending\<close>: the signals not yet taken, in the order they were queued, at most one of a timer.
  \<open>expire k i\<close>: the time of timer \<open>i\<close> has come.
\<close>

locale posix_timers =
  fixes px :: "'k posix" and expire :: "'k \<Rightarrow> nat \<Rightarrow> 'k"
    and live :: "'k \<Rightarrow> nat \<Rightarrow> addr option" and armed :: "'k \<Rightarrow> nat \<Rightarrow> itimerspec option"
    and pending :: "'k \<Rightarrow> (nat \<times> addr) list"
  assumes armed_live: "armed k i \<noteq> None \<Longrightarrow> live k i \<noteq> None"
    and create_some: "timer_create px k p = (Some i, k') \<Longrightarrow>
      live k i = None \<and> live k' = (live k)(i \<mapsto> p) \<and> armed k' = armed k \<and> pending k' = pending k"
    and create_none: "timer_create px k p = (None, k') \<Longrightarrow>
      live k' = live k \<and> armed k' = armed k \<and> pending k' = pending k"
    and settime_invalid: "live k i = Some p \<Longrightarrow>
      \<not> (valid_timespec (it_value x) \<and> valid_timespec (it_interval x)) \<Longrightarrow>
      \<exists>old k'. timer_settime px k i x = (False, old, k') \<and>
        live k' = live k \<and> armed k' = armed k \<and> pending k' = pending k"
    and settime_valid: "live k i = Some p \<Longrightarrow>
      valid_timespec (it_value x) \<Longrightarrow> valid_timespec (it_interval x) \<Longrightarrow>
      \<exists>old k'. timer_settime px k i x = (True, old, k') \<and> live k' = live k \<and>
        armed k' = (armed k)(i := if it_value x = timespec_zero then None else Some x) \<and>
        pending k' \<in> {pending k, removeAll (i, p) (pending k)}"
    and delete_live: "live k i = Some p \<Longrightarrow>
      live (timer_delete px k i) = (live k)(i := None) \<and>
      armed (timer_delete px k i) = (armed k)(i := None) \<and>
      pending (timer_delete px k i) \<in> {pending k, removeAll (i, p) (pending k)}"
    and wait_none: "sigtimedwait px k = (None, k') \<Longrightarrow>
      pending k = [] \<and> live k' = live k \<and> armed k' = armed k \<and> pending k' = pending k"
    and wait_some: "sigtimedwait px k = (Some p, k') \<Longrightarrow>
      \<exists>i ps. pending k = (i, p) # ps \<and> pending k' = ps \<and> live k' = live k \<and> armed k' = armed k"
    and expire_armed: "armed k i = Some x \<Longrightarrow> live k i = Some p \<Longrightarrow>
      live (expire k i) = live k \<and>
      armed (expire k i) = (armed k)(i := if it_interval x = timespec_zero then None else Some x) \<and>
      pending (expire k i) = (if (i, p) \<in> set (pending k) then pending k else pending k @ [(i, p)])"
    and expire_idle: "armed k i = None \<Longrightarrow> expire k i = k"

section \<open>Two kernels\<close>

text \<open>
  \<open>sk_limit\<close> bounds the timers a process may create. A timer whose signal is pending does not queue
  a second one (the overrun count is not used here). \<open>purge\<close>: deleting a timer withdraws its signal;
  without it the signal stays.
\<close>

record kernel =
  sk_next :: nat
  sk_limit :: nat
  sk_timers :: "nat \<Rightarrow> (addr \<times> itimerspec) option"
  sk_pending :: "(nat \<times> addr) list"

definition kernel_new :: "nat \<Rightarrow> kernel" where
  "kernel_new limit = \<lparr>sk_next = 0, sk_limit = limit, sk_timers = Map.empty, sk_pending = []\<rparr>"

definition disarmed :: itimerspec where
  "disarmed = \<lparr>it_interval = timespec_zero, it_value = timespec_zero\<rparr>"

definition kernel_create :: "kernel \<Rightarrow> addr \<Rightarrow> nat option \<times> kernel" where
  "kernel_create k p =
     (let i = sk_next k
      in if i < sk_limit k \<and> sk_timers k i = None
         then (Some i, k\<lparr>sk_next := Suc i, sk_timers := (sk_timers k)(i \<mapsto> (p, disarmed))\<rparr>)
         else (None, k))"

definition kernel_settime :: "kernel \<Rightarrow> nat \<Rightarrow> itimerspec \<Rightarrow> bool \<times> itimerspec \<times> kernel" where
  "kernel_settime k i x =
     (case sk_timers k i of
        None \<Rightarrow> (False, disarmed, k)
      | Some (p, old) \<Rightarrow>
          if valid_timespec (it_value x) \<and> valid_timespec (it_interval x)
          then (True, old, k\<lparr>sk_timers := (sk_timers k)(i \<mapsto> (p, x))\<rparr>)
          else (False, disarmed, k))"

definition kernel_delete :: "bool \<Rightarrow> kernel \<Rightarrow> nat \<Rightarrow> kernel" where
  "kernel_delete purge k i =
     k\<lparr>sk_timers := (sk_timers k)(i := None),
       sk_pending := (case sk_timers k i of
           Some (p, _) \<Rightarrow> if purge then removeAll (i, p) (sk_pending k) else sk_pending k
         | None \<Rightarrow> sk_pending k)\<rparr>"

definition kernel_wait :: "kernel \<Rightarrow> addr option \<times> kernel" where
  "kernel_wait k =
     (case sk_pending k of [] \<Rightarrow> (None, k) | (i, p) # ps \<Rightarrow> (Some p, k\<lparr>sk_pending := ps\<rparr>))"

definition kernel_armed :: "kernel \<Rightarrow> nat \<Rightarrow> itimerspec option" where
  "kernel_armed k i =
     (case sk_timers k i of
        None \<Rightarrow> None
      | Some (p, x) \<Rightarrow> if it_value x = timespec_zero then None else Some x)"

definition kernel_expire :: "kernel \<Rightarrow> nat \<Rightarrow> kernel" where
  "kernel_expire k i =
     (case sk_timers k i of
        None \<Rightarrow> k
      | Some (p, x) \<Rightarrow>
          if it_value x = timespec_zero then k
          else k\<lparr>sk_timers := (sk_timers k)(i \<mapsto>
                   (p, if it_interval x = timespec_zero then x\<lparr>it_value := timespec_zero\<rparr> else x)),
                 sk_pending := (if (i, p) \<in> set (sk_pending k) then sk_pending k else sk_pending k @ [(i, p)])\<rparr>)"

definition kernel_posix :: "bool \<Rightarrow> kernel posix" where
  "kernel_posix purge =
     \<lparr>timer_create = kernel_create, timer_settime = kernel_settime,
      timer_delete = kernel_delete purge, sigtimedwait = kernel_wait,
      sigemptyset = (\<lambda>k. (True, k)), sigaddset = (\<lambda>k. (True, k)),
      sigprocmask = (\<lambda>k. (True, k)), pthread_sigmask = (\<lambda>k. (True, k))\<rparr>"

definition kernel_live :: "kernel \<Rightarrow> nat \<Rightarrow> addr option" where
  "kernel_live k i = map_option fst (sk_timers k i)"

lemma kernel_timers:
  "posix_timers (kernel_posix purge) kernel_expire kernel_live kernel_armed sk_pending"
  by unfold_locales
    (auto simp: kernel_posix_def kernel_create_def kernel_settime_def kernel_delete_def
      kernel_wait_def kernel_armed_def kernel_expire_def kernel_live_def disarmed_def fun_eq_iff Let_def
      split: option.splits if_splits list.splits)

interpretation keeping:
  posix_timers "kernel_posix False" kernel_expire kernel_live kernel_armed sk_pending
  by (rule kernel_timers)

interpretation purging:
  posix_timers "kernel_posix True" kernel_expire kernel_live kernel_armed sk_pending
  by (rule kernel_timers)

end
