(* ===== verification/TimerSystem.thy ===== *)
theory TimerSystem
  imports PosixTimers SystemSpec
begin

text \<open>
  The program with timers: mailbox calls, \<^verbatim>\<open>StartTimer\<close> and \<^verbatim>\<open>CancelTimer\<close>, rounds of the signal
  thread and expiring timers in any order, and the invariant that ties the \<^verbatim>\<open>m_timers\<close> array, the
  \<^verbatim>\<open>Timer\<close> objects and the kernel's timers together.
\<close>

section \<open>Calls and events\<close>

datatype tcall =
    T_Mail call
  | T_Start label timespec TimerType
  | T_Cancel label
  | T_Signal
  | T_Expire nat

fun tsys_exec ::
  "'k posix \<Rightarrow> ('k \<Rightarrow> nat \<Rightarrow> 'k) \<Rightarrow> 'r lib \<Rightarrow> tcall \<Rightarrow> ('r, 'k) tsys \<Rightarrow>
    (fault + bool) \<times> ('r, 'k) tsys" where
  "tsys_exec px expire lib (T_Mail c) s =
     (case sys_exec lib c (t_sys s) of
        Inl e \<Rightarrow> (Inl e, s) | Inr (ok, y) \<Rightarrow> (Inr ok, s\<lparr>t_sys := y\<rparr>))"
| "tsys_exec px expire lib (T_Start l time type) s = TimerManager_StartTimer_timespec px l time type s"
| "tsys_exec px expire lib (T_Cancel l) s = TimerManager_CancelTimer px l s"
| "tsys_exec px expire lib T_Signal s =
     (case HandleSignals_step px s of
        (Inl e, s) \<Rightarrow> (Inl e, s) | (Inr _, s) \<Rightarrow> (Inr True, s))"
| "tsys_exec px expire lib (T_Expire i) s = (Inr True, s\<lparr>t_kernel := expire (t_kernel s) i\<rparr>)"

text \<open>A program that stops at the first fault or exception.\<close>

fun tsys_run ::
  "'k posix \<Rightarrow> ('k \<Rightarrow> nat \<Rightarrow> 'k) \<Rightarrow> 'r lib \<Rightarrow> tcall list \<Rightarrow> ('r, 'k) tsys \<Rightarrow>
    (fault + bool list) \<times> ('r, 'k) tsys" where
  "tsys_run px expire lib [] s = (Inr [], s)"
| "tsys_run px expire lib (c # cs) s =
     (case tsys_exec px expire lib c s of
        (Inl e, s) \<Rightarrow> (Inl e, s)
      | (Inr ok, s) \<Rightarrow>
          (case tsys_run px expire lib cs s of
             (Inl e, s) \<Rightarrow> (Inl e, s) | (Inr oks, s) \<Rightarrow> (Inr (ok # oks), s)))"

text \<open>
  The discipline: that of the mailboxes, times that \<^verbatim>\<open>timer_settime\<close> accepts, and no \<^verbatim>\<open>CancelTimer\<close> for
  a timer that has expired and whose signal is still pending, or taken by the signal thread and not
  handled. A program can not know the last; what becomes of programs that break it is shown too.
\<close>

fun tcall_valid :: "tcall \<Rightarrow> ('r, 'k) tsys \<Rightarrow> bool" where
  "tcall_valid (T_Mail c) s \<longleftrightarrow> call_ok c (t_sys s)"
| "tcall_valid (T_Start l time type) s \<longleftrightarrow> valid_timespec time"
| "tcall_valid _ s \<longleftrightarrow> True"

definition in_flight :: "('r, 'k) tsys \<Rightarrow> label option" where
  "in_flight s = (case t_taken s of None \<Rightarrow> None | Some p \<Rightarrow> map_option tm_label (t_objs s p))"

text \<open>The addresses that a signal carries which is pending or taken; those that dangle.\<close>

definition signalled :: "('k \<Rightarrow> (nat \<times> addr) list) \<Rightarrow> ('r, 'k) tsys \<Rightarrow> addr set" where
  "signalled pending s = set_option (t_taken s) \<union> snd ` set (pending (t_kernel s))"

definition stale :: "('k \<Rightarrow> (nat \<times> addr) list) \<Rightarrow> ('r, 'k) tsys \<Rightarrow> addr set" where
  "stale pending s = {p \<in> signalled pending s. t_objs s p = None}"

definition awaits_signal :: "('k \<Rightarrow> (nat \<times> addr) list) \<Rightarrow> label \<Rightarrow> ('r, 'k) tsys \<Rightarrow> bool" where
  "awaits_signal pending l s \<longleftrightarrow>
     (\<exists>p \<in> signalled pending s. map_option tm_label (t_objs s p) = Some l)"

definition tcall_ok :: "('k \<Rightarrow> (nat \<times> addr) list) \<Rightarrow> tcall \<Rightarrow> ('r, 'k) tsys \<Rightarrow> bool" where
  "tcall_ok pending c s \<longleftrightarrow> tcall_valid c s \<and> (\<forall>l. c = T_Cancel l \<longrightarrow> \<not> awaits_signal pending l s)"

lemma tcall_ok_simps [simp]:
  "tcall_ok pending (T_Mail m) s \<longleftrightarrow> call_ok m (t_sys s)"
  "tcall_ok pending (T_Start l time type) s \<longleftrightarrow> valid_timespec time"
  "tcall_ok pending (T_Cancel l) s \<longleftrightarrow> \<not> awaits_signal pending l s" "tcall_ok pending T_Signal s"
  "tcall_ok pending (T_Expire i) s"
  by (simp_all add: tcall_ok_def)

lemma signalled_iff: "p \<in> signalled pending s \<longleftrightarrow> t_taken s = Some p \<or> (\<exists>i. (i, p) \<in> set (pending (t_kernel s)))"
  by (cases "t_taken s") (force simp: signalled_def)+

lemma stale_iff:
  "p \<in> stale pending s \<longleftrightarrow> (t_taken s = Some p \<or> (\<exists>i. (i, p) \<in> set (pending (t_kernel s)))) \<and> t_objs s p = None"
  by (auto simp: stale_def signalled_iff)

section \<open>The invariant\<close>

text \<open>
  A slot that is not null points to a live \<^verbatim>\<open>Timer\<close> of its label, whose POSIX timer carries its
  address; an armed timer belongs to a live object; objects lie in the part of the buffer already
  used, and so do those a pending signal or the signal thread points to, alive or not. A one-shot
  timer is armed, or its signal is pending, or taken: never two of them.
\<close>

definition buffer_inv :: "TimerResources \<Rightarrow> bool" where
  "buffer_inv tr \<longleftrightarrow> 0 < mb_cur (tr_buffer tr) \<and> (\<forall>l. tr_timers tr l < mb_cur (tr_buffer tr))"

definition slots_inv ::
  "('k \<Rightarrow> nat \<Rightarrow> addr option) \<Rightarrow> TimerResources \<Rightarrow> (addr \<Rightarrow> Timer option) \<Rightarrow> 'k \<Rightarrow> bool" where
  "slots_inv live tr objs k \<longleftrightarrow> (\<forall>l. tr_timers tr l \<noteq> nullptr \<longrightarrow>
     (\<exists>tm. objs (tr_timers tr l) = Some tm \<and> tm_label tm = l \<and>
        live k (tm_timer tm) = Some (tr_timers tr l)))"

definition objs_inv :: "TimerResources \<Rightarrow> (addr \<Rightarrow> Timer option) \<Rightarrow> bool" where
  "objs_inv tr objs \<longleftrightarrow>
     (\<forall>p tm. objs p = Some tm \<longrightarrow> p \<noteq> nullptr \<and> tr_timers tr (tm_label tm) = p)"

definition armed_inv ::
  "('k \<Rightarrow> nat \<Rightarrow> addr option) \<Rightarrow> ('k \<Rightarrow> nat \<Rightarrow> itimerspec option) \<Rightarrow>
    (addr \<Rightarrow> Timer option) \<Rightarrow> 'k \<Rightarrow> bool" where
  "armed_inv live armed objs k \<longleftrightarrow> (\<forall>i x. armed k i = Some x \<longrightarrow>
     (\<exists>p tm. live k i = Some p \<and> objs p = Some tm \<and> tm_timer tm = i \<and> x = tm_spec tm))"

definition pending_inv ::
  "('k \<Rightarrow> (nat \<times> addr) list) \<Rightarrow> TimerResources \<Rightarrow> (addr \<Rightarrow> Timer option) \<Rightarrow> 'k \<Rightarrow> bool" where
  "pending_inv pending tr objs k \<longleftrightarrow> distinct (pending k) \<and>
     (\<forall>i p. (i, p) \<in> set (pending k) \<longrightarrow>
        p < mb_cur (tr_buffer tr) \<and> (\<forall>tm. objs p = Some tm \<longrightarrow> tm_timer tm = i))"

definition timer_inv ::
  "('k \<Rightarrow> nat \<Rightarrow> addr option) \<Rightarrow> ('k \<Rightarrow> nat \<Rightarrow> itimerspec option) \<Rightarrow> ('k \<Rightarrow> (nat \<times> addr) list) \<Rightarrow>
    TimerResources \<Rightarrow> (addr \<Rightarrow> Timer option) \<Rightarrow> 'k \<Rightarrow> bool" where
  "timer_inv live armed pending tr objs k \<longleftrightarrow>
     buffer_inv tr \<and> slots_inv live tr objs k \<and> objs_inv tr objs \<and>
     armed_inv live armed objs k \<and> pending_inv pending tr objs k"

definition once_inv ::
  "('k \<Rightarrow> nat \<Rightarrow> itimerspec option) \<Rightarrow> ('k \<Rightarrow> (nat \<times> addr) list) \<Rightarrow>
    TimerResources \<Rightarrow> (addr \<Rightarrow> Timer option) \<Rightarrow> 'k \<Rightarrow> addr option \<Rightarrow> bool" where
  "once_inv armed pending tr objs k taken \<longleftrightarrow>
     (\<forall>p. taken = Some p \<longrightarrow> p < mb_cur (tr_buffer tr)) \<and>
     (\<forall>p tm. objs p = Some tm \<longrightarrow> tm_type tm = ONE_SHOT \<longrightarrow>
        it_interval (tm_spec tm) = timespec_zero \<and>
        (armed k (tm_timer tm) \<noteq> None \<longrightarrow> taken \<noteq> Some p \<and> (tm_timer tm, p) \<notin> set (pending k)) \<and>
        (taken = Some p \<longrightarrow> (tm_timer tm, p) \<notin> set (pending k)))"

lemma timer_invD:
  assumes "timer_inv live armed pending tr objs k"
  shows "0 < mb_cur (tr_buffer tr)" "tr_timers tr l < mb_cur (tr_buffer tr)"
    "tr_timers tr l \<noteq> nullptr \<Longrightarrow> \<exists>tm. objs (tr_timers tr l) = Some tm \<and> tm_label tm = l \<and>
       live k (tm_timer tm) = Some (tr_timers tr l)"
    "objs p = Some tm \<Longrightarrow> p \<noteq> nullptr \<and> tr_timers tr (tm_label tm) = p"
    "armed k i = Some x \<Longrightarrow> \<exists>p tm. live k i = Some p \<and> objs p = Some tm \<and> tm_timer tm = i \<and>
       x = tm_spec tm"
    "(i, p) \<in> set (pending k) \<Longrightarrow> objs p = Some tm \<Longrightarrow> tm_timer tm = i"
    "(i, p) \<in> set (pending k) \<Longrightarrow> p < mb_cur (tr_buffer tr)" "distinct (pending k)"
proof -
  from assms have c: "buffer_inv tr" "slots_inv live tr objs k" "objs_inv tr objs"
      "armed_inv live armed objs k" "pending_inv pending tr objs k"
    unfolding timer_inv_def by blast+
  show "0 < mb_cur (tr_buffer tr)" "tr_timers tr l < mb_cur (tr_buffer tr)"
    using c(1) by (simp_all add: buffer_inv_def)
  show "\<exists>tm. objs (tr_timers tr l) = Some tm \<and> tm_label tm = l \<and>
      live k (tm_timer tm) = Some (tr_timers tr l)" if "tr_timers tr l \<noteq> nullptr"
    using c(2) that unfolding slots_inv_def by blast
  show "p \<noteq> nullptr \<and> tr_timers tr (tm_label tm) = p" if "objs p = Some tm"
    using c(3) that unfolding objs_inv_def by blast
  show "\<exists>p tm. live k i = Some p \<and> objs p = Some tm \<and> tm_timer tm = i \<and> x = tm_spec tm"
    if "armed k i = Some x"
    using c(4) that unfolding armed_inv_def by blast
  show "tm_timer tm = i" if "(i, p) \<in> set (pending k)" "objs p = Some tm"
    using c(5) that unfolding pending_inv_def by blast
  show "p < mb_cur (tr_buffer tr)" if "(i, p) \<in> set (pending k)"
    using c(5) that unfolding pending_inv_def by blast
  show "distinct (pending k)" using c(5) unfolding pending_inv_def by blast
qed

lemma timer_invI:
  assumes "0 < mb_cur (tr_buffer tr)" "\<And>l. tr_timers tr l < mb_cur (tr_buffer tr)"
    and "\<And>l. tr_timers tr l \<noteq> nullptr \<Longrightarrow> \<exists>tm. objs (tr_timers tr l) = Some tm \<and> tm_label tm = l \<and>
       live k (tm_timer tm) = Some (tr_timers tr l)"
    and "\<And>p tm. objs p = Some tm \<Longrightarrow> p \<noteq> nullptr \<and> tr_timers tr (tm_label tm) = p"
    and "\<And>i x. armed k i = Some x \<Longrightarrow> \<exists>p tm. live k i = Some p \<and> objs p = Some tm \<and>
       tm_timer tm = i \<and> x = tm_spec tm"
    and "\<And>i p tm. (i, p) \<in> set (pending k) \<Longrightarrow> objs p = Some tm \<Longrightarrow> tm_timer tm = i"
    and "\<And>i p. (i, p) \<in> set (pending k) \<Longrightarrow> p < mb_cur (tr_buffer tr)"
    and "distinct (pending k)"
  shows "timer_inv live armed pending tr objs k"
proof -
  have "buffer_inv tr" using assms(1,2) by (simp add: buffer_inv_def)
  moreover have "slots_inv live tr objs k" unfolding slots_inv_def by (intro allI impI) (rule assms(3))
  moreover have "objs_inv tr objs" unfolding objs_inv_def by (intro allI impI) (rule assms(4))
  moreover have "armed_inv live armed objs k" unfolding armed_inv_def by (intro allI impI) (rule assms(5))
  moreover have "pending_inv pending tr objs k" unfolding pending_inv_def using assms(6-8) by blast
  ultimately show ?thesis by (simp add: timer_inv_def)
qed

lemma once_invD:
  assumes "once_inv armed pending tr objs k taken"
  shows "taken = Some p \<Longrightarrow> p < mb_cur (tr_buffer tr)"
    "objs p = Some tm \<Longrightarrow> tm_type tm = ONE_SHOT \<Longrightarrow> it_interval (tm_spec tm) = timespec_zero"
    "objs p = Some tm \<Longrightarrow> tm_type tm = ONE_SHOT \<Longrightarrow> armed k (tm_timer tm) = Some x \<Longrightarrow>
       taken \<noteq> Some p \<and> (tm_timer tm, p) \<notin> set (pending k)"
    "objs p = Some tm \<Longrightarrow> tm_type tm = ONE_SHOT \<Longrightarrow> taken = Some p \<Longrightarrow> (tm_timer tm, p) \<notin> set (pending k)"
  using assms unfolding once_inv_def by auto

lemma once_invI:
  assumes "\<And>p. taken = Some p \<Longrightarrow> p < mb_cur (tr_buffer tr)"
    and "\<And>p tm. objs p = Some tm \<Longrightarrow> tm_type tm = ONE_SHOT \<Longrightarrow> it_interval (tm_spec tm) = timespec_zero"
    and "\<And>p tm x. objs p = Some tm \<Longrightarrow> tm_type tm = ONE_SHOT \<Longrightarrow> armed k (tm_timer tm) = Some x \<Longrightarrow>
       taken \<noteq> Some p \<and> (tm_timer tm, p) \<notin> set (pending k)"
    and "\<And>p tm. objs p = Some tm \<Longrightarrow> tm_type tm = ONE_SHOT \<Longrightarrow> taken = Some p \<Longrightarrow>
       (tm_timer tm, p) \<notin> set (pending k)"
  shows "once_inv armed pending tr objs k taken"
  using assms unfolding once_inv_def by blast

text \<open>Fewer objects, running timers and signals.\<close>

lemma once_inv_less:
  assumes "once_inv armed pending tr objs k taken" and "mb_cur (tr_buffer tr) \<le> mb_cur (tr_buffer tr')"
    and "\<And>p tm. objs' p = Some tm \<Longrightarrow> objs p = Some tm" and "taken' = taken \<or> taken' = None"
    and "\<And>i x. armed k' i = Some x \<Longrightarrow> armed k i = Some x" and "set (pending k') \<subseteq> set (pending k)"
  shows "once_inv armed pending tr' objs' k' taken'"
proof -
  note d = once_invD [OF assms(1)]
  show ?thesis
  proof (rule once_invI)
    show "p < mb_cur (tr_buffer tr')" if "taken' = Some p" for p
      using d(1) [of p] that assms(2,4) by auto
    show "it_interval (tm_spec tm) = timespec_zero" if "objs' p = Some tm" "tm_type tm = ONE_SHOT" for p tm
      using d(2) [OF assms(3) [OF that(1)] that(2)] .
    show "taken' \<noteq> Some p \<and> (tm_timer tm, p) \<notin> set (pending k')"
      if "objs' p = Some tm" "tm_type tm = ONE_SHOT" "armed k' (tm_timer tm) = Some x" for p tm x
      using d(3) [OF assms(3) [OF that(1)] that(2) assms(5) [OF that(3)]] assms(4,6) by auto
    show "(tm_timer tm, p) \<notin> set (pending k')"
      if "objs' p = Some tm" "tm_type tm = ONE_SHOT" "taken' = Some p" for p tm
      using d(4) [OF assms(3) [OF that(1)] that(2)] that(3) assms(4,6) by auto
  qed
qed

lemma timer_inv_live:
  assumes "timer_inv live armed pending tr objs k" and "objs p = Some tm"
  shows "live k (tm_timer tm) = Some p"
proof -
  have "tr_timers tr (tm_label tm) \<noteq> nullptr" "tr_timers tr (tm_label tm) = p"
    using timer_invD(4) [OF assms] by auto
  with timer_invD(3) [OF assms(1) this(1)] assms(2) show ?thesis by auto
qed

text \<open>Two objects have different POSIX timers.\<close>

lemma timer_inv_inj:
  assumes "timer_inv live armed pending tr objs k" and "objs p = Some tm" and "objs q = Some tm'"
    and "tm_timer tm = tm_timer tm'"
  shows "p = q"
  using timer_inv_live [OF assms(1,2)] timer_inv_live [OF assms(1,3)] assms(4) by simp

text \<open>The kernel's view unchanged.\<close>

lemma timer_inv_kernel:
  "timer_inv live armed pending tr objs k \<Longrightarrow> live k' = live k \<Longrightarrow> armed k' = armed k \<Longrightarrow>
     set (pending k') \<subseteq> set (pending k) \<Longrightarrow> distinct (pending k') \<Longrightarrow> timer_inv live armed pending tr objs k'"
  unfolding timer_inv_def slots_inv_def armed_inv_def pending_inv_def subset_iff by simp blast

lemma valid_zero [simp]: "valid_timespec timespec_zero"
  by (simp add: valid_timespec_def timespec_zero_def NANO_def)

lemma monotonic_deallocate [simp]: "do_deallocate monotonic_pmr b p n a = (True, b)"
  by (simp add: monotonic_pmr_def)

section \<open>Cancelling\<close>

context posix_timers begin

lemma cancel_destroy:
  assumes "live k (tm_timer tm) = Some p"
  obtains tm' k' where "Timer_cancel px tm k = (tm', k')" "tm_timer tm' = tm_timer tm"
    "live (Timer_destroy px tm' k') = (live k)(tm_timer tm := None)"
    "armed (Timer_destroy px tm' k') = (armed k)(tm_timer tm := None)"
    "pending (Timer_destroy px tm' k') \<in> {pending k, removeAll (tm_timer tm, p) (pending k)}"
proof -
  from settime_valid [OF assms, of "\<lparr>it_interval = timespec_zero, it_value = timespec_zero\<rparr>"]
  obtain old k1 where 1: "timer_settime px k (tm_timer tm)
        \<lparr>it_interval = timespec_zero, it_value = timespec_zero\<rparr> = (True, old, k1)"
      "live k1 = live k" "armed k1 = (armed k)(tm_timer tm := None)"
      "pending k1 \<in> {pending k, removeAll (tm_timer tm, p) (pending k)}"
    by auto
  have "live k1 (tm_timer tm) = Some p" using 1(2) assms by simp
  from delete_live [OF this] show thesis
    using 1 by (intro that [of "tm\<lparr>tm_spec := old\<rparr>" k1]) (auto simp: Timer_cancel_def Timer_destroy_def)
qed

lemma cancel_spec:
  assumes tr: "td_resources (t_data s) = Some tr"
    and inv: "timer_inv live armed pending tr (t_objs s) (t_kernel s)"
    and slot: "tr_timers tr l = p" "p \<noteq> nullptr" and tm: "t_objs s p = Some tm"
  obtains k' tr' where
    "TimerManagerData_cancelTimer px l s =
       (Inr True, set_resources tr' (s\<lparr>t_kernel := k', t_objs := (t_objs s)(p := None)\<rparr>))"
    "timer_inv live armed pending tr' ((t_objs s)(p := None)) k'"
    "tr_timers tr' = (tr_timers tr)(l := nullptr)" "tr_buffer tr' = tr_buffer tr"
    "tr_shutdown tr' = tr_shutdown tr"
    "live k' = (live (t_kernel s))(tm_timer tm := None)"
    "armed k' = (armed (t_kernel s))(tm_timer tm := None)"
    "pending k' \<in> {pending (t_kernel s), removeAll (tm_timer tm, p) (pending (t_kernel s))}"
proof -
  let ?k = "t_kernel s"
  note d = timer_invD [OF inv]
  have lab: "tr_timers tr (tm_label tm) = p" using d(4) [OF tm] by simp
  have l: "tm_label tm = l" using d(3) [of l] slot tm by auto
  have lv: "live ?k (tm_timer tm) = Some p" by (rule timer_inv_live [OF inv tm])
  from cancel_destroy [OF lv] obtain tm' k1 where 1:
      "Timer_cancel px tm ?k = (tm', k1)" "tm_timer tm' = tm_timer tm"
      "live (Timer_destroy px tm' k1) = (live ?k)(tm_timer tm := None)"
      "armed (Timer_destroy px tm' k1) = (armed ?k)(tm_timer tm := None)"
      "pending (Timer_destroy px tm' k1) \<in> {pending ?k, removeAll (tm_timer tm, p) (pending ?k)}"
    by blast
  define k' where "k' = Timer_destroy px tm' k1"
  define tr' where "tr' = tr\<lparr>tr_timers := (tr_timers tr)(l := nullptr)\<rparr>"
  have pend: "set (pending k') \<subseteq> set (pending ?k)" "distinct (pending k')"
    using 1(5) d(8) by (auto simp: k'_def distinct_removeAll)
  have other: "q \<noteq> p" if "t_objs s q = Some tm2" "tm_timer tm2 \<noteq> tm_timer tm" for q tm2
    using that tm by auto
  have "timer_inv live armed pending tr' ((t_objs s)(p := None)) k'"
  proof (rule timer_invI, goal_cases)
    case (3 l')
    then have "tr_timers tr l' \<noteq> nullptr" "l' \<noteq> l" by (auto simp: tr'_def split: if_splits)
    from d(3) [OF this(1)] obtain tm2 where 2: "t_objs s (tr_timers tr l') = Some tm2"
        "tm_label tm2 = l'" "live ?k (tm_timer tm2) = Some (tr_timers tr l')"
      by blast
    have "tr_timers tr l' \<noteq> p" using 2 tm l \<open>l' \<noteq> l\<close> by auto
    moreover from this 2 lv have "tm_timer tm2 \<noteq> tm_timer tm" by auto
    ultimately show ?case using 2 1(3) \<open>l' \<noteq> l\<close> by (auto simp: tr'_def k'_def)
  next
    case (4 q tm2)
    then have "t_objs s q = Some tm2" "q \<noteq> p" by (auto split: if_splits)
    with d(4) [OF this(1)] slot show ?case by (auto simp: tr'_def)
  next
    case (5 i x)
    then have i: "armed ?k i = Some x" "i \<noteq> tm_timer tm" using 1(4) by (auto simp: k'_def split: if_splits)
    from d(5) [OF i(1)] obtain q tm2 where 2: "live ?k i = Some q" "t_objs s q = Some tm2"
        "tm_timer tm2 = i" "x = tm_spec tm2"
      by blast
    with i other [OF 2(2)] 1(3) show ?case by (auto simp: k'_def)
  next
    case (6 i q tm2)
    then show ?case using pend(1) d(6) [of i q] by (auto split: if_splits)
  next
    case (7 i q)
    then show ?case using pend(1) d(7) [of i q] by (auto simp: tr'_def)
  qed (use d(1,2) pend in \<open>simp_all add: tr'_def\<close>)
  then show thesis
    using 1 tr slot tm
    by (intro that [of tr' k'])
      (simp_all add: TimerManagerData_cancelTimer_def k'_def tr'_def)
qed

end

section \<open>Starting\<close>

lemma set_resources_simps [simp]:
  "t_sys (set_resources tr s) = t_sys s" "t_kernel (set_resources tr s) = t_kernel s"
  "t_objs (set_resources tr s) = t_objs s" "td_resources (t_data (set_resources tr s)) = Some tr"
  by (simp_all add: set_resources_def)

lemma monotonic_timer:
  assumes "monotonic_allocate b SIZEOF_TIMER ALIGNOF_TIMER = (Some p, b')"
  shows "mb_cur b \<le> p" "mb_cur b' = p + 136" "mb_end b' = mb_end b" "p + 136 \<le> mb_end b"
  using assms by (auto simp: monotonic_allocate_def SIZEOF_TIMER_def Let_def split: if_splits)

lemma monotonic_full:
  assumes "monotonic_allocate b SIZEOF_TIMER ALIGNOF_TIMER = (None, b')"
  shows "mb_end b < mb_cur b + 143"
proof -
  have "align_up 8 (mb_cur b) \<le> mb_cur b + 7" by (simp add: align_up_def)
  then show ?thesis using assms
    by (auto simp: monotonic_allocate_def SIZEOF_TIMER_def ALIGNOF_TIMER_def Let_def max_def not_le
        split: if_splits intro: less_le_trans)
qed

definition timer_spec :: "timespec \<Rightarrow> TimerType \<Rightarrow> itimerspec" where
  "timer_spec time type =
     \<lparr>it_interval = (case type of PERIODIC \<Rightarrow> time | ONE_SHOT \<Rightarrow> timespec_zero), it_value = time\<rparr>"

lemma Timer_new_eq:
  "Timer_new px this l time type k =
     (case timer_create px k this of
        (None, k) \<Rightarrow> (Inl (Runtime_Error ''Couldn't create timer''), k)
      | (Some i, k) \<Rightarrow>
          (case timer_settime px k i (timer_spec time type) of
             (False, _, k) \<Rightarrow> (Inl (Runtime_Error ''Couldn't start timer''), k)
           | (True, _, k) \<Rightarrow> (Inr \<lparr>tm_label = l, tm_timer = i, tm_type = type,
                                tm_spec = timer_spec time type\<rparr>, k)))"
proof -
  have "(case type of
       PERIODIC \<Rightarrow> \<lparr>it_interval = time, it_value = time\<rparr>
     | ONE_SHOT \<Rightarrow> \<lparr>it_interval = timespec_zero, it_value = time\<rparr>) = timer_spec time type"
    by (cases type) (simp_all add: timer_spec_def)
  then show ?thesis by (simp only: Timer_new_def Let_def)
qed

context posix_timers begin

lemma Timer_new_spec:
  assumes "valid_timespec time" and fresh: "\<And>i. (i, p) \<notin> set (pending k)"
  obtains (no_timer) k' where
      "Timer_new px p l time type k = (Inl (Runtime_Error ''Couldn't create timer''), k')"
    | (created) i k' where
      "Timer_new px p l time type k =
         (Inr \<lparr>tm_label = l, tm_timer = i, tm_type = type, tm_spec = timer_spec time type\<rparr>, k')"
      "live k i = None" "live k' = (live k)(i \<mapsto> p)"
      "armed k' = (armed k)(i := if time = timespec_zero then None else Some (timer_spec time type))"
      "pending k' = pending k"
proof (cases "timer_create px k p")
  case (Pair x k1)
  show thesis
  proof (cases x)
    case None
    then show thesis using Pair by (intro no_timer) (simp add: Timer_new_eq)
  next
    case (Some i)
    from create_some [OF Pair [unfolded Some]] have 1: "live k i = None" "live k1 = (live k)(i \<mapsto> p)"
        "armed k1 = armed k" "pending k1 = pending k"
      by blast+
    have "live k1 i = Some p" using 1 by simp
    moreover have "valid_timespec (it_value (timer_spec time type))"
        "valid_timespec (it_interval (timer_spec time type))"
      using assms by (auto simp: timer_spec_def split: TimerType.splits)
    ultimately obtain old k' where 2: "timer_settime px k1 i (timer_spec time type) = (True, old, k')"
        "live k' = live k1" "armed k' = (armed k1)(i := if it_value (timer_spec time type) = timespec_zero
          then None else Some (timer_spec time type))" "pending k' \<in> {pending k1, removeAll (i, p) (pending k1)}"
      using settime_valid by blast
    have "pending k' = pending k" using 2(4) 1(4) fresh [of i] by auto
    show thesis
    proof (rule created)
      show "Timer_new px p l time type k =
         (Inr \<lparr>tm_label = l, tm_timer = i, tm_type = type, tm_spec = timer_spec time type\<rparr>, k')"
        using Pair Some 2(1) by (simp add: Timer_new_eq)
      show "armed k' = (armed k)(i := if time = timespec_zero then None else Some (timer_spec time type))"
        using 2(3) 1(3) by (simp add: timer_spec_def)
    qed (use 1 2 \<open>pending k' = pending k\<close> in simp_all)
  qed
qed

lemma timer_inv_start:
  assumes inv: "timer_inv live armed pending tr objs k"
    and new: "tr_timers tr l = nullptr" "mb_cur (tr_buffer tr) \<le> p" "mb_cur b = p + 136"
    and i: "live k i = None" "live k' = (live k)(i \<mapsto> p)" "pending k' = pending k"
    and a: "armed k' = (armed k)(i := if time = timespec_zero then None else Some spec)"
    and tm: "tm_label tm = l" "tm_timer tm = i" "tm_spec tm = spec"
  shows "timer_inv live armed pending (tr\<lparr>tr_buffer := b, tr_timers := (tr_timers tr)(l := p)\<rparr>)
    (objs(p \<mapsto> tm)) k'"
proof -
  note d = timer_invD [OF inv]
  have fresh: "objs p = None"
  proof (cases "objs p")
    case (Some tm2)
    from d(4) [OF this] d(2) [of "tm_label tm2"] new(2) show ?thesis by simp
  qed
  have old: "objs q = Some tm2 \<Longrightarrow> tm_timer tm2 \<noteq> i \<and> q \<noteq> p" for q tm2
    using timer_inv_live [OF inv, of q tm2] i(1) fresh by auto
  have unsent: "q < mb_cur (tr_buffer tr)" "q \<noteq> p" if "(j, q) \<in> set (pending k')" for j q
    using d(7) [of j q] that i(3) new(2) by auto
  show ?thesis
  proof (rule timer_invI, goal_cases)
    case (2 l')
    show ?case using d(2) [of l'] new by (simp add: less_Suc_eq_le)
  next
    case (3 l')
    show ?case
    proof (cases "l' = l")
      case False
      with 3 have "tr_timers tr l' \<noteq> nullptr" by simp
      from d(3) [OF this] old show ?thesis using False i(2) by fastforce
    qed (use tm i(2) in simp)
  next
    case (4 q tm2)
    show ?case
    proof (cases "q = p")
      case False
      with 4 have "objs q = Some tm2" by simp
      from d(4) [OF this] new(1) show ?thesis by auto
    qed (use 4 tm(1) d(1) new(2) in simp)
  next
    case (5 j x)
    show ?case
    proof (cases "j = i")
      case True
      with 5 a tm i(2) show ?thesis by (auto split: if_splits)
    next
      case False
      with 5 a have "armed k j = Some x" by simp
      from d(5) [OF this] old False i(2) show ?thesis by fastforce
    qed
  next
    case (6 j q tm2)
    then show ?case using unsent(2) [of j q] d(6) [of j q tm2] i(3) by simp
  next
    case (7 j q)
    then show ?case using unsent(1) [of j q] new(2,3) by simp
  qed (use d(1,8) new i(3) in simp_all)
qed

lemma once_inv_start:
  assumes inv: "timer_inv live armed pending tr objs k" and once: "once_inv armed pending tr objs k taken"
    and new: "mb_cur (tr_buffer tr) \<le> p" "mb_cur (tr_buffer tr) \<le> mb_cur (tr_buffer tr')"
    and i: "live k i = None" "pending k' = pending k"
    and a: "armed k' = (armed k)(i := if time = timespec_zero then None else Some (timer_spec time (tm_type tm)))"
    and tm: "tm_timer tm = i" "tm_spec tm = timer_spec time (tm_type tm)"
  shows "once_inv armed pending tr' (objs(p \<mapsto> tm)) k' taken"
proof -
  note d = timer_invD [OF inv] and e = once_invD [OF once]
  have p: "taken \<noteq> Some p" "(j, p) \<notin> set (pending k)" for j
    using e(1) [of p] d(7) [of j p] new(1) by auto
  have old: "tm_timer tm2 \<noteq> i" if "objs q = Some tm2" for q tm2
    using timer_inv_live [OF inv that] i(1) by auto
  show ?thesis
  proof (rule once_invI)
    show "q < mb_cur (tr_buffer tr')" if "taken = Some q" for q using e(1) [OF that] new(2) by simp
    fix q tm2 assume q: "(objs(p \<mapsto> tm)) q = Some tm2" "tm_type tm2 = ONE_SHOT"
    show "it_interval (tm_spec tm2) = timespec_zero"
      using e(2) [of q tm2] q tm(2) by (auto simp: timer_spec_def split: if_splits)
    show "taken \<noteq> Some q \<and> (tm_timer tm2, q) \<notin> set (pending k')"
      if "armed k' (tm_timer tm2) = Some x" for x
      using e(3) [of q tm2] q that p old [of q tm2] i(2) a by (auto split: if_splits)
    show "(tm_timer tm2, q) \<notin> set (pending k')" if "taken = Some q"
      using e(4) [of q tm2] q that p i(2) by (auto split: if_splits)
  qed
qed

text \<open>\<open>startTimer\<close> with a valid time.\<close>

lemma start_spec:
  assumes tr: "td_resources (t_data s) = Some tr"
    and inv: "timer_inv live armed pending tr (t_objs s) (t_kernel s)"
    and time: "valid_timespec time"
  obtains (taken) "tr_timers tr l \<noteq> nullptr"
        "TimerManagerData_startTimer px l time type s = (Inr False, s)"
    | (failed) e s' where "tr_timers tr l = nullptr"
        "TimerManagerData_startTimer px l time type s = (Inl e, s')"
        "e = Bad_Alloc \<and> mb_end (tr_buffer tr) < mb_cur (tr_buffer tr) + 143 \<or>
           e = Runtime_Error ''Couldn't create timer''"
    | (started) tr' p i k' where "tr_timers tr l = nullptr"
        "TimerManagerData_startTimer px l time type s =
           (Inr True, set_resources tr' (s\<lparr>t_kernel := k',
              t_objs := (t_objs s)(p \<mapsto> \<lparr>tm_label = l, tm_timer = i, tm_type = type,
                                        tm_spec = timer_spec time type\<rparr>)\<rparr>))"
        "timer_inv live armed pending tr' ((t_objs s)(p \<mapsto> \<lparr>tm_label = l, tm_timer = i, tm_type = type,
           tm_spec = timer_spec time type\<rparr>)) k'"
        "tr_timers tr' = (tr_timers tr)(l := p)" "p \<noteq> nullptr" "t_objs s p = None"
        "mb_cur (tr_buffer tr) \<le> p" "mb_cur (tr_buffer tr) + 136 \<le> mb_cur (tr_buffer tr')" "mb_end (tr_buffer tr') = mb_end (tr_buffer tr)"
        "mb_cur (tr_buffer tr') \<le> mb_end (tr_buffer tr)"
        "live (t_kernel s) i = None" "live k' = (live (t_kernel s))(i \<mapsto> p)"
        "armed k' = (armed (t_kernel s))(i := if time = timespec_zero then None else Some (timer_spec time type))"
        "pending k' = pending (t_kernel s)"
proof (cases "tr_timers tr l = nullptr")
  case False
  then show thesis using tr by (intro taken) (simp_all add: TimerManagerData_startTimer_def)
next
  case slot: True
  note d = timer_invD [OF inv]
  obtain x b where al: "monotonic_allocate (tr_buffer tr) SIZEOF_TIMER ALIGNOF_TIMER = (x, b)" by fastforce
  show thesis
  proof (cases x)
    case None
    have "mb_end (tr_buffer tr) < mb_cur (tr_buffer tr) + 143" using al None by (simp add: monotonic_full)
    then show thesis using tr slot al None
      by (intro failed [OF slot, of Bad_Alloc]) (simp_all add: TimerManagerData_startTimer_def)
  next
    case (Some p)
    note m = monotonic_timer [OF al [unfolded Some]]
    have p: "p \<noteq> nullptr" using d(1) m(1) by simp
    have fresh: "t_objs s p = None"
    proof (cases "t_objs s p")
      case (Some tm2)
      from d(4) [OF this] d(2) [of "tm_label tm2"] m(1) show ?thesis by simp
    qed
    have "(i, p) \<notin> set (pending (t_kernel s))" for i using d(7) [of i p] m(1) by auto
    with time show thesis
    proof (cases rule: Timer_new_spec [of time p "t_kernel s" l type])
      case (no_timer k')
      then show thesis using tr slot al Some
        by (intro failed [OF slot, of "Runtime_Error ''Couldn't create timer''" _]
            disjI2 refl) (simp_all add: TimerManagerData_startTimer_def)
    next
      case (created i k')
      show thesis
      proof (rule started [OF slot])
        show "TimerManagerData_startTimer px l time type s =
           (Inr True, set_resources (tr\<lparr>tr_buffer := b, tr_timers := (tr_timers tr)(l := p)\<rparr>)
             (s\<lparr>t_kernel := k', t_objs := (t_objs s)(p \<mapsto> \<lparr>tm_label = l, tm_timer = i, tm_type = type,
                tm_spec = timer_spec time type\<rparr>)\<rparr>))"
          using tr slot al Some created(1)
          by (simp add: TimerManagerData_startTimer_def set_resources_def)
        show "timer_inv live armed pending (tr\<lparr>tr_buffer := b, tr_timers := (tr_timers tr)(l := p)\<rparr>)
           ((t_objs s)(p \<mapsto> \<lparr>tm_label = l, tm_timer = i, tm_type = type,
             tm_spec = timer_spec time type\<rparr>)) k'"
          by (rule timer_inv_start [OF inv slot m(1,2) created(2,3,5,4)]) simp_all
      qed (use p fresh m created in simp_all)
    qed
  qed
qed

end

section \<open>Once initialized, always initialized\<close>

lemma md_initialized_unlock [simp]: "md_initialized (md_unlock d) = md_initialized d"
  by (simp add: md_unlock_def)

lemma md_initialized_lock: "md_lock d = Inr d' \<Longrightarrow> md_initialized d' = md_initialized d"
  by (auto simp: md_lock_def split: if_splits)

lemma Initialize_stays:
  "MailboxData_Initialize lib a b c e d = Inr (ok, d') \<Longrightarrow> md_initialized d \<Longrightarrow> md_initialized d'"
  by (auto simp: MailboxData_Initialize_def and_then_eq_Inr md_lock_def split: if_splits)

lemma RegisterForLabel_stays:
  assumes "md_initialized d" and "MailboxData_RegisterForLabel lib l m d = Inr (ok, d')"
  shows "md_initialized d'"
proof -
  have free: "\<not> md_locked d"
    using assms(2) by (auto simp: MailboxData_RegisterForLabel_def md_lock_def)
  obtain rs where rs: "md_resources d = Some rs"
  proof (cases "md_resources d")
    case None
    then have "MailboxData_RegisterForLabel lib l m d = Inl Null_Deref" using assms(1) free
      by (simp add: MailboxData_RegisterForLabel_def md_lock_def ensure_initialized_def deref_resources_def)
    then show thesis using assms(2) by simp
  qed (rule that)
  obtain x R where "Receivers_add (rs_mailboxes rs l) m = (x, R)" by fastforce
  then have "MailboxData_RegisterForLabel lib l m d = Inr (x, md_unlock (d\<lparr>md_locked := True,
      md_resources := Some (rs\<lparr>rs_mailboxes := (rs_mailboxes rs)(l := R)\<rparr>)\<rparr>))"
    using assms(1) free rs
    by (simp add: MailboxData_RegisterForLabel_def md_lock_def ensure_initialized_def deref_resources_def
        del: fun_upd_apply)
  from trans [OF sym [OF assms(2)] this] show ?thesis using assms(1) by (simp del: fun_upd_apply)
qed

lemma UnregisterForLabel_stays:
  assumes "md_initialized d" and "MailboxData_UnregisterForLabel lib l m d = Inr (ok, d')"
  shows "md_initialized d'"
proof -
  have free: "\<not> md_locked d"
    using assms(2) by (auto simp: MailboxData_UnregisterForLabel_def md_lock_def)
  obtain rs where rs: "md_resources d = Some rs"
  proof (cases "md_resources d")
    case None
    then have "MailboxData_UnregisterForLabel lib l m d = Inl Null_Deref" using assms(1) free
      by (simp add: MailboxData_UnregisterForLabel_def md_lock_def ensure_initialized_def deref_resources_def)
    then show thesis using assms(2) by simp
  qed (rule that)
  obtain x R where "Receivers_remove (rs_mailboxes rs l) m = (x, R)" by fastforce
  then have "MailboxData_UnregisterForLabel lib l m d = Inr (True, md_unlock (d\<lparr>md_locked := True,
      md_resources := Some (rs\<lparr>rs_mailboxes := (rs_mailboxes rs)(l := R)\<rparr>)\<rparr>))"
    using assms(1) free rs
    by (simp add: MailboxData_UnregisterForLabel_def md_lock_def ensure_initialized_def deref_resources_def
        del: fun_upd_apply)
  from trans [OF sym [OF assms(2)] this] show ?thesis using assms(1) by (simp del: fun_upd_apply)
qed

lemma free_stays:
  "md_initialized (MailboxData_freeSmall lib p d) = md_initialized d"
  "md_initialized (MailboxData_freeLarge lib p d) = md_initialized d"
  by (auto simp: MailboxData_freeSmall_def MailboxData_freeLarge_def split: option.splits prod.splits)

lemma signal_one_data: "signal_one l r w = Inr w' \<Longrightarrow> w_data w' = w_data w"
  by (auto simp: signal_one_def split: option.splits prod.splits)

lemma signal_loop_data: "signal_loop l rs w = Inr w' \<Longrightarrow> w_data w' = w_data w"
proof (induction rs arbitrary: w)
  case (Cons r rs)
  then obtain w1 where "signal_one l r w = Inr w1" "signal_loop l rs w1 = Inr w'"
    by (auto simp: and_then_eq_Inr)
  with Cons.IH signal_one_data show ?case by metis
qed simp

context mailbox_lib begin

lemma initialized_stays:
  assumes inv: "sys_inv owns s lost S G" and ok: "call_ok c s"
    and ex: "sys_exec lib c s = Inr (b, s')" and init: "md_initialized (w_data (s_world s))"
  shows "md_initialized (w_data (s_world s'))"
proof (cases c)
  case (Call_SendMessage l t)
  show ?thesis
  proof (cases "length t > unat (MailboxData_largeSize (w_data (s_world s)))")
    case True
    then have "Mailbox_SendMessage lib l t (s_world s) = Inr (False, s_world s)"
      using sys_invD(2) [OF inv]
      by (simp add: Mailbox_SendMessage_def md_lock_def unlock_world_def MailboxData_largeSize_def
          md_unlock_def)
    with ex init Call_SendMessage show ?thesis by auto
  next
    case False
    note i = sys_invD [OF inv]
    obtain rs where rs: "md_resources (w_data (s_world s)) = Some rs"
      using init world_invD(1) [OF i(1)] by (auto simp: data_inv_def)
    have "\<forall>m. Some m \<in> set (m_receivers (rs_mailboxes rs l)) \<longrightarrow> w_queues (s_world s) m \<noteq> None"
      using i(3) [of _ l] by (simp add: receivers_of_def rs)
    from SendMessage_spec [OF i(1) rs i(2) this, of t] False i(4) rs
    obtain r w' where "Mailbox_SendMessage lib l t (s_world s) = Inr (r, w')"
        "config (w_data w') = config (w_data (s_world s))"
      by (auto simp: MailboxData_largeSize_def)
    with config_sizes [OF this(2)] ex init Call_SendMessage show ?thesis by auto
  qed
next
  case (Call_SendSignal l)
  with ex obtain d rs w where
      "md_lock (w_data (s_world s)) = Inr d"
      "signal_loop l rs ((s_world s)\<lparr>w_data := d\<rparr>) = Inr w" "s_world s' = unlock_world w"
    by (auto simp: Mailbox_SendSignal_def and_then_eq_Inr)
  with signal_loop_data [OF this(2)] init show ?thesis
    by (simp add: unlock_world_def md_initialized_lock)
next
  case (Call_Receive m)
  with ex init show ?thesis
    by (auto simp: Mailbox_Receive_def split: option.split_asm)
next
  case (Call_Release i)
  with ex init show ?thesis
    by (auto simp: Mailbox_ReleaseMessage_def free_stays split: if_splits)
next
  case (Call_Initialize a b c d)
  with ex init show ?thesis
    by (auto simp: Mailbox_Initialize_def on_data_def and_then_eq_Inr dest: Initialize_stays)
next
  case (Call_Register m l)
  with ex init show ?thesis
    by (auto simp: Mailbox_RegisterForLabel_def on_data_def and_then_eq_Inr dest: RegisterForLabel_stays UnregisterForLabel_stays)
next
  case (Call_Unregister m l)
  with ex init show ?thesis
    by (auto simp: Mailbox_UnregisterForLabel_def on_data_def and_then_eq_Inr dest: RegisterForLabel_stays UnregisterForLabel_stays)
qed (use ex init in \<open>auto simp: Mailbox_new_def Mailbox_destroy_def\<close>)

end

section \<open>The invariant of the whole program\<close>

definition tsys_inv ::
  "('r \<Rightarrow> blocks \<Rightarrow> bool) \<Rightarrow> ('k \<Rightarrow> nat \<Rightarrow> addr option) \<Rightarrow> ('k \<Rightarrow> nat \<Rightarrow> itimerspec option) \<Rightarrow>
    ('k \<Rightarrow> (nat \<times> addr) list) \<Rightarrow> ('r, 'k) tsys \<Rightarrow> bool" where
  "tsys_inv owns live armed pending s \<longleftrightarrow>
     (\<exists>lost S G. sys_inv owns (t_sys s) lost S G) \<and>
     md_initialized (w_data (s_world (t_sys s))) \<and>
     (\<exists>tr. td_resources (t_data s) = Some tr \<and>
        timer_inv live armed pending tr (t_objs s) (t_kernel s) \<and>
        once_inv armed pending tr (t_objs s) (t_kernel s) (t_taken s))"

lemma tsys_invE:
  assumes "tsys_inv owns live armed pending s"
  obtains lost S G tr where "sys_inv owns (t_sys s) lost S G"
    "md_initialized (w_data (s_world (t_sys s)))" "td_resources (t_data s) = Some tr"
    "timer_inv live armed pending tr (t_objs s) (t_kernel s)"
    "once_inv armed pending tr (t_objs s) (t_kernel s) (t_taken s)"
  using assms by (auto simp: tsys_inv_def)

lemma tsys_invI:
  "sys_inv owns (t_sys s) lost S G \<Longrightarrow> md_initialized (w_data (s_world (t_sys s))) \<Longrightarrow>
     td_resources (t_data s) = Some tr \<Longrightarrow>
     timer_inv live armed pending tr (t_objs s) (t_kernel s) \<Longrightarrow>
     once_inv armed pending tr (t_objs s) (t_kernel s) (t_taken s) \<Longrightarrow> tsys_inv owns live armed pending s"
  by (auto simp: tsys_inv_def)

text \<open>What \<^verbatim>\<open>SendSignal\<close> does to the mailboxes of a program that keeps to the discipline.\<close>

context mailbox_lib begin

lemma signal_sys:
  assumes "sys_inv owns s lost S G" and "md_initialized (w_data (s_world s))"
  obtains w lost' S' G' where "Mailbox_SendSignal l (s_world s) = Inr (True, w)"
    "sys_inv owns (s\<lparr>s_world := w\<rparr>) lost' S' G'" "md_initialized (w_data w)"
proof -
  have ok: "call_ok (Call_SendSignal l) s" using assms(2) by simp
  from exec_good [OF assms(1) ok] obtain b s' lost' S' G' where 1:
      "sys_exec lib (Call_SendSignal l) s = Inr (b, s')" "sys_inv owns s' lost' S' G'"
    unfolding good_step_def by blast
  from 1(1) obtain w where w: "Mailbox_SendSignal l (s_world s) = Inr (b, w)" "s' = s\<lparr>s_world := w\<rparr>"
    by (auto simp: and_then_eq_Inr)
  moreover have "b" using w(1) by (auto simp: Mailbox_SendSignal_def and_then_eq_Inr)
  moreover have "md_initialized (w_data w)"
    using initialized_stays [OF assms(1) ok 1(1) assms(2)] w(2) by simp
  ultimately show thesis using 1(2) that by simp
qed

end

text \<open>The exceptions \<^verbatim>\<open>StartTimer\<close> can end in, even for a valid time.\<close>

definition out_of_timers :: "fault \<Rightarrow> bool" where
  "out_of_timers e \<longleftrightarrow> e = Bad_Alloc \<or> e = Runtime_Error ''Couldn't create timer''"

section \<open>The signal thread\<close>

lemma tsys_inv_released: "tsys_inv owns live armed pending s \<Longrightarrow> tsys_inv owns live armed pending (s\<lparr>t_taken := None\<rparr>)"
  by (auto simp: tsys_inv_def intro: once_inv_less)

lemma taken_set_resources [simp]: "t_taken (set_resources tr s) = t_taken s"
  by (simp add: set_resources_def)

context posix_timers begin

lemma event_spec:
  assumes lib: "mailbox_lib lib owns" and inv: "tsys_inv owns live armed pending s"
    and tr: "td_resources (t_data s) = Some tr" and tm: "t_objs s p = Some tm"
  obtains (handled) w s' tr' where
    "Mailbox_SendSignal (tm_label tm) (s_world (t_sys s)) = Inr (True, w)"
    "Timer_timerEvent px p s = (Inr (), s')" "t_sys s' = (t_sys s)\<lparr>s_world := w\<rparr>" "t_taken s' = t_taken s"
    "tsys_inv owns live armed pending s'" "td_resources (t_data s') = Some tr'"
    "tr_buffer tr' = tr_buffer tr" "tr_shutdown tr' = tr_shutdown tr"
    "tm_type tm = PERIODIC \<Longrightarrow> t_objs s' = t_objs s \<and> tr_timers tr' = tr_timers tr \<and> t_kernel s' = t_kernel s"
    "tm_type tm = ONE_SHOT \<Longrightarrow> t_objs s' = (t_objs s)(p := None) \<and>
       tr_timers tr' = (tr_timers tr)(tm_label tm := nullptr) \<and>
       live (t_kernel s') = (live (t_kernel s))(tm_timer tm := None) \<and>
       armed (t_kernel s') = (armed (t_kernel s))(tm_timer tm := None) \<and>
       pending (t_kernel s') \<in> {pending (t_kernel s), removeAll (tm_timer tm, p) (pending (t_kernel s))}"
proof -
  from inv obtain lost S G where i: "sys_inv owns (t_sys s) lost S G"
      "md_initialized (w_data (s_world (t_sys s)))"
      "timer_inv live armed pending tr (t_objs s) (t_kernel s)"
      "once_inv armed pending tr (t_objs s) (t_kernel s) (t_taken s)"
    using tr by (auto elim!: tsys_invE)
  from mailbox_lib.signal_sys [OF lib i(1,2)] obtain w lost' S' G' where m:
      "Mailbox_SendSignal (tm_label tm) (s_world (t_sys s)) = Inr (True, w)"
      "sys_inv owns ((t_sys s)\<lparr>s_world := w\<rparr>) lost' S' G'" "md_initialized (w_data w)"
    by blast
  define s1 where "s1 = s\<lparr>t_sys := (t_sys s)\<lparr>s_world := w\<rparr>\<rparr>"
  have s1: "t_objs s1 = t_objs s" "t_kernel s1 = t_kernel s" "t_data s1 = t_data s" "t_taken s1 = t_taken s"
      "t_sys s1 = (t_sys s)\<lparr>s_world := w\<rparr>"
    by (simp_all add: s1_def)
  show thesis
  proof (cases "tm_type tm")
    case PERIODIC
    have "Timer_timerEvent px p s = (Inr (), s1)"
      using tm m(1) PERIODIC by (simp add: Timer_timerEvent_def s1_def)
    moreover have "tsys_inv owns live armed pending s1"
      using m tr i(3,4) by (intro tsys_invI) (simp_all add: s1)
    ultimately show thesis using m(1) tr s1 PERIODIC by (intro that [of w s1 tr]) simp_all
  next
    case ONE_SHOT
    have slot: "tr_timers tr (tm_label tm) = p" "p \<noteq> nullptr"
      using timer_invD(4) [OF i(3) tm] by auto
    have tr1: "td_resources (t_data s1) = Some tr" using tr s1 by simp
    have inv2: "timer_inv live armed pending tr (t_objs s1) (t_kernel s1)" using i(3) s1 by simp
    have tm1: "t_objs s1 p = Some tm" using tm s1 by simp
    from cancel_spec [OF tr1 inv2 slot tm1] obtain k' tr' where c:
        "TimerManagerData_cancelTimer px (tm_label tm) s1 =
           (Inr True, set_resources tr' (s1\<lparr>t_kernel := k', t_objs := (t_objs s1)(p := None)\<rparr>))"
        "timer_inv live armed pending tr' ((t_objs s1)(p := None)) k'"
        "tr_timers tr' = (tr_timers tr)(tm_label tm := nullptr)" "tr_buffer tr' = tr_buffer tr"
        "tr_shutdown tr' = tr_shutdown tr"
        "live k' = (live (t_kernel s1))(tm_timer tm := None)"
        "armed k' = (armed (t_kernel s1))(tm_timer tm := None)"
        "pending k' \<in> {pending (t_kernel s1), removeAll (tm_timer tm, p) (pending (t_kernel s1))}"
      by blast
    define s2 where "s2 = set_resources tr' (s1\<lparr>t_kernel := k', t_objs := (t_objs s1)(p := None)\<rparr>)"
    have "Timer_timerEvent px p s = (Inr (), s2)"
      using tm m(1) ONE_SHOT c(1) by (simp add: Timer_timerEvent_def s1_def s2_def)
    moreover have "once_inv armed pending tr' (t_objs s2) (t_kernel s2) (t_taken s2)"
      by (rule once_inv_less [OF i(4)]) (use c in \<open>auto simp: s2_def s1 split: if_splits\<close>)
    then have "tsys_inv owns live armed pending s2"
      using m c(2) by (intro tsys_invI) (simp_all add: s2_def s1)
    ultimately show thesis
      using m(1) tr s1 c ONE_SHOT by (intro that [of w s2 tr']) (simp_all add: s2_def)
  qed
qed

text \<open>Every step of the thread.\<close>

lemma signal_spec:
  assumes lib: "mailbox_lib lib owns" and inv: "tsys_inv owns live armed pending s"
    and tr: "td_resources (t_data s) = Some tr"
  obtains (idle) k' where "t_taken s = None" "pending (t_kernel s) = []"
      "HandleSignals_step px s = (Inr (), s\<lparr>t_kernel := k', t_taken := None\<rparr>)"
      "live k' = live (t_kernel s)" "armed k' = armed (t_kernel s)" "pending k' = []"
      "tsys_inv owns live armed pending (s\<lparr>t_kernel := k', t_taken := None\<rparr>)"
    | (take) i p ps k' where "t_taken s = None" "pending (t_kernel s) = (i, p) # ps"
      "HandleSignals_step px s = (Inr (), s\<lparr>t_kernel := k', t_taken := Some p\<rparr>)"
      "live k' = live (t_kernel s)" "armed k' = armed (t_kernel s)" "pending k' = ps"
      "tsys_inv owns live armed pending (s\<lparr>t_kernel := k', t_taken := Some p\<rparr>)"
    | (handle) p tm w s' tr' where "t_taken s = Some p" "t_objs s p = Some tm"
      "Mailbox_SendSignal (tm_label tm) (s_world (t_sys s)) = Inr (True, w)"
      "HandleSignals_step px s = (Inr (), s')" "t_sys s' = (t_sys s)\<lparr>s_world := w\<rparr>" "t_taken s' = None"
      "tsys_inv owns live armed pending s'" "td_resources (t_data s') = Some tr'"
      "tr_buffer tr' = tr_buffer tr" "tr_shutdown tr' = tr_shutdown tr"
      "pending (t_kernel s') = pending (t_kernel s)"
      "tm_type tm = PERIODIC \<Longrightarrow> t_objs s' = t_objs s \<and> tr_timers tr' = tr_timers tr \<and> t_kernel s' = t_kernel s"
      "tm_type tm = ONE_SHOT \<Longrightarrow> t_objs s' = (t_objs s)(p := None) \<and>
         tr_timers tr' = (tr_timers tr)(tm_label tm := nullptr) \<and>
         live (t_kernel s') = (live (t_kernel s))(tm_timer tm := None) \<and>
         armed (t_kernel s') = (armed (t_kernel s))(tm_timer tm := None) \<and>
         (\<forall>j. (j, p) \<notin> set (pending (t_kernel s)))"
    | (dangling) p where "t_taken s = Some p" "t_objs s p = None"
      "HandleSignals_step px s = (Inl Dangling_Timer, s\<lparr>t_taken := None\<rparr>)"
proof -
  from inv obtain lost S G where i: "sys_inv owns (t_sys s) lost S G"
      "md_initialized (w_data (s_world (t_sys s)))"
      "timer_inv live armed pending tr (t_objs s) (t_kernel s)"
      "once_inv armed pending tr (t_objs s) (t_kernel s) (t_taken s)"
    using tr by (auto elim!: tsys_invE)
  note d = timer_invD [OF i(3)] and o = once_invD [OF i(4)]
  show thesis
  proof (cases "t_taken s")
    case None
    obtain x k1 where w: "sigtimedwait px (t_kernel s) = (x, k1)" by fastforce
    have kernel: "tsys_inv owns live armed pending (s\<lparr>t_kernel := k1, t_taken := t\<rparr>)"
      if "live k1 = live (t_kernel s)" "armed k1 = armed (t_kernel s)" "set (pending k1) \<subseteq> set (pending (t_kernel s))"
        "distinct (pending k1)" "once_inv armed pending tr (t_objs s) k1 t" for t
      using i tr timer_inv_kernel [OF i(3) that(1-4)] that(5) by (intro tsys_invI) simp_all
    show thesis
    proof (cases x)
      case none: None
      from wait_none [OF w [unfolded none]] have k: "pending (t_kernel s) = []"
          "live k1 = live (t_kernel s)" "armed k1 = armed (t_kernel s)" "pending k1 = pending (t_kernel s)"
        by blast+
      have "once_inv armed pending tr (t_objs s) k1 None"
        by (rule once_inv_less [OF i(4)]) (simp_all add: k)
      then show thesis using k w none None kernel by (intro idle [of k1]) (simp_all add: HandleSignals_step_def)
    next
      case (Some p)
      from wait_some [OF w [unfolded Some]] obtain j ps where k: "pending (t_kernel s) = (j, p) # ps"
          "pending k1 = ps" "live k1 = live (t_kernel s)" "armed k1 = armed (t_kernel s)"
        by blast
      have "once_inv armed pending tr (t_objs s) k1 (Some p)"
      proof (rule once_invI)
        fix q tm assume q: "t_objs s q = Some tm" "tm_type tm = ONE_SHOT"
        show "it_interval (tm_spec tm) = timespec_zero" by (rule o(2) [OF q])
        show "Some p \<noteq> Some q \<and> (tm_timer tm, q) \<notin> set (pending k1)" if "armed k1 (tm_timer tm) = Some y" for y
          using o(3) [OF q, of y] that k d(6) [of j q tm] q(1) by auto
        show "(tm_timer tm, q) \<notin> set (pending k1)" if "Some p = Some q"
          using d(6) [of j q tm] d(8) q(1) k that by auto
      qed (use d(7) [of j p] k in simp)
      then show thesis using k w Some None kernel d(8) by (intro take [of j p ps k1]) (auto simp: HandleSignals_step_def)
    qed
  next
    case (Some p)
    let ?s = "s\<lparr>t_taken := None\<rparr>"
    show thesis
    proof (cases "t_objs s p")
      case None
      then show thesis using Some by (intro dangling) (simp_all add: HandleSignals_step_def Timer_timerEvent_def)
    next
      case tm: (Some tm)
      have "tsys_inv owns live armed pending ?s" "td_resources (t_data ?s) = Some tr" "t_objs ?s p = Some tm"
        using tsys_inv_released [OF inv] tr tm by simp_all
      with lib show thesis
      proof (cases rule: event_spec)
        case (handled w s' tr')
        have once: "(j, p) \<notin> set (pending (t_kernel s))" if "tm_type tm = ONE_SHOT" for j
          using o(4) [OF tm that Some] d(6) [of j p tm] tm by auto
        then have "pending (t_kernel s') = pending (t_kernel s)"
          using handled(9,10) by (cases "tm_type tm") auto
        then show thesis using handle [of p tm w s' tr'] handled once Some tm by (simp add: HandleSignals_step_def)
      qed
    qed
  qed
qed

text \<open>A round that is not interrupted.\<close>

lemma round_spec:
  assumes lib: "mailbox_lib lib owns" and inv: "tsys_inv owns live armed pending s" "stale pending s = {}"
    and tr: "td_resources (t_data s) = Some tr" and head: "t_taken s = None"
  obtains (idle) k' where "pending (t_kernel s) = []"
      "HandleSignals_round px s = (Inr (), s\<lparr>t_kernel := k', t_taken := None\<rparr>)" "pending k' = []"
      "tsys_inv owns live armed pending (s\<lparr>t_kernel := k', t_taken := None\<rparr>)"
    | (event) i p ps tm s' tr' where
      "pending (t_kernel s) = (i, p) # ps" "t_objs s p = Some tm"
      "HandleSignals_round px s = (Inr (), s')" "t_taken s' = None"
      "tsys_inv owns live armed pending s'" "td_resources (t_data s') = Some tr'"
      "pending (t_kernel s') = ps" "tr_shutdown tr' = tr_shutdown tr" "stale pending s' = {}"
  using lib inv(1) tr
proof (cases rule: signal_spec)
  case (idle k')
  then show thesis using that(1) by (simp add: HandleSignals_round_def)
next
  case (take i p ps k')
  let ?s = "s\<lparr>t_kernel := k', t_taken := Some p\<rparr>"
  have tr1: "td_resources (t_data ?s) = Some tr" using tr by simp
  have alive: "t_objs s q \<noteq> None" if "(j, q) \<in> set (pending (t_kernel s))" for j q
    using inv(2) that by (auto simp: set_eq_iff stale_iff)
  from lib take(7) tr1 show thesis
  proof (cases rule: signal_spec)
    case (handle q tm w s' tr')
    have "t_objs s' r \<noteq> None" if "(j, r) \<in> set (pending (t_kernel s'))" for j r
      using alive [of j r] that handle take by (cases "tm_type tm") auto
    then have "stale pending s' = {}" using handle(6) by (fastforce simp: stale_iff)
    then show thesis using handle take that(2) [of i p ps tm s' tr'] by (simp add: HandleSignals_round_def)
  qed (use take alive [of i p] in simp_all)
qed (use head in simp_all)

text \<open>A timer expires.\<close>

lemma expire_inv:
  assumes inv: "tsys_inv owns live armed pending s"
  shows "tsys_inv owns live armed pending (s\<lparr>t_kernel := expire (t_kernel s) i\<rparr>)"
proof (cases "armed (t_kernel s) i")
  case None
  then show ?thesis using inv expire_idle [OF None] by simp
next
  case (Some x)
  let ?k = "t_kernel s"
  from inv obtain lost S G tr where i: "sys_inv owns (t_sys s) lost S G"
      "md_initialized (w_data (s_world (t_sys s)))" "td_resources (t_data s) = Some tr"
      "timer_inv live armed pending tr (t_objs s) ?k" "once_inv armed pending tr (t_objs s) ?k (t_taken s)"
    by (rule tsys_invE)
  note d = timer_invD [OF i(4)] and o = once_invD [OF i(5)]
  from d(5) [OF Some] obtain p tm where p: "live ?k i = Some p" "t_objs s p = Some tm" "tm_timer tm = i"
      "x = tm_spec tm"
    by blast
  note e = expire_armed [OF Some p(1)]
  have "timer_inv live armed pending tr (t_objs s) (expire ?k i)"
  proof (rule timer_invI, goal_cases)
    case (3 l)
    then show ?case using d(3) [of l] e by simp
  next
    case (4 q tm2)
    then show ?case by (rule d(4))
  next
    case (5 j y)
    have "armed ?k j = Some y"
    proof (cases "j = i")
      case True
      then show ?thesis using 5 e Some by (auto split: if_splits)
    next
      case False
      then show ?thesis using 5 e by simp
    qed
    from d(5) [OF this] show ?case using e by simp
  next
    case (6 j q tm2)
    then show ?case using d(6) [of j q tm2] e p by (auto split: if_splits)
  next
    case (7 j q)
    then show ?case using d(7) [of j q] d(4) [OF p(2)] d(2) [of "tm_label tm"] e by (auto split: if_splits)
  qed (use d(1,2,8) e in simp_all)
  moreover have "once_inv armed pending tr (t_objs s) (expire ?k i) (t_taken s)"
  proof (rule once_invI)
    fix q tm2 assume q: "t_objs s q = Some tm2" "tm_type tm2 = ONE_SHOT"
    have same: "q = p" "tm2 = tm" if "tm_timer tm2 = i"
      using timer_inv_inj [OF i(4) q(1) p(2)] p(2,3) q(1) that by auto
    show "it_interval (tm_spec tm2) = timespec_zero" by (rule o(2) [OF q])
    show "t_taken s \<noteq> Some q \<and> (tm_timer tm2, q) \<notin> set (pending (expire ?k i))"
      if "armed (expire ?k i) (tm_timer tm2) = Some y" for y
      using o(3) [OF q, of y] o(2) [OF q] that e p(4) same by (cases "tm_timer tm2 = i") (auto split: if_splits)
    show "(tm_timer tm2, q) \<notin> set (pending (expire ?k i))" if "t_taken s = Some q"
      using o(4) [OF q that] o(3) [OF q, of x] Some that e same by (cases "tm_timer tm2 = i") (auto split: if_splits)
  qed (rule o(1))
  ultimately show ?thesis using i by (intro tsys_invI) simp_all
qed

end

section \<open>Every step\<close>

text \<open>The addresses of timers that \<open>c\<close> cancels although their signal is pending or taken.\<close>

definition orphaned :: "('k \<Rightarrow> (nat \<times> addr) list) \<Rightarrow> tcall \<Rightarrow> ('r, 'k) tsys \<Rightarrow> addr set" where
  "orphaned pending c s =
     {p \<in> signalled pending s. \<exists>tm. t_objs s p = Some tm \<and> c = T_Cancel (tm_label tm)}"

lemma orphaned_ok: "tcall_ok pending c s \<Longrightarrow> orphaned pending c s = {}"
  by (auto simp: tcall_ok_def orphaned_def awaits_signal_def)

text \<open>
  A call of a program that keeps to the discipline but for the cancelled signals returns, or it is a
  \<^verbatim>\<open>StartTimer\<close> that throws, or the signal thread uses what has been cancelled since.
\<close>

context posix_timers begin

lemma start_cases:
  assumes inv: "tsys_inv owns live armed pending s" and time: "valid_timespec time"
  obtains (returns) b s' where "tsys_exec px expire lib (T_Start l time type) s = (Inr b, s')"
      "tsys_inv owns live armed pending s'" "stale pending s' \<subseteq> stale pending s"
    | (throws) e s' where "tsys_exec px expire lib (T_Start l time type) s = (Inl e, s')" "out_of_timers e"
proof -
  from inv obtain lost S G tr where i: "sys_inv owns (t_sys s) lost S G"
      "md_initialized (w_data (s_world (t_sys s)))" "td_resources (t_data s) = Some tr"
      "timer_inv live armed pending tr (t_objs s) (t_kernel s)"
      "once_inv armed pending tr (t_objs s) (t_kernel s) (t_taken s)"
    by (rule tsys_invE)
  from i(3,4) time show thesis
  proof (cases rule: start_spec [where l = l and type = type])
    case taken
    then show thesis using inv by (intro returns [of False s]) (simp_all add: TimerManager_StartTimer_timespec_def)
  next
    case (failed e s')
    then show thesis by (intro throws) (auto simp: TimerManager_StartTimer_timespec_def out_of_timers_def)
  next
    case (started tr' p j k')
    let ?tm = "\<lparr>tm_label = l, tm_timer = j, tm_type = type, tm_spec = timer_spec time type\<rparr>"
    let ?s = "set_resources tr' (s\<lparr>t_kernel := k', t_objs := (t_objs s)(p \<mapsto> ?tm)\<rparr>)"
    have "once_inv armed pending tr' ((t_objs s)(p \<mapsto> ?tm)) k' (t_taken s)"
      by (rule once_inv_start [OF i(4,5), where i = j and time = time]) (use started in simp_all)
    then have "tsys_inv owns live armed pending ?s" using i started(3) by (intro tsys_invI) simp_all
    moreover have "stale pending ?s \<subseteq> stale pending s" using started by (auto simp: stale_iff split: if_splits)
    ultimately show thesis using started(2)
      by (intro returns [of True ?s]) (simp_all add: TimerManager_StartTimer_timespec_def)
  qed
qed

lemma cancel_good:
  assumes inv: "tsys_inv owns live armed pending s"
  shows "\<exists>b s'. tsys_exec px expire lib (T_Cancel l) s = (Inr b, s') \<and> tsys_inv owns live armed pending s' \<and>
    stale pending s' \<subseteq> stale pending s \<union> orphaned pending (T_Cancel l) s"
proof -
  from inv obtain lost S G tr where i: "sys_inv owns (t_sys s) lost S G"
      "md_initialized (w_data (s_world (t_sys s)))" "td_resources (t_data s) = Some tr"
      "timer_inv live armed pending tr (t_objs s) (t_kernel s)"
      "once_inv armed pending tr (t_objs s) (t_kernel s) (t_taken s)"
    by (rule tsys_invE)
  show ?thesis
  proof (cases "tr_timers tr l = nullptr")
    case True
    then show ?thesis using inv i(3)
      by (intro exI [of _ False] exI [of _ s])
        (simp add: TimerManager_CancelTimer_def TimerManagerData_cancelTimer_def)
  next
    case False
    from timer_invD(3) [OF i(4) False] obtain tm where tm: "t_objs s (tr_timers tr l) = Some tm" "tm_label tm = l"
      by blast
    from cancel_spec [OF i(3,4) refl False tm(1)] obtain k' tr' where c:
        "TimerManagerData_cancelTimer px l s = (Inr True, set_resources tr'
           (s\<lparr>t_kernel := k', t_objs := (t_objs s)(tr_timers tr l := None)\<rparr>))"
        "timer_inv live armed pending tr' ((t_objs s)(tr_timers tr l := None)) k'" "tr_buffer tr' = tr_buffer tr"
        "armed k' = (armed (t_kernel s))(tm_timer tm := None)"
        "pending k' \<in> {pending (t_kernel s), removeAll (tm_timer tm, tr_timers tr l) (pending (t_kernel s))}"
      by blast
    let ?s = "set_resources tr' (s\<lparr>t_kernel := k', t_objs := (t_objs s)(tr_timers tr l := None)\<rparr>)"
    have "once_inv armed pending tr' (t_objs ?s) k' (t_taken s)"
      by (rule once_inv_less [OF i(5)]) (use c(3-5) in \<open>auto split: if_splits\<close>)
    then have "tsys_inv owns live armed pending ?s" using c(2) i by (intro tsys_invI) simp_all
    moreover have "stale pending ?s \<subseteq> stale pending s \<union> orphaned pending (T_Cancel l) s"
      using c(5) tm by (auto simp: stale_iff orphaned_def signalled_iff split: if_splits)
    ultimately show ?thesis using c(1)
      by (intro exI [of _ True] exI [of _ ?s]) (simp add: TimerManager_CancelTimer_def)
  qed
qed

lemma signal_cases:
  assumes lib: "mailbox_lib lib owns" and inv: "tsys_inv owns live armed pending s"
  obtains (returns) s' where "tsys_exec px expire lib T_Signal s = (Inr True, s')"
      "tsys_inv owns live armed pending s'" "stale pending s' \<subseteq> stale pending s"
    | (dangling) p where "t_taken s = Some p" "t_objs s p = None"
      "tsys_exec px expire lib T_Signal s = (Inl Dangling_Timer, s\<lparr>t_taken := None\<rparr>)"
proof -
  obtain tr where tr: "td_resources (t_data s) = Some tr" using inv by (rule tsys_invE)
  from lib inv tr show thesis
  proof (cases rule: signal_spec)
    case (idle k')
    then show thesis by (intro returns [of "s\<lparr>t_kernel := k', t_taken := None\<rparr>"]) (auto simp: stale_iff)
  next
    case (take i p ps k')
    then show thesis by (intro returns [of "s\<lparr>t_kernel := k', t_taken := Some p\<rparr>"]) (auto simp: stale_iff)
  next
    case (handle p tm w s' tr')
    have "stale pending s' \<subseteq> stale pending s"
      using handle by (cases "tm_type tm") (auto simp: stale_iff split: if_splits)
    then show thesis using handle by (intro returns [of s']) simp_all
  next
    case (dangling p)
    then show thesis using that(2) by simp
  qed
qed

lemma step_cases:
  assumes lib: "mailbox_lib lib owns" and inv: "tsys_inv owns live armed pending s"
    and ok: "tcall_valid c s"
  obtains (returns) b s' where "tsys_exec px expire lib c s = (Inr b, s')" "tsys_inv owns live armed pending s'"
      "stale pending s' \<subseteq> stale pending s \<union> orphaned pending c s"
    | (throws) e s' l time type where "c = T_Start l time type" "tsys_exec px expire lib c s = (Inl e, s')"
      "out_of_timers e"
    | (dangling) p where "c = T_Signal" "t_taken s = Some p" "t_objs s p = None"
      "tsys_exec px expire lib c s = (Inl Dangling_Timer, s\<lparr>t_taken := None\<rparr>)"
proof (cases c)
  case (T_Mail m)
  from inv obtain lost S G tr where i: "sys_inv owns (t_sys s) lost S G"
      "md_initialized (w_data (s_world (t_sys s)))" "td_resources (t_data s) = Some tr"
      "timer_inv live armed pending tr (t_objs s) (t_kernel s)"
      "once_inv armed pending tr (t_objs s) (t_kernel s) (t_taken s)"
    by (rule tsys_invE)
  have m: "call_ok m (t_sys s)" using ok T_Mail by simp
  from mailbox_lib.exec_good [OF lib i(1) m] obtain b y lost' S' G' where 1:
      "sys_exec lib m (t_sys s) = Inr (b, y)" "sys_inv owns y lost' S' G'"
    unfolding good_step_def by blast
  from mailbox_lib.initialized_stays [OF lib i(1) m 1(1) i(2)]
  have "tsys_inv owns live armed pending (s\<lparr>t_sys := y\<rparr>)"
    using 1(2) i(3-5) by (intro tsys_invI) simp_all
  then show thesis using 1(1) T_Mail by (intro returns [of b "s\<lparr>t_sys := y\<rparr>"]) (auto simp: stale_iff)
next
  case (T_Start l time type)
  then have "valid_timespec time" using ok by simp
  from inv this show thesis
    by (rule start_cases [where l = l and type = type and lib = lib]) (use returns throws T_Start in blast)+
next
  case (T_Cancel l)
  from cancel_good [OF inv, of lib l] show thesis
    by (elim exE conjE) (rule returns, use T_Cancel in auto)
next
  case T_Signal
  from lib inv show thesis
    by (rule signal_cases) (use returns dangling T_Signal in blast)+
next
  case (T_Expire n)
  have "stale pending (s\<lparr>t_kernel := expire (t_kernel s) n\<rparr>) \<subseteq> stale pending s"
  proof (cases "armed (t_kernel s) n")
    case None
    then show ?thesis using expire_idle [OF None] by simp
  next
    case (Some x)
    from inv obtain tr where "timer_inv live armed pending tr (t_objs s) (t_kernel s)" by (rule tsys_invE)
    from timer_invD(5) [OF this Some] obtain p tm where p: "live (t_kernel s) n = Some p" "t_objs s p = Some tm"
      by blast
    then show ?thesis using expire_armed [OF Some p(1)] by (auto simp: stale_iff split: if_splits)
  qed
  then show thesis using expire_inv [OF inv, of n] T_Expire
    by (intro returns [of True "s\<lparr>t_kernel := expire (t_kernel s) n\<rparr>"]) auto
qed

lemma step_good:
  assumes lib: "mailbox_lib lib owns" and inv: "tsys_inv owns live armed pending s" "stale pending s = {}"
    and ok: "tcall_ok pending c s"
  shows "(\<exists>b s'. tsys_exec px expire lib c s = (Inr b, s') \<and> tsys_inv owns live armed pending s' \<and>
      stale pending s' = {}) \<or>
    (\<exists>e s'. tsys_exec px expire lib c s = (Inl e, s') \<and> out_of_timers e \<and>
       (\<exists>l time type. c = T_Start l time type))"
proof -
  have "tcall_valid c s" using ok by (simp add: tcall_ok_def)
  from lib inv(1) this show ?thesis
  proof (cases rule: step_cases)
    case (returns b s')
    then show ?thesis using inv(2) orphaned_ok [OF ok] by auto
  next
    case (throws e s' l time type)
    then show ?thesis by blast
  next
    case (dangling p)
    then show ?thesis using inv(2) by (auto simp: set_eq_iff stale_iff)
  qed
qed

end

end
