(* ===== verification/TimerProps.thy ===== *)
theory TimerProps
  imports TimerSystem MailboxMisuse
begin

text \<open>
  The properties of the timers, for every POSIX implementation that meets the contract of theory
  PosixTimers, and what happens where the discipline or the contract ends.
\<close>

section \<open>Reachable programs\<close>

text \<open>
  After \<^verbatim>\<open>TimerManager::Initialize\<close>, with an array of timers that happens to be null (nothing
  initializes it), memory at \<open>base\<close> and no timers in the kernel; the mailboxes are initialized.
\<close>

definition tsys_new :: "'r sys \<Rightarrow> addr \<Rightarrow> 'k \<Rightarrow> ('r, 'k) tsys" where
  "tsys_new y base k =
     \<lparr>t_sys = y, t_kernel = k,
      t_data = snd (TimerManagerData_Initialize (Some (base, \<lambda>_. nullptr)) TimerManagerData_new),
      t_objs = Map.empty, t_taken = None\<rparr>"

definition tsys_init ::
  "'r lib \<Rightarrow> ('k \<Rightarrow> nat \<Rightarrow> addr option) \<Rightarrow> ('k \<Rightarrow> nat \<Rightarrow> itimerspec option) \<Rightarrow>
    ('k \<Rightarrow> (nat \<times> addr) list) \<Rightarrow> ('r, 'k) tsys \<Rightarrow> bool" where
  "tsys_init lib live armed pending s \<longleftrightarrow>
     (\<exists>y base k. reachable_sys lib y \<and> md_initialized (w_data (s_world y)) \<and> 0 < base \<and>
        live k = Map.empty \<and> armed k = Map.empty \<and> pending k = [] \<and> s = tsys_new y base k)"

definition tsys_step ::
  "'k posix \<Rightarrow> ('k \<Rightarrow> nat \<Rightarrow> 'k) \<Rightarrow> 'r lib \<Rightarrow> ('k \<Rightarrow> (nat \<times> addr) list) \<Rightarrow>
    ('r, 'k) tsys \<Rightarrow> ('r, 'k) tsys \<Rightarrow> bool" where
  "tsys_step px expire lib pending s s' \<longleftrightarrow>
     (\<exists>c b. tcall_ok pending c s \<and> tsys_exec px expire lib c s = (Inr b, s'))"

definition reachable_tsys ::
  "'k posix \<Rightarrow> ('k \<Rightarrow> nat \<Rightarrow> 'k) \<Rightarrow> 'r lib \<Rightarrow> ('k \<Rightarrow> nat \<Rightarrow> addr option) \<Rightarrow>
    ('k \<Rightarrow> nat \<Rightarrow> itimerspec option) \<Rightarrow> ('k \<Rightarrow> (nat \<times> addr) list) \<Rightarrow> ('r, 'k) tsys \<Rightarrow> bool" where
  "reachable_tsys px expire lib live armed pending =
     reach (tsys_init lib live armed pending) (tsys_step px expire lib pending)"

lemma tsys_new_resources:
  "td_resources (t_data (tsys_new y base k)) = Some (TimerResources_new base (\<lambda>_. nullptr))"
  by (simp add: tsys_new_def TimerManagerData_Initialize_def TimerManagerData_new_def)

lemma tsys_init_inv:
  assumes lib: "mailbox_lib lib owns" and init: "tsys_init lib live armed pending s"
  shows "tsys_inv owns live armed pending s"
proof -
  from init obtain y base k where 1: "reachable_sys lib y" "md_initialized (w_data (s_world y))"
      "0 < base" "live k = Map.empty" "armed k = Map.empty" "pending k = []" "s = tsys_new y base k"
    by (auto simp: tsys_init_def)
  obtain lost S G where y: "sys_inv owns y lost S G" by (rule reachable_sys_inv [OF lib 1(1)])
  have f: "t_sys s = y" "t_objs s = Map.empty" "t_kernel s = k"
    by (simp_all add: 1(7) tsys_new_def)
  have "timer_inv live armed pending (TimerResources_new base (\<lambda>_. nullptr)) (t_objs s) (t_kernel s)"
    by (rule timer_invI) (simp_all add: f 1(3-6) TimerResources_new_def monotonic_new_def)
  moreover have "once_inv armed pending (TimerResources_new base (\<lambda>_. nullptr)) (t_objs s) (t_kernel s) (t_taken s)"
    by (rule once_invI) (simp_all add: 1(7) tsys_new_def)
  ultimately show ?thesis using y 1(2) tsys_new_resources f by (intro tsys_invI) (simp_all add: 1(7))
qed

lemma reachable_tsys:
  assumes lib: "mailbox_lib lib owns" and px: "posix_timers px expire live armed pending"
    and s: "reachable_tsys px expire lib live armed pending s"
  shows "tsys_inv owns live armed pending s \<and> stale pending s = {}"
  using s unfolding reachable_tsys_def
proof (rule reach_invariant)
  show "tsys_inv owns live armed pending s \<and> stale pending s = {}" if "tsys_init lib live armed pending s" for s
    using tsys_init_inv [OF lib that] that by (auto simp: tsys_init_def tsys_new_def stale_iff)
  show "tsys_inv owns live armed pending s' \<and> stale pending s' = {}"
    if "tsys_inv owns live armed pending s \<and> stale pending s = {}" "tsys_step px expire lib pending s s'" for s s'
  proof -
    from that(2) obtain c b where c: "tcall_ok pending c s" "tsys_exec px expire lib c s = (Inr b, s')"
      by (auto simp: tsys_step_def)
    from posix_timers.step_good [OF px lib conjunct1 [OF that(1)] conjunct2 [OF that(1)] c(1)] c(2)
    show ?thesis by auto
  qed
qed

lemmas reachable_tsys_inv = reachable_tsys [THEN conjunct1]
lemmas reachable_stale = reachable_tsys [THEN conjunct2]

section \<open>A program\<close>

definition demo_timers :: "(monotonic sync_pool, kernel) tsys" where
  "demo_timers = tsys_new demo_sys 4096 (kernel_new 10)"

lemma demo_timers_reachable:
  "reachable_tsys (kernel_posix purge) kernel_expire demo_lib kernel_live kernel_armed sk_pending demo_timers"
  unfolding reachable_tsys_def
proof (rule reach_init)
  show "tsys_init demo_lib kernel_live kernel_armed sk_pending demo_timers"
    unfolding tsys_init_def demo_timers_def using demo_reachable demo_facts(1)
    by (intro exI [of _ demo_sys] exI [of _ 4096] exI [of _ "kernel_new 10"])
      (auto simp: kernel_live_def kernel_armed_def kernel_new_def)
qed

definition second :: timespec where "second = \<lparr>tv_sec = 1, tv_nsec = 0\<rparr>"

lemma second_simps [simp]: "valid_timespec second" "second \<noteq> timespec_zero"
  by (simp_all add: second_def valid_timespec_def timespec_zero_def NANO_def)

lemmas timer_run_defs =
  TimerManager_StartTimer_timespec_def TimerManagerData_startTimer_def TimerManager_CancelTimer_def
  TimerManagerData_cancelTimer_def TimerManagerData_Initialize_def TimerManagerData_new_def
  TimerResources_new_def monotonic_new_def monotonic_allocate_def align_up_def SIZEOF_TIMER_def
  ALIGNOF_TIMER_def MAX_TIMERS_def Timer_new_eq timer_spec_def Timer_cancel_def Timer_destroy_def
  HandleSignals_step_def HandleSignals_round_def Timer_timerEvent_def set_resources_def kernel_posix_def kernel_create_def
  kernel_settime_def kernel_delete_def kernel_wait_def kernel_armed_def kernel_expire_def
  kernel_new_def disarmed_def tsys_new_def demo_timers_def Let_def

section \<open>Safety\<close>

text \<open>
  C3. A program that keeps to the discipline never uses a destroyed timer or mailbox, a null pointer
  or a mutex it holds, whatever the order of its calls, the steps of the signal thread and the
  expiries, and whatever the kernel does with the signals of deleted timers: a call returns, or it is
  a \<^verbatim>\<open>StartTimer\<close> that ends in one of the two exceptions for missing memory and missing timers. The
  discipline excludes a \<^verbatim>\<open>CancelTimer\<close> for a timer whose signal is pending or taken and not handled.
\<close>
theorem timers_never_dangle:
  assumes "mailbox_lib lib owns" and "posix_timers px expire live armed pending"
    and "reachable_tsys px expire lib live armed pending s" and "tcall_ok pending c s"
  shows "(\<exists>b s'. tsys_exec px expire lib c s = (Inr b, s') \<and>
       reachable_tsys px expire lib live armed pending s') \<or>
    (\<exists>e s'. tsys_exec px expire lib c s = (Inl e, s') \<and> out_of_timers e \<and>
       (\<exists>l time type. c = T_Start l time type))"
proof -
  have next_step: "reachable_tsys px expire lib live armed pending s'"
    if "tsys_exec px expire lib c s = (Inr b, s')" for b s'
  proof -
    have "tsys_step px expire lib pending s s'" using that assms(4) by (auto simp: tsys_step_def)
    then show ?thesis using assms(3) unfolding reachable_tsys_def by (blast intro: reach_step)
  qed
  show ?thesis
    using posix_timers.step_good [OF assms(2,1) reachable_tsys_inv [OF assms(1-3)]
        reachable_stale [OF assms(1-3)] assms(4)] next_step by blast
qed

theorem timers_never_dangle_witness:
  "\<exists>b s'. tsys_exec (kernel_posix True) kernel_expire demo_lib T_Signal demo_timers = (Inr b, s')"
  using timers_never_dangle [OF demo_lib_ok purging.posix_timers_axioms
      demo_timers_reachable, of T_Signal] by auto

text \<open>
  C15. In a program that keeps to the discipline, whatever the kernel does with the signals of deleted
  timers, the array, the objects and the kernel agree: a label's slot is not null exactly if there is a
  live \<^verbatim>\<open>Timer\<close> for the label, and it points there; every running timer and every pending signal
  belongs to such an object, by the address it carries.
\<close>
theorem timers_tied_to_slots:
  assumes "mailbox_lib lib owns" and "posix_timers px expire live armed pending"
    and "reachable_tsys px expire lib live armed pending s"
  shows "\<exists>tr. td_resources (t_data s) = Some tr \<and>
    (\<forall>l. tr_timers tr l \<noteq> nullptr \<longleftrightarrow> (\<exists>p tm. t_objs s p = Some tm \<and> tm_label tm = l)) \<and>
    (\<forall>p tm. t_objs s p = Some tm \<longrightarrow> tr_timers tr (tm_label tm) = p \<and>
       live (t_kernel s) (tm_timer tm) = Some p) \<and>
    (\<forall>i x. armed (t_kernel s) i = Some x \<longrightarrow>
       (\<exists>p tm. t_objs s p = Some tm \<and> tm_timer tm = i \<and> x = tm_spec tm)) \<and>
    (\<forall>i p. (i, p) \<in> set (pending (t_kernel s)) \<longrightarrow> (\<exists>tm. t_objs s p = Some tm \<and> tm_timer tm = i))"
proof -
  obtain tr where tr: "td_resources (t_data s) = Some tr"
      "timer_inv live armed pending tr (t_objs s) (t_kernel s)"
    using reachable_tsys_inv [OF assms] by (rule tsys_invE)
  note d = timer_invD [OF tr(2)]
  have "tr_timers tr l \<noteq> nullptr \<longleftrightarrow> (\<exists>p tm. t_objs s p = Some tm \<and> tm_label tm = l)" for l
    using d(3) [of l] d(4) by blast
  moreover have "tr_timers tr (tm_label tm) = p \<and> live (t_kernel s) (tm_timer tm) = Some p"
    if "t_objs s p = Some tm" for p tm
    using d(4) [OF that] timer_inv_live [OF tr(2) that] by blast
  moreover have "\<exists>p tm. t_objs s p = Some tm \<and> tm_timer tm = i \<and> x = tm_spec tm"
    if "armed (t_kernel s) i = Some x" for i x
    using d(5) [OF that] by blast
  moreover have "\<exists>tm. t_objs s p = Some tm \<and> tm_timer tm = i" if "(i, p) \<in> set (pending (t_kernel s))" for i p
    using reachable_stale [OF assms] d(6) [OF that] that by (cases "t_objs s p") (auto simp: set_eq_iff stale_iff)
  ultimately show ?thesis using tr(1) by blast
qed

theorem timers_tied_to_slots_witness:
  "\<exists>tr. td_resources (t_data demo_timers) = Some tr \<and>
     (\<forall>l. tr_timers tr l \<noteq> nullptr \<longleftrightarrow> (\<exists>p tm. t_objs demo_timers p = Some tm \<and> tm_label tm = l))"
  using timers_tied_to_slots [OF demo_lib_ok purging.posix_timers_axioms
      demo_timers_reachable] by blast

section \<open>Firing\<close>

context posix_timers begin

lemma signal_taken:
  assumes "mailbox_lib lib owns" and inv: "tsys_inv owns live armed pending s"
    and "t_taken s = None" and "pending (t_kernel s) = (i, p) # ps"
  shows "\<exists>s1. tsys_exec px expire lib T_Signal s = (Inr True, s1) \<and> t_taken s1 = Some p \<and>
    pending (t_kernel s1) = ps \<and> t_objs s1 = t_objs s \<and> t_sys s1 = t_sys s \<and> t_data s1 = t_data s"
proof -
  obtain tr where "td_resources (t_data s) = Some tr" using inv by (rule tsys_invE)
  from assms(1) inv this show ?thesis
    by (cases rule: signal_spec) (use assms(3,4) in auto)
qed

lemma signal_handled:
  assumes "mailbox_lib lib owns" and inv: "tsys_inv owns live armed pending s" "stale pending s = {}"
    and "t_taken s = Some p"
  shows "\<exists>tm s' tr. t_objs s p = Some tm \<and> tsys_exec px expire lib T_Signal s = (Inr True, s') \<and>
    Mailbox_SendSignal (tm_label tm) (s_world (t_sys s)) = Inr (True, s_world (t_sys s')) \<and>
    t_taken s' = None \<and> td_resources (t_data s') = Some tr \<and> pending (t_kernel s') = pending (t_kernel s) \<and>
    (tm_type tm = ONE_SHOT \<longrightarrow> tr_timers tr (tm_label tm) = nullptr \<and> t_objs s' p = None \<and>
       live (t_kernel s') (tm_timer tm) = None \<and> armed (t_kernel s') (tm_timer tm) = None \<and>
       (\<forall>i. (i, p) \<notin> set (pending (t_kernel s')))) \<and>
    (tm_type tm = PERIODIC \<longrightarrow> tr_timers tr (tm_label tm) = p \<and> t_objs s' = t_objs s \<and>
       t_kernel s' = t_kernel s)"
proof -
  obtain tr where tr: "td_resources (t_data s) = Some tr"
      "timer_inv live armed pending tr (t_objs s) (t_kernel s)"
    using inv(1) by (rule tsys_invE)
  from assms(1) inv(1) tr(1) show ?thesis
  proof (cases rule: signal_spec)
    case (handle q tm w s' tr')
    then have q: "q = p" using assms(4) by simp
    have "tr_timers tr (tm_label tm) = p" using timer_invD(4) [OF tr(2) handle(2)] q by simp
    then show ?thesis using handle q
      by (intro exI [of _ tm] exI [of _ s'] exI [of _ tr']) auto
  qed (use assms(3,4) in \<open>auto simp: set_eq_iff stale_iff\<close>)
qed

end

text \<open>
  C14. The signal thread takes the first pending signal, and its next step sends the mailbox signal of
  the timer's label, whatever other threads did in between. A one-shot timer is then gone: its slot is
  free, the kernel's timer does not exist, is not running and has no signal pending, so it never fires
  again; a periodic one keeps running. This holds whatever the kernel does with the signals of
  deleted timers, in programs that keep to the discipline.
\<close>
theorem timer_fires:
  assumes "mailbox_lib lib owns" and "posix_timers px expire live armed pending"
    and "reachable_tsys px expire lib live armed pending s"
  shows "(t_taken s = None \<and> pending (t_kernel s) = (i, p) # ps \<longrightarrow>
      (\<exists>s1. tsys_exec px expire lib T_Signal s = (Inr True, s1) \<and> t_taken s1 = Some p \<and>
        pending (t_kernel s1) = ps \<and> t_objs s1 = t_objs s \<and> t_sys s1 = t_sys s \<and> t_data s1 = t_data s)) \<and>
    (t_taken s = Some p \<longrightarrow>
      (\<exists>tm s' tr. t_objs s p = Some tm \<and> tsys_exec px expire lib T_Signal s = (Inr True, s') \<and>
        Mailbox_SendSignal (tm_label tm) (s_world (t_sys s)) = Inr (True, s_world (t_sys s')) \<and>
        t_taken s' = None \<and> td_resources (t_data s') = Some tr \<and> pending (t_kernel s') = pending (t_kernel s) \<and>
        (tm_type tm = ONE_SHOT \<longrightarrow> tr_timers tr (tm_label tm) = nullptr \<and> t_objs s' p = None \<and>
           live (t_kernel s') (tm_timer tm) = None \<and> armed (t_kernel s') (tm_timer tm) = None \<and>
           (\<forall>i. (i, p) \<notin> set (pending (t_kernel s')))) \<and>
        (tm_type tm = PERIODIC \<longrightarrow> tr_timers tr (tm_label tm) = p \<and> t_objs s' = t_objs s \<and>
           t_kernel s' = t_kernel s)))"
proof -
  note inv = reachable_tsys_inv [OF assms] and taken = reachable_stale [OF assms]
  show ?thesis
    using posix_timers.signal_taken [OF assms(2,1) inv, of i p ps]
      posix_timers.signal_handled [OF assms(2,1) inv taken, of p] by simp
qed

definition fired_timers :: "(monotonic sync_pool, kernel) tsys" where
  "fired_timers = snd (tsys_run (kernel_posix True) kernel_expire demo_lib
     [T_Start 7 second ONE_SHOT, T_Expire 0] demo_timers)"

lemma fired_timers_facts:
  "sk_pending (t_kernel fired_timers) = [(0, 4096)]"
  "map_option tm_type (t_objs fired_timers 4096) = Some ONE_SHOT"
  "map_option tm_timer (t_objs fired_timers 4096) = Some 0" "t_taken fired_timers = None"
  by (simp_all add: fired_timers_def timer_run_defs)

lemma fired_timers_reachable:
  "reachable_tsys (kernel_posix True) kernel_expire demo_lib kernel_live kernel_armed sk_pending fired_timers"
proof -
  let ?step = "tsys_step (kernel_posix True) kernel_expire demo_lib sk_pending"
  define s1 where "s1 = snd (tsys_exec (kernel_posix True) kernel_expire demo_lib (T_Start 7 second ONE_SHOT) demo_timers)"
  have "tsys_exec (kernel_posix True) kernel_expire demo_lib (T_Start 7 second ONE_SHOT) demo_timers = (Inr True, s1)"
    by (simp add: s1_def timer_run_defs)
  then have 1: "?step demo_timers s1" unfolding tsys_step_def
    by (intro exI [of _ "T_Start 7 second ONE_SHOT"] exI [of _ True]) simp
  have "tsys_exec (kernel_posix True) kernel_expire demo_lib (T_Expire 0) s1 = (Inr True, fired_timers)"
    by (simp add: s1_def fired_timers_def timer_run_defs)
  then have 2: "?step s1 fired_timers" unfolding tsys_step_def
    by (intro exI [of _ "T_Expire 0"] exI [of _ True]) simp
  show ?thesis using demo_timers_reachable 1 2 unfolding reachable_tsys_def by (blast intro: reach_step)
qed

theorem timer_fires_witness:
  "\<exists>s1 s'. tsys_exec (kernel_posix True) kernel_expire demo_lib T_Signal fired_timers = (Inr True, s1) \<and>
     tsys_exec (kernel_posix True) kernel_expire demo_lib T_Signal s1 = (Inr True, s') \<and>
     t_objs s' 4096 = None \<and> kernel_live (t_kernel s') 0 = None"
proof -
  note px = purging.posix_timers_axioms
  obtain s1 where s1: "tsys_exec (kernel_posix True) kernel_expire demo_lib T_Signal fired_timers = (Inr True, s1)"
      "t_taken s1 = Some 4096" "t_objs s1 = t_objs fired_timers"
    using timer_fires [OF demo_lib_ok px fired_timers_reachable, of 0 4096 "[]"] fired_timers_facts by auto
  then have "tsys_step (kernel_posix True) kernel_expire demo_lib sk_pending fired_timers s1"
    unfolding tsys_step_def by (intro exI [of _ T_Signal] exI [of _ True]) simp
  then have r1: "reachable_tsys (kernel_posix True) kernel_expire demo_lib kernel_live kernel_armed sk_pending s1"
    using fired_timers_reachable unfolding reachable_tsys_def by (blast intro: reach_step)
  show ?thesis
    using timer_fires [OF demo_lib_ok px r1, of 0 4096 "[]"] s1 fired_timers_facts(2,3) by fastforce
qed

section \<open>Starting and cancelling\<close>

text \<open>
  A timer started on a free slot is refused a second time, can be cancelled once, and leaves things
  as they were.
\<close>

context posix_timers begin

lemma start_cancel:
  assumes inv: "tsys_inv owns live armed pending s" and time: "valid_timespec time"
    and start: "tsys_exec px expire lib (T_Start l time type) s = (Inr True, s1)"
  shows "tsys_exec px expire lib (T_Start l time' type') s1 = (Inr False, s1) \<and>
    (\<exists>s2. tsys_exec px expire lib (T_Cancel l) s1 = (Inr True, s2) \<and>
       tsys_exec px expire lib (T_Cancel l) s2 = (Inr False, s2) \<and>
       t_objs s2 = t_objs s \<and> t_sys s2 = t_sys s \<and>
       live (t_kernel s2) = live (t_kernel s) \<and> armed (t_kernel s2) = armed (t_kernel s) \<and>
       pending (t_kernel s2) = pending (t_kernel s) \<and>
       map_option tr_timers (td_resources (t_data s2)) = map_option tr_timers (td_resources (t_data s)))"
proof -
  obtain tr where tr: "td_resources (t_data s) = Some tr"
      "timer_inv live armed pending tr (t_objs s) (t_kernel s)"
    using inv by (rule tsys_invE)
  have start': "TimerManagerData_startTimer px l time type s = (Inr True, s1)"
    using start by (simp add: TimerManager_StartTimer_timespec_def)
  from tr time show ?thesis
  proof (cases rule: start_spec [where l = l and type = type])
    case (started tr' p i k')
    define tm where "tm = \<lparr>tm_label = l, tm_timer = i, tm_type = type, tm_spec = timer_spec time type\<rparr>"
    have s1: "s1 = set_resources tr' (s\<lparr>t_kernel := k', t_objs := (t_objs s)(p \<mapsto> tm)\<rparr>)"
      using started(2) start' by (simp add: tm_def)
    have again: "TimerManagerData_startTimer px l time' type' s1 = (Inr False, s1)"
      using started(4,5) by (simp add: TimerManagerData_startTimer_def s1)
    have tr1: "td_resources (t_data s1) = Some tr'" by (simp add: s1)
    have inv1: "timer_inv live armed pending tr' (t_objs s1) (t_kernel s1)"
      using started(3) by (simp add: s1 tm_def)
    have slot: "tr_timers tr' l = p" using started(4) by simp
    have obj: "t_objs s1 p = Some tm" by (simp add: s1)
    from cancel_spec [OF tr1 inv1 slot started(5) obj] obtain k2 tr2 where c:
        "TimerManagerData_cancelTimer px l s1 =
           (Inr True, set_resources tr2 (s1\<lparr>t_kernel := k2, t_objs := (t_objs s1)(p := None)\<rparr>))"
        "tr_timers tr2 = (tr_timers tr')(l := nullptr)"
        "live k2 = (live (t_kernel s1))(tm_timer tm := None)"
        "armed k2 = (armed (t_kernel s1))(tm_timer tm := None)"
        "pending k2 \<in> {pending (t_kernel s1), removeAll (tm_timer tm, p) (pending (t_kernel s1))}"
      by blast
    have "(tm_timer tm, p) \<notin> set (pending (t_kernel s1))"
      using timer_invD(7) [OF tr(2), of "tm_timer tm" p] started by (auto simp: s1)
    then have "pending k2 = pending (t_kernel s)" using c(5) started by (auto simp: s1)
    define s2 where "s2 = set_resources tr2 (s1\<lparr>t_kernel := k2, t_objs := (t_objs s1)(p := None)\<rparr>)"
    have "TimerManagerData_cancelTimer px l s2 = (Inr False, s2)"
      using c(2) by (simp add: TimerManagerData_cancelTimer_def s2_def)
    moreover have "armed (t_kernel s) i = None"
      using armed_live [of "t_kernel s" i] started by (cases "armed (t_kernel s) i") auto
    then have "armed k2 = armed (t_kernel s)" "live k2 = live (t_kernel s)"
      using c(3,4) started by (auto simp: s1 tm_def fun_eq_iff)
    moreover have "(t_objs s1)(p := None) = t_objs s" "tr_timers tr2 = tr_timers tr"
      using started c(2) by (auto simp: s1 fun_eq_iff)
    moreover have "t_sys s2 = t_sys s" by (simp add: s2_def s1)
    ultimately show ?thesis using again c(1) tr(1) \<open>pending k2 = pending (t_kernel s)\<close>
      by (auto simp: TimerManager_StartTimer_timespec_def TimerManager_CancelTimer_def s2_def)
  qed (use start' in simp_all)
qed

end



section \<open>Where it ends\<close>

text \<open>Nothing gives buffer space back, and each timer that is started takes 136 bytes of it.\<close>

definition used :: "('r, 'k) tsys \<Rightarrow> nat option" where
  "used s = map_option (\<lambda>tr. mb_cur (tr_buffer tr)) (td_resources (t_data s))"

definition buffer_end :: "('r, 'k) tsys \<Rightarrow> nat option" where
  "buffer_end s = map_option (\<lambda>tr. mb_end (tr_buffer tr)) (td_resources (t_data s))"

fun started :: "tcall \<Rightarrow> bool \<Rightarrow> nat" where
  "started (T_Start l time type) ok = (if ok then 1 else 0)"
| "started c ok = 0"

lemma cancel_buffer:
  "TimerManagerData_cancelTimer px l s = (r, s') \<Longrightarrow> used s' = used s \<and> buffer_end s' = buffer_end s"
  by (auto simp: TimerManagerData_cancelTimer_def used_def buffer_end_def Let_def
      split: option.splits if_splits prod.splits)

lemma event_buffer:
  "Timer_timerEvent px p s = (r, s') \<Longrightarrow> used s' = used s \<and> buffer_end s' = buffer_end s"
proof (cases "t_objs s p")
  case (Some tm)
  assume e: "Timer_timerEvent px p s = (r, s')"
  show ?thesis
  proof (cases "Mailbox_SendSignal (tm_label tm) (s_world (t_sys s))")
    case (Inr bw)
    define s1 where "s1 = s\<lparr>t_sys := (t_sys s)\<lparr>s_world := snd bw\<rparr>\<rparr>"
    obtain x s2 where c: "TimerManagerData_cancelTimer px (tm_label tm) s1 = (x, s2)" by fastforce
    have "s' = s1 \<or> s' = s2" using e Some Inr c
      by (cases bw; cases x) (auto simp: Timer_timerEvent_def s1_def Let_def split: if_splits)
    moreover have "used s1 = used s" "buffer_end s1 = buffer_end s"
      by (simp_all add: s1_def used_def buffer_end_def)
    ultimately show ?thesis using cancel_buffer [OF c] by auto
  qed (use e Some in \<open>simp add: Timer_timerEvent_def\<close>)
qed (simp add: Timer_timerEvent_def)

lemma start_buffer:
  assumes st: "TimerManagerData_startTimer px l time type s = (Inr ok, s')"
    and n: "used s = Some n" "buffer_end s = Some e" "n \<le> e"
  shows "\<exists>n'. used s' = Some n' \<and> buffer_end s' = Some e \<and> n + (if ok then 136 else 0) \<le> n' \<and> n' \<le> e"
proof -
  from n obtain tr where tr: "td_resources (t_data s) = Some tr" "mb_cur (tr_buffer tr) = n"
      "mb_end (tr_buffer tr) = e"
    by (auto simp: used_def buffer_end_def)
  show ?thesis
  proof (cases "tr_timers tr l = nullptr")
    case False
    then show ?thesis using st tr n by (auto simp: TimerManagerData_startTimer_def)
  next
    case True
    obtain x b where al: "monotonic_allocate (tr_buffer tr) SIZEOF_TIMER ALIGNOF_TIMER = (x, b)"
      by fastforce
    show ?thesis
    proof (cases x)
      case None
      then show ?thesis using st tr True al by (simp add: TimerManagerData_startTimer_def)
    next
      case (Some p)
      note m = monotonic_timer [OF al [unfolded Some]]
      let ?tr = "tr\<lparr>tr_buffer := b, tr_timers := (tr_timers tr)(l := p)\<rparr>"
      obtain y k where nw: "Timer_new px p l time type (t_kernel s) = (y, k)" by fastforce
      from st tr True al Some nw obtain tm where "y = Inr tm" "ok"
          "s' = (set_resources ?tr s)\<lparr>t_kernel := k, t_objs := (t_objs s)(p \<mapsto> tm)\<rparr>"
        by (cases y) (auto simp: TimerManagerData_startTimer_def Let_def simp del: fun_upd_apply)
      then have "used s' = Some (mb_cur b)" "buffer_end s' = Some e" "ok"
        using m tr by (simp_all add: used_def buffer_end_def set_resources_def)
      then show ?thesis using m tr n by auto
    qed
  qed
qed

lemma exec_buffer:
  assumes ex: "tsys_exec px expire lib c s = (Inr ok, s')"
    and n: "used s = Some n" "buffer_end s = Some e" "n \<le> e"
  shows "\<exists>n'. used s' = Some n' \<and> buffer_end s' = Some e \<and> n + 136 * started c ok \<le> n' \<and> n' \<le> e"
proof (cases c)
  case (T_Start l time type)
  then show ?thesis using start_buffer [OF _ n, of px l time type ok s'] ex
    by (auto simp: TimerManager_StartTimer_timespec_def)
next
  case (T_Cancel l)
  then show ?thesis using cancel_buffer [of px l s] ex n
    by (auto simp: TimerManager_CancelTimer_def)
next
  case T_Signal
  show ?thesis
  proof (cases "t_taken s")
    case None
    then show ?thesis using ex T_Signal n
      by (auto simp: HandleSignals_step_def used_def buffer_end_def split: prod.splits)
  next
    case (Some p)
    obtain r s2 where ev: "Timer_timerEvent px p (s\<lparr>t_taken := None\<rparr>) = (r, s2)" by fastforce
    then have "s' = s2" using ex T_Signal Some
      by (cases r) (auto simp: HandleSignals_step_def)
    moreover have "used (s\<lparr>t_taken := None\<rparr>) = used s" "buffer_end (s\<lparr>t_taken := None\<rparr>) = buffer_end s"
      by (simp_all add: used_def buffer_end_def)
    ultimately show ?thesis using event_buffer [OF ev] n T_Signal by auto
  qed
qed (use ex n in \<open>auto simp: used_def buffer_end_def split: sum.splits prod.splits\<close>)

lemma run_buffer:
  "tsys_run px expire lib cs s = (Inr oks, s') \<Longrightarrow> used s = Some n \<Longrightarrow> buffer_end s = Some e \<Longrightarrow>
     n \<le> e \<Longrightarrow> n + 136 * sum_list (map2 started cs oks) \<le> e"
proof (induction cs arbitrary: s n oks)
  case (Cons c cs)
  obtain r s1 where 1: "tsys_exec px expire lib c s = (r, s1)" by fastforce
  obtain r2 s2 where 2: "tsys_run px expire lib cs s1 = (r2, s2)" by fastforce
  from Cons.prems(1) obtain ok oks' where o: "r = Inr ok" "r2 = Inr oks'" "oks = ok # oks'" "s2 = s'"
    by (cases r; cases r2) (auto simp: 1 2)
  from exec_buffer [OF 1 [unfolded o(1)] Cons.prems(2-4)] obtain n' where n':
      "used s1 = Some n'" "buffer_end s1 = Some e" "n + 136 * started c ok \<le> n'" "n' \<le> e"
    by blast
  from Cons.IH [OF 2 [unfolded o(2,4)] n'(1,2,4)] n'(3) show ?case by (simp add: o(3))
qed simp

text \<open>
  C25. A process can start at most 65536 timers in its life, cancelled and expired ones included,
  whatever POSIX provides: the buffer under the timers' allocator never takes memory back.
\<close>
theorem at_most_65536_timers:
  assumes "tsys_run px expire lib cs (tsys_new y base k) = (Inr oks, s')"
  shows "sum_list (map2 started cs oks) \<le> 65536"
proof -
  have "used (tsys_new y base k) = Some base"
      "buffer_end (tsys_new y base k) = Some (base + 65536 * 136)"
    by (simp_all add: used_def buffer_end_def tsys_new_resources TimerResources_new_def
        monotonic_new_def MAX_TIMERS_def SIZEOF_TIMER_def)
  from run_buffer [OF assms this] show ?thesis by simp
qed

definition busy_calls :: "tcall list" where
  "busy_calls = [T_Start 7 second PERIODIC, T_Cancel 7, T_Start 7 second ONE_SHOT,
     T_Start 7 second ONE_SHOT]"

lemma busy_run:
  "fst (tsys_run (kernel_posix True) kernel_expire demo_lib busy_calls demo_timers) =
     Inr [True, True, True, False]"
  by (simp add: busy_calls_def timer_run_defs)

theorem at_most_65536_timers_witness:
  "sum_list (map2 started busy_calls [True, True, True, False]) \<le> 65536"
proof -
  have "tsys_run (kernel_posix True) kernel_expire demo_lib busy_calls demo_timers =
      (Inr [True, True, True, False],
       snd (tsys_run (kernel_posix True) kernel_expire demo_lib busy_calls demo_timers))"
    using busy_run by (simp add: prod_eq_iff)
  from at_most_65536_timers [OF this [unfolded demo_timers_def]] show ?thesis .
qed

text \<open>What is gone does not come back: the buffer's addresses are used once.\<close>

definition gone_for_good :: "addr \<Rightarrow> ('r, 'k) tsys \<Rightarrow> bool" where
  "gone_for_good p s \<longleftrightarrow> t_taken s = Some p \<and> t_objs s p = None \<and>
     (\<exists>tr. td_resources (t_data s) = Some tr \<and> p < mb_cur (tr_buffer tr))"

lemma gone_start:
  assumes "TimerManagerData_startTimer px l time type s = (Inr ok, s')" and "gone_for_good p s"
  shows "gone_for_good p s'"
proof -
  from assms(2) obtain tr where tr: "td_resources (t_data s) = Some tr" "p < mb_cur (tr_buffer tr)"
      "t_taken s = Some p" "t_objs s p = None" by (auto simp: gone_for_good_def)
  obtain x b where al: "monotonic_allocate (tr_buffer tr) SIZEOF_TIMER ALIGNOF_TIMER = (x, b)" by fastforce
  show ?thesis
  proof (cases "x = None \<or> tr_timers tr l \<noteq> nullptr")
    case True
    then show ?thesis using assms tr(1) al by (auto simp: TimerManagerData_startTimer_def split: if_splits)
  next
    case False
    then obtain q where q: "x = Some q" "tr_timers tr l = nullptr" by auto
    note m = monotonic_timer [OF al [unfolded q(1)]]
    have "p < mb_cur b" using m tr(2) by simp
    then show ?thesis using assms(1) tr q m(1) al
      by (auto simp: TimerManagerData_startTimer_def gone_for_good_def set_resources_def Let_def
          split: prod.splits sum.splits)
  qed
qed

lemma gone_exec:
  assumes "tsys_exec px expire lib c s = (Inr ok, s')" and "gone_for_good p s" and "c \<noteq> T_Signal"
  shows "gone_for_good p s'"
proof (cases c)
  case (T_Start l time type)
  then show ?thesis using gone_start assms by (auto simp: TimerManager_StartTimer_timespec_def)
next
  case (T_Cancel l)
  then show ?thesis using assms(1,2)
    by (auto simp: TimerManager_CancelTimer_def TimerManagerData_cancelTimer_def gone_for_good_def
        set_resources_def Let_def split: option.splits prod.splits if_splits)
qed (use assms in \<open>auto simp: gone_for_good_def split: sum.splits prod.splits\<close>)

lemma gone_run:
  "tsys_run px expire lib cs s = (Inr oks, s') \<Longrightarrow> gone_for_good p s \<Longrightarrow> T_Signal \<notin> set cs \<Longrightarrow> gone_for_good p s'"
proof (induction cs arbitrary: s oks)
  case (Cons c cs)
  then obtain ok s1 oks1 where run: "tsys_exec px expire lib c s = (Inr ok, s1)"
      "tsys_run px expire lib cs s1 = (Inr oks1, s')"
    by (auto split: prod.splits sum.splits)
  have "c \<noteq> T_Signal" "T_Signal \<notin> set cs" using Cons.prems(3) by auto
  then show ?case using Cons.IH [OF run(2)] gone_exec [OF run(1) Cons.prems(2)] by blast
qed simp

context posix_timers begin

lemma cancel_gone:
  assumes inv: "tsys_inv owns live armed pending s" and p: "t_taken s = Some p" "t_objs s p = Some tm"
  shows "\<exists>s1. tsys_exec px expire lib (T_Cancel (tm_label tm)) s = (Inr True, s1) \<and> gone_for_good p s1"
proof -
  obtain tr where tr: "td_resources (t_data s) = Some tr"
      "timer_inv live armed pending tr (t_objs s) (t_kernel s)"
    using inv by (rule tsys_invE)
  have slot: "tr_timers tr (tm_label tm) = p" "p \<noteq> nullptr" using timer_invD(4) [OF tr(2) p(2)] by auto
  from cancel_spec [OF tr slot p(2)] obtain k' tr' where c:
      "TimerManagerData_cancelTimer px (tm_label tm) s =
         (Inr True, set_resources tr' (s\<lparr>t_kernel := k', t_objs := (t_objs s)(p := None)\<rparr>))"
      "tr_buffer tr' = tr_buffer tr" by blast
  moreover have "p < mb_cur (tr_buffer tr)" using timer_invD(2) [OF tr(2), of "tm_label tm"] slot(1) by simp
  ultimately show ?thesis using p(1)
    by (auto simp: TimerManager_CancelTimer_def gone_for_good_def)
qed

end

text \<open>
  C26. A cancelled timer can still be used, whatever the kernel does with its signals: if \<^verbatim>\<open>CancelTimer\<close>
  comes between the \<^verbatim>\<open>sigtimedwait\<close> that took the timer's signal and the \<^verbatim>\<open>timerEvent\<close> that handles
  it (\<^verbatim>\<open>m_mutex\<close> is locked after \<^verbatim>\<open>sigtimedwait\<close> only), it returns true, and the signal thread's next
  step is an access to the destroyed \<^verbatim>\<open>Timer\<close>, whatever calls and expiries, none of which ends in a
  fault, come in between. Up to the \<^verbatim>\<open>CancelTimer\<close> the program has kept to the discipline.
\<close>
theorem cancelled_timer_dangles:
  assumes "mailbox_lib lib owns" and "posix_timers px expire live armed pending"
    and "reachable_tsys px expire lib live armed pending s"
    and "t_taken s = Some p" and "t_objs s p = Some tm"
    and "T_Signal \<notin> set cs" and "tsys_run px expire lib (T_Cancel (tm_label tm) # cs) s = (Inr oks, s2)"
  shows "hd oks \<and> fst (tsys_exec px expire lib T_Signal s2) = Inl Dangling_Timer"
proof -
  from posix_timers.cancel_gone [OF assms(2) reachable_tsys_inv [OF assms(1-3)] assms(4,5), of lib]
  obtain s1 where s1: "tsys_exec px expire lib (T_Cancel (tm_label tm)) s = (Inr True, s1)" "gone_for_good p s1"
    by blast
  then obtain oks1 where "tsys_run px expire lib cs s1 = (Inr oks1, s2)" "oks = True # oks1"
    using assms(7) by (auto split: prod.splits sum.splits)
  with gone_run [OF this(1) s1(2) assms(6)] show ?thesis
    by (simp add: gone_for_good_def HandleSignals_step_def Timer_timerEvent_def)
qed

definition taken_timers :: "(monotonic sync_pool, kernel) tsys" where
  "taken_timers = snd (tsys_exec (kernel_posix True) kernel_expire demo_lib T_Signal fired_timers)"

lemma taken_timers:
  "tsys_exec (kernel_posix True) kernel_expire demo_lib T_Signal fired_timers = (Inr True, taken_timers)"
  "t_taken taken_timers = Some 4096" "map_option tm_label (t_objs taken_timers 4096) = Some 7"
  "fst (tsys_run (kernel_posix True) kernel_expire demo_lib [T_Cancel 7, T_Start 7 second ONE_SHOT] taken_timers) =
     Inr [True, True]"
  by (simp_all add: taken_timers_def fired_timers_def timer_run_defs)

lemma taken_timers_reachable:
  "reachable_tsys (kernel_posix True) kernel_expire demo_lib kernel_live kernel_armed sk_pending taken_timers"
proof -
  have "tsys_step (kernel_posix True) kernel_expire demo_lib sk_pending fired_timers taken_timers"
    unfolding tsys_step_def using taken_timers(1) by (intro exI [of _ T_Signal] exI [of _ True]) simp
  then show ?thesis using fired_timers_reachable unfolding reachable_tsys_def by (blast intro: reach_step)
qed

theorem cancelled_timer_dangles_witness:
  "\<exists>s2. tsys_run (kernel_posix True) kernel_expire demo_lib [T_Cancel 7, T_Start 7 second ONE_SHOT] taken_timers =
       (Inr [True, True], s2) \<and>
     fst (tsys_exec (kernel_posix True) kernel_expire demo_lib T_Signal s2) = Inl Dangling_Timer"
proof -
  obtain tm where tm: "t_objs taken_timers 4096 = Some tm" "tm_label tm = 7" using taken_timers(3) by auto
  obtain s2 where run: "tsys_run (kernel_posix True) kernel_expire demo_lib
      (T_Cancel (tm_label tm) # [T_Start 7 second ONE_SHOT]) taken_timers = (Inr [True, True], s2)"
    using taken_timers(4) by (auto simp only: tm(2) prod_eq_iff fst_conv snd_conv)
  from cancelled_timer_dangles [OF demo_lib_ok purging.posix_timers_axioms taken_timers_reachable
      taken_timers(2) tm(1) _ run] run tm(2)
  show ?thesis by auto
qed

text \<open>
  Over a kernel that keeps the signals of deleted timers, as POSIX allows, the timer can also be
  cancelled before its signal is taken.
\<close>
lemma kept_signal_dangles:
  "fst (tsys_run (kernel_posix False) kernel_expire demo_lib
     [T_Start 7 second ONE_SHOT, T_Expire 0, T_Cancel 7, T_Signal, T_Signal] demo_timers) = Inl Dangling_Timer"
  by (simp add: timer_run_defs)

definition out_of_posix :: "fault \<Rightarrow> bool" where
  "out_of_posix e \<longleftrightarrow> e = Runtime_Error ''Couldn't create timer'' \<or> e = Runtime_Error ''Couldn't start timer''"

context posix_timers begin

lemma Timer_new_invalid:
  assumes "\<not> valid_timespec time"
  shows "\<exists>e k'. Timer_new px p l time type k = (Inl e, k') \<and>
    out_of_posix e"
proof (cases "timer_create px k p")
  case (Pair x k1)
  show ?thesis
  proof (cases x)
    case None
    then show ?thesis using Pair by (simp add: Timer_new_eq out_of_posix_def)
  next
    case (Some i)
    from create_some [OF Pair [unfolded Some]] have "live k1 i = Some p" by simp
    moreover have "\<not> (valid_timespec (it_value (timer_spec time type)) \<and>
        valid_timespec (it_interval (timer_spec time type)))"
      using assms by (simp add: timer_spec_def)
    ultimately obtain old k' where
        "timer_settime px k1 i (timer_spec time type) = (False, old, k')"
      using settime_invalid by blast
    then show ?thesis using Pair Some by (simp add: Timer_new_eq out_of_posix_def)
  qed
qed

lemma start_invalid:
  assumes tr: "td_resources (t_data s) = Some tr"
    and inv: "timer_inv live armed pending tr (t_objs s) (t_kernel s)"
    and free: "tr_timers tr l = nullptr" and time: "\<not> valid_timespec time"
  shows "\<exists>e s1. TimerManagerData_startTimer px l time type s = (Inl e, s1) \<and>
    (e = Bad_Alloc \<and> mb_end (tr_buffer tr) < mb_cur (tr_buffer tr) + 143 \<and>
       map_option tr_timers (td_resources (t_data s1)) = Some (tr_timers tr) \<or>
     out_of_posix e \<and> TimerManagerData_startTimer px l time' type' s1 = (Inr False, s1) \<and>
     TimerManagerData_cancelTimer px l s1 = (Inl Dangling_Timer, s1))"
proof -
  note d = timer_invD [OF inv]
  obtain x b where al: "monotonic_allocate (tr_buffer tr) SIZEOF_TIMER ALIGNOF_TIMER = (x, b)" by fastforce
  show ?thesis
  proof (cases x)
    case None
    with al have "mb_end (tr_buffer tr) < mb_cur (tr_buffer tr) + 143" "tr_timers (tr\<lparr>tr_buffer := b\<rparr>) = tr_timers tr"
      by (simp_all add: monotonic_full)
    then show ?thesis using tr free al None by (simp add: TimerManagerData_startTimer_def)
  next
    case (Some p)
    note m = monotonic_timer [OF al [unfolded Some]]
    have "p \<noteq> nullptr" using d(1) m(1) by simp
    have fresh: "t_objs s p = None"
    proof (cases "t_objs s p")
      case (Some tm)
      from d(4) [OF this] d(2) [of "tm_label tm"] m(1) show ?thesis by simp
    qed
    from Timer_new_invalid [OF time, of p l type "t_kernel s"] obtain e k' where
        new: "Timer_new px p l time type (t_kernel s) = (Inl e, k')" "out_of_posix e"
      by blast
    then have "TimerManagerData_startTimer px l time type s = (Inl e,
        (set_resources (tr\<lparr>tr_buffer := b, tr_timers := (tr_timers tr)(l := p)\<rparr>) s)\<lparr>t_kernel := k'\<rparr>)"
      using tr free al Some by (simp add: TimerManagerData_startTimer_def)
    then show ?thesis using \<open>p \<noteq> nullptr\<close> fresh new(2)
      by (auto simp: TimerManagerData_startTimer_def TimerManagerData_cancelTimer_def
          set_resources_def)
  qed
qed

end

text \<open>
  C27. A time that \<^verbatim>\<open>timer_settime\<close> does not accept (a negative duration, or a \<^verbatim>\<open>timeval\<close> with negative
  microseconds): \<^verbatim>\<open>StartTimer\<close> on a free label does not return false but throws. If the buffer is
  full it is the allocation that throws, and the slots stay as they are. Otherwise one of the two
  exceptions of \<^verbatim>\<open>Timer\<close> comes out and the label is lost: \<^verbatim>\<open>StartTimer\<close> returns false for every time,
  and \<^verbatim>\<open>CancelTimer\<close> uses an object that was never constructed.
\<close>
theorem invalid_time_poisons_label:
  assumes "mailbox_lib lib owns" and "posix_timers px expire live armed pending"
    and "reachable_tsys px expire lib live armed pending s"
    and "td_resources (t_data s) = Some tr" and "tr_timers tr l = nullptr" and "\<not> valid_timespec time"
  shows "\<exists>e s1. tsys_exec px expire lib (T_Start l time type) s = (Inl e, s1) \<and>
    (e = Bad_Alloc \<and> mb_end (tr_buffer tr) < mb_cur (tr_buffer tr) + 143 \<and>
       map_option tr_timers (td_resources (t_data s1)) = Some (tr_timers tr) \<or>
     out_of_posix e \<and> tsys_exec px expire lib (T_Start l time' type') s1 = (Inr False, s1) \<and>
     tsys_exec px expire lib (T_Cancel l) s1 = (Inl Dangling_Timer, s1))"
proof -
  have "timer_inv live armed pending tr (t_objs s) (t_kernel s)"
    using reachable_tsys_inv [OF assms(1-3)] assms(4) by (auto elim: tsys_invE)
  then show ?thesis
    using posix_timers.start_invalid [OF assms(2,4) _ assms(5,6)]
    by (simp add: TimerManager_StartTimer_timespec_def TimerManager_CancelTimer_def)
qed

definition negative :: timespec where "negative = \<lparr>tv_sec = -1, tv_nsec = 0\<rparr>"

theorem invalid_time_poisons_label_witness:
  "\<exists>e s1. tsys_exec (kernel_posix True) kernel_expire demo_lib (T_Start 7 negative ONE_SHOT) demo_timers =
       (Inl e, s1) \<and> e = Runtime_Error ''Couldn't start timer'' \<and>
     tsys_exec (kernel_posix True) kernel_expire demo_lib (T_Cancel 7) s1 = (Inl Dangling_Timer, s1)"
proof -
  have tr: "td_resources (t_data demo_timers) = Some (TimerResources_new 4096 (\<lambda>_. nullptr))"
    by (simp add: demo_timers_def tsys_new_resources)
  have slot: "tr_timers (TimerResources_new 4096 (\<lambda>_. nullptr)) 7 = nullptr"
    by (simp add: TimerResources_new_def)
  have neg: "\<not> valid_timespec negative" by (simp add: negative_def valid_timespec_def)
  have "fst (tsys_exec (kernel_posix True) kernel_expire demo_lib (T_Start 7 negative ONE_SHOT) demo_timers) =
      Inl (Runtime_Error ''Couldn't start timer'')"
    by (simp add: timer_run_defs negative_def timespec_zero_def valid_timespec_def)
  with invalid_time_poisons_label [OF demo_lib_ok purging.posix_timers_axioms
      demo_timers_reachable tr slot neg, of ONE_SHOT second ONE_SHOT]
  show ?thesis by auto
qed

context posix_timers begin

lemma start_zero:
  assumes inv: "tsys_inv owns live armed pending s"
    and start: "tsys_exec px expire lib (T_Start l timespec_zero type) s = (Inr True, s1)"
  shows "\<exists>tr tm. td_resources (t_data s1) = Some tr \<and> tr_timers tr l \<noteq> nullptr \<and>
    t_objs s1 (tr_timers tr l) = Some tm \<and> armed (t_kernel s1) (tm_timer tm) = None \<and>
    pending (t_kernel s1) = pending (t_kernel s) \<and>
    tsys_exec px expire lib (T_Expire (tm_timer tm)) s1 = (Inr True, s1)"
proof -
  obtain tr where tr: "td_resources (t_data s) = Some tr"
      "timer_inv live armed pending tr (t_objs s) (t_kernel s)"
    using inv by (rule tsys_invE)
  have start': "TimerManagerData_startTimer px l timespec_zero type s = (Inr True, s1)"
    using start by (simp add: TimerManager_StartTimer_timespec_def)
  from tr valid_zero show ?thesis
  proof (cases rule: start_spec [where l = l and type = type])
    case (started tr' p i k')
    define tm where "tm = \<lparr>tm_label = l, tm_timer = i, tm_type = type,
      tm_spec = timer_spec timespec_zero type\<rparr>"
    have s1: "s1 = set_resources tr' (s\<lparr>t_kernel := k', t_objs := (t_objs s)(p \<mapsto> tm)\<rparr>)"
      using started(2) start' by (simp add: tm_def)
    have idle: "armed k' i = None" using started by simp
    have "t_kernel s1 = k'" by (simp add: s1)
    then have "tsys_exec px expire lib (T_Expire i) s1 = (Inr True, s1)"
      using expire_idle [OF idle] by simp
    then show ?thesis using started idle
      by (intro exI [of _ tr'] exI [of _ tm]) (simp add: s1 tm_def)
  qed (use start' in simp_all)
qed

end

text \<open>
  A time of zero is accepted and never comes: \<^verbatim>\<open>StartTimer\<close> returns true and occupies the label, but
  \<^verbatim>\<open>timer_settime\<close> with a zero value disarms, so the kernel's timer is not running and its
  expiry does nothing.
\<close>
lemma zero_time_never_fires:
  assumes "mailbox_lib lib owns" and "posix_timers px expire live armed pending"
    and "reachable_tsys px expire lib live armed pending s"
    and "tsys_exec px expire lib (T_Start l timespec_zero type) s = (Inr True, s1)"
  shows "\<exists>tr tm. td_resources (t_data s1) = Some tr \<and> tr_timers tr l \<noteq> nullptr \<and>
    t_objs s1 (tr_timers tr l) = Some tm \<and> armed (t_kernel s1) (tm_timer tm) = None \<and>
    pending (t_kernel s1) = pending (t_kernel s) \<and>
    tsys_exec px expire lib (T_Expire (tm_timer tm)) s1 = (Inr True, s1)"
  by (rule posix_timers.start_zero [OF assms(2) reachable_tsys_inv [OF assms(1-3)] assms(4)])

lemma zero_time_never_fires_example:
  "\<exists>s1 (tm :: Timer). tsys_exec (kernel_posix True) kernel_expire demo_lib (T_Start 7 timespec_zero ONE_SHOT) demo_timers =
       (Inr True, s1) \<and> kernel_armed (t_kernel s1) (tm_timer tm) = None"
proof -
  define s1 where "s1 = snd (tsys_exec (kernel_posix True) kernel_expire demo_lib
      (T_Start 7 timespec_zero ONE_SHOT) demo_timers)"
  have "tsys_exec (kernel_posix True) kernel_expire demo_lib (T_Start 7 timespec_zero ONE_SHOT) demo_timers =
      (Inr True, s1)"
    by (simp add: s1_def timer_run_defs)
  note run = this
  from zero_time_never_fires [OF demo_lib_ok purging.posix_timers_axioms
      demo_timers_reachable run]
  obtain tm :: Timer where "kernel_armed (t_kernel s1) (tm_timer tm) = None" by blast
  with run show ?thesis by (intro exI [of _ s1] exI [of _ tm] conjI)
qed

section \<open>The overloads\<close>

lemma time_point_eq:
  assumes d: "0 < d" "d \<le> 9000000000" and c: "in_int64 c" "in_int64 (c * (NANO div gcd NANO d))"
  shows "time_point_timespec d c = Chrono2Timespec d c"
proof -
  define g where "g = gcd NANO d"
  define sec where "sec = c sdiv d"
  define r where "r = c - sec * d"
  define n where "n = (c * NANO) sdiv d"
  have g: "0 < g" "g dvd NANO" "g dvd d" using d(1) by (simp_all add: g_def)
  have n: "cast_nanoseconds d c = Some n"
  proof -
    have "(c * (NANO div g)) sdiv (d div g) = n"
      using sdiv_mult_cancel [OF g(1), of "c * (NANO div g)" "d div g"] g by (simp add: n_def mult.assoc)
    then show ?thesis using c(2) by (simp add: cast_nanoseconds_def int64_ok g_def)
  qed
  note b = sdiv_bounds [OF d(1), of c, folded sec_def]
  have r: "0 \<le> c \<Longrightarrow> 0 \<le> r" "c \<le> 0 \<Longrightarrow> r \<le> 0" "\<bar>r\<bar> < d" using b by (simp_all add: r_def)
  have split: "n = sec * NANO + (r * NANO) sdiv d"
    using sdiv_split [OF d(1), of c] by (simp add: n_def r_def sec_def)
  have sec: "0 \<le> c \<Longrightarrow> 0 \<le> sec" "c \<le> 0 \<Longrightarrow> sec \<le> 0"
    using b(2,3) by simp_all
  note cast = cast_nanoseconds_eq [OF d r(3)]
  note rest = sdiv_bounds [OF d(1), of "r * NANO"]
  have dg: "0 < d div g" using g d(1) by (simp add: pos_imp_zdiv_pos_iff zdvd_imp_le)
  have n_eq: "n = (c * (NANO div g)) sdiv (d div g)"
    using sdiv_mult_cancel [OF g(1), of "c * (NANO div g)" "d div g"] g by (simp add: n_def mult.assoc)
  have N: "0 \<le> NANO div g" using g(1) NANO_pos by (simp add: pos_imp_zdiv_nonneg_iff)
  have "0 \<le> c \<Longrightarrow> 0 \<le> sec * NANO \<and> 0 \<le> (r * NANO) sdiv d"
    "c \<le> 0 \<Longrightarrow> sec * NANO \<le> 0 \<and> (r * NANO) sdiv d \<le> 0"
    using rest(2,3) r(1,2) sec NANO_pos by (simp_all add: mult_nonpos_nonneg)
  then have "in_int64 (sec * NANO)" using full_seconds_fit [OF dg N _ n_eq split] c(2) by (simp add: g_def)
  moreover have "in_int64 ((r * NANO) sdiv d)"
  proof -
    obtain ts where "Chrono2Timespec d c = Some ts" "\<bar>tv_nsec ts\<bar> < NANO"
      using Chrono2Timespec_small [OF d c(1)] by blast
    then have "\<bar>(r * NANO) sdiv d\<bar> < NANO"
      using Chrono2Timespec_eq [OF d c(1)] by (auto simp: r_def sec_def)
    then show ?thesis by (auto simp: in_int64_def NANO_def abs_if split: if_splits)
  qed
  ultimately show ?thesis
    using n split cast c(1) Chrono2Timespec_eq [OF d c(1)]
    by (simp add: time_point_timespec_def cast_seconds_def sec_def [symmetric] int64_ok Let_def r_def)
qed

text \<open>
  C32. The overload for a \<^verbatim>\<open>time_point\<close> starts the same timer as the one for the duration since the
  clock's epoch: the time it passes is absolute, but \<^verbatim>\<open>timer_settime\<close> is called without
  \<^verbatim>\<open>TIMER_ABSTIME\<close>, so the timer fires that long after the call, not at that time.
\<close>
theorem time_point_is_relative:
  assumes "0 < d" and "d \<le> 9000000000" and "in_int64 c"
    and "in_int64 (c * (NANO div gcd NANO d))"
  shows "TimerManager_StartTimer_time_point px l d c s =
    TimerManager_StartTimer_duration px l d c ONE_SHOT s"
  using time_point_eq [OF assms]
  by (simp add: TimerManager_StartTimer_time_point_def TimerManager_StartTimer_duration_def)

theorem time_point_is_relative_witness:
  "TimerManager_StartTimer_time_point (kernel_posix True) 7 1000 1700000000123 demo_timers =
     TimerManager_StartTimer_duration (kernel_posix True) 7 1000 1700000000123 ONE_SHOT demo_timers"
proof -
  have "gcd NANO 1000 = 1000" by (simp add: NANO_def gcd_proj2_iff)
  then have "in_int64 (1700000000123 * (NANO div gcd NANO 1000))" by (simp add: in_int64_def NANO_def)
  then show ?thesis using time_point_is_relative [of 1000 1700000000123] by (simp add: in_int64_def)
qed

section \<open>The signal thread\<close>

context posix_timers begin

lemma round_again:
  assumes lib: "mailbox_lib lib owns" and inv: "tsys_inv owns live armed pending s" "stale pending s = {}"
    and tr: "td_resources (t_data s) = Some tr" "\<not> tr_shutdown tr" and head: "t_taken s = None"
  obtains s' tr' where "HandleSignals_round px s = (Inr (), s')" "tsys_inv owns live armed pending s'"
    "stale pending s' = {}" "td_resources (t_data s') = Some tr'" "\<not> tr_shutdown tr'" "t_taken s' = None"
    "pending (t_kernel s') = tl (pending (t_kernel s))"
  using lib inv tr(1) head
proof (cases rule: round_spec)
  case (idle k')
  then show ?thesis using tr that [of "s\<lparr>t_kernel := k', t_taken := None\<rparr>" tr] by (simp add: set_eq_iff stale_iff)
next
  case (event i p ps tm s' tr')
  then show ?thesis using tr(2) that [of s' tr'] by simp
qed

lemma loop_drains:
  assumes lib: "mailbox_lib lib owns"
  shows "tsys_inv owns live armed pending s \<Longrightarrow> stale pending s = {} \<Longrightarrow> td_resources (t_data s) = Some tr \<Longrightarrow>
    \<not> tr_shutdown tr \<Longrightarrow> t_taken s = None \<Longrightarrow>
    \<exists>s'. HandleSignals_loop px n s = (Inr (), s') \<and> t_taken s' = None \<and>
      pending (t_kernel s') = drop n (pending (t_kernel s))"
proof (induction n arbitrary: s tr)
  case (Suc n)
  from round_again [OF lib Suc.prems] obtain s1 tr1 where 1:
      "HandleSignals_round px s = (Inr (), s1)" "tsys_inv owns live armed pending s1" "stale pending s1 = {}"
      "td_resources (t_data s1) = Some tr1" "\<not> tr_shutdown tr1" "t_taken s1 = None"
      "pending (t_kernel s1) = tl (pending (t_kernel s))"
    by blast
  from Suc.IH [OF 1(2-6)] obtain s' where "HandleSignals_loop px n s1 = (Inr (), s')" "t_taken s' = None"
      "pending (t_kernel s') = drop n (pending (t_kernel s1))"
    by blast
  then show ?case using 1 Suc.prems(3,4) by (intro exI [of _ s']) (simp add: drop_Suc)
qed auto

end

text \<open>
  C33. The signal thread does not die: from a reachable state of a program that keeps to the
  discipline, at the head of its loop, any number of its rounds, with nothing in between, runs without
  a fault, and each round takes and handles one pending signal, in their order, as long as there is
  one. Once \<^verbatim>\<open>m_shutdown\<close> is set the loop ends before its next round.
\<close>
theorem signal_thread_drains:
  assumes "mailbox_lib lib owns" and "posix_timers px expire live armed pending"
    and "reachable_tsys px expire lib live armed pending s"
    and "td_resources (t_data s) = Some tr" and "t_taken s = None"
  shows "(\<not> tr_shutdown tr \<longrightarrow>
      (\<exists>s'. HandleSignals_loop px n s = (Inr (), s') \<and> t_taken s' = None \<and>
         pending (t_kernel s') = drop n (pending (t_kernel s)))) \<and>
    HandleSignals_loop px n (set_resources (TimerResources_destroy tr) s) =
      (Inr (), set_resources (TimerResources_destroy tr) s)"
proof
  show "\<not> tr_shutdown tr \<longrightarrow> (\<exists>s'. HandleSignals_loop px n s = (Inr (), s') \<and> t_taken s' = None \<and>
      pending (t_kernel s') = drop n (pending (t_kernel s)))"
    using posix_timers.loop_drains
        [OF assms(2,1) reachable_tsys_inv [OF assms(1-3)] reachable_stale [OF assms(1-3)] assms(4) _ assms(5), of n]
    by blast
  show "HandleSignals_loop px n (set_resources (TimerResources_destroy tr) s) =
      (Inr (), set_resources (TimerResources_destroy tr) s)"
    by (cases n) (simp_all add: TimerResources_destroy_def)
qed

theorem signal_thread_drains_witness:
  "\<exists>s'. HandleSignals_loop (kernel_posix True) 1 fired_timers = (Inr (), s') \<and> sk_pending (t_kernel s') = []"
proof -
  obtain tr where tr: "td_resources (t_data fired_timers) = Some tr" "\<not> tr_shutdown tr"
    by (simp add: fired_timers_def timer_run_defs)
  from signal_thread_drains [OF demo_lib_ok purging.posix_timers_axioms
      fired_timers_reachable tr(1) fired_timers_facts(4), of 1] tr(2)
  show ?thesis by (auto simp: fired_timers_facts)
qed

section \<open>msglib::Initialize\<close>

lemma TimerManager_Initialize_cases:
  assumes "TimerManager_Initialize px fresh s = (ok, s')"
  shows "t_sys s' = t_sys s \<and> t_objs s' = t_objs s \<and> (td_initialized (t_data s) \<longrightarrow> t_data s' = t_data s) \<and>
    (ok \<longrightarrow> td_initialized (t_data s'))"
  using assms
  by (auto simp: TimerManager_Initialize_def TimerManagerData_Initialize_def
      split: prod.split_asm bool.split_asm option.split_asm if_split_asm)

text \<open>
  \<^verbatim>\<open>msglib::Initialize\<close> sets both subsystems up, once: if it returned true, the timers and the
  mailboxes are initialized, and every later call returns false and leaves both as they are
  (\<^verbatim>\<open>TimerManager\<close> would report success the second time, \<^verbatim>\<open>Mailbox\<close> does not).
\<close>
lemma msglib_initialize_once:
  assumes "msglib_Initialize px fresh lib a b c d s = Inr (True, s1)"
  shows "td_initialized (t_data s1) \<and> md_initialized (w_data (s_world (t_sys s1))) \<and>
    (\<exists>s2. msglib_Initialize px fresh' lib a' b' c' d' s1 = Inr (False, s2) \<and>
       t_data s2 = t_data s1 \<and> t_sys s2 = t_sys s1)"
proof -
  obtain r s0 where t: "TimerManager_Initialize px fresh s = (r, s0)" by fastforce
  from assms obtain w where w: "r" "Mailbox_Initialize lib a b c d (s_world (t_sys s0)) = Inr (True, w)"
      "s1 = set_world w s0"
    by (auto simp: msglib_Initialize_def t and_then_eq_Inr)
  have free: "\<not> md_locked (w_data (s_world (t_sys s0)))"
    using w(2) by (auto simp: Mailbox_Initialize_def on_data_def MailboxData_Initialize_def md_lock_def)
  have init: "md_initialized (w_data w)" "\<not> md_locked (w_data w)"
    using w(2) free Mailbox_Initialize_eq [OF free, of lib a b c d]
    by (auto split: option.splits if_splits)
  have timers: "td_initialized (t_data s1)"
    using TimerManager_Initialize_cases [OF t] w by (simp add: set_world_def)
  obtain r' s0' where t': "TimerManager_Initialize px fresh' s1 = (r', s0')" by fastforce
  note same = TimerManager_Initialize_cases [OF t']
  have "s_world (t_sys s0') = w" using same w(3) by (simp add: set_world_def)
  moreover have "Mailbox_Initialize lib a' b' c' d' w = Inr (False, w)"
    using Mailbox_Initialize_eq [OF init(2), of lib a' b' c' d'] init(1) by simp
  ultimately have "msglib_Initialize px fresh' lib a' b' c' d' s1 = Inr (False, set_world w s0')"
    by (simp add: msglib_Initialize_def t')
  moreover have "t_sys (set_world w s0') = t_sys s1" "t_data (set_world w s0') = t_data s1"
    using same timers w(3) by (simp_all add: set_world_def)
  ultimately show ?thesis using timers init(1) w(3) by (auto simp: set_world_def)
qed

definition fresh_program :: "(monotonic sync_pool, kernel) tsys" where
  "fresh_program = \<lparr>t_sys = sys_new (\<lambda>_. 0), t_kernel = kernel_new 10,
     t_data = TimerManagerData_new, t_objs = Map.empty, t_taken = None\<rparr>"

lemma msglib_initialize_once_example:
  "\<exists>s1 s2. msglib_Initialize (kernel_posix True) (Some (4096, \<lambda>_. 0)) demo_lib 256 4 2048 2 fresh_program =
       Inr (True, s1) \<and> td_initialized (t_data s1) \<and>
     msglib_Initialize (kernel_posix True) None demo_lib 1 1 1 1 s1 = Inr (False, s2)"
proof -
  define s1 where "s1 = snd (projr (msglib_Initialize (kernel_posix True) (Some (4096, \<lambda>_. 0)) demo_lib
      256 4 2048 2 fresh_program))"
  have "msglib_Initialize (kernel_posix True) (Some (4096, \<lambda>_. 0)) demo_lib 256 4 2048 2 fresh_program =
      Inr (True, s1)"
    by (simp add: s1_def msglib_Initialize_def fresh_program_def TimerManager_Initialize_def
        set_world_def timer_run_defs mailbox_run_defs)
  note run = this
  from msglib_initialize_once [OF run, of None 1 1 1 1] run show ?thesis by blast
qed

end
