(* ===== verification/TimerSpec.thy ===== *)
theory TimerSpec
  imports TimerProps
begin

text \<open>
  An abstract machine for the mailboxes with timers, which has no addresses, objects or kernel, and
  the refinement: every disciplined run of calls, expiries and steps of the signal thread is a run
  of this machine.
\<close>

section \<open>The abstract machine\<close>

text \<open>
  To a label with a timer belong the number the kernel gave it, its type, and whether it is running;
  \<open>tb_due\<close> are the labels of the expired timers whose signal has not been taken, \<open>tb_taken\<close> is the
  label of the one that has been taken and not been sent.
\<close>

record timed_bus =
  tb_bus :: pubsub
  tb_timers :: "label \<Rightarrow> (nat \<times> TimerType \<times> bool) option"
  tb_due :: "label list"
  tb_taken :: "label option"

inductive timed_step :: "timed_bus \<Rightarrow> tcall \<Rightarrow> bool \<Rightarrow> timed_bus \<Rightarrow> bool" where
  ts_mail: "pubsub_step (tb_bus a) c ok b \<Longrightarrow> timed_step a (T_Mail c) ok (a\<lparr>tb_bus := b\<rparr>)"
| ts_taken: "tb_timers a l \<noteq> None \<Longrightarrow> timed_step a (T_Start l time type) False a"
| ts_start: "tb_timers a l = None \<Longrightarrow> \<forall>k x. tb_timers a k \<noteq> Some (i, x) \<Longrightarrow>
     timed_step a (T_Start l time type) True
       (a\<lparr>tb_timers := (tb_timers a)(l \<mapsto> (i, type, time \<noteq> timespec_zero))\<rparr>)"
| ts_cancel_none: "tb_timers a l = None \<Longrightarrow> timed_step a (T_Cancel l) False a"
| ts_cancel: "tb_timers a l \<noteq> None \<Longrightarrow> tb_taken a \<noteq> Some l \<Longrightarrow> l \<notin> set (tb_due a) \<Longrightarrow>
     timed_step a (T_Cancel l) True (a\<lparr>tb_timers := (tb_timers a)(l := None)\<rparr>)"
| ts_idle: "\<forall>l type. tb_timers a l \<noteq> Some (i, type, True) \<Longrightarrow> timed_step a (T_Expire i) True a"
| ts_expire: "tb_timers a l = Some (i, type, True) \<Longrightarrow>
     timed_step a (T_Expire i) True
       (a\<lparr>tb_timers := (tb_timers a)(l \<mapsto> (i, type, type = PERIODIC)),
          tb_due := (if l \<in> set (tb_due a) then tb_due a else tb_due a @ [l])\<rparr>)"
| ts_quiet: "tb_taken a = None \<Longrightarrow> tb_due a = [] \<Longrightarrow> timed_step a T_Signal True a"
| ts_take: "tb_taken a = None \<Longrightarrow> tb_due a = l # ls \<Longrightarrow>
     timed_step a T_Signal True (a\<lparr>tb_due := ls, tb_taken := Some l\<rparr>)"
| ts_periodic: "tb_taken a = Some l \<Longrightarrow> tb_timers a l = Some (i, PERIODIC, r) \<Longrightarrow>
     pubsub_step (tb_bus a) (Call_SendSignal l) True b \<Longrightarrow>
     timed_step a T_Signal True (a\<lparr>tb_bus := b, tb_taken := None\<rparr>)"
| ts_one_shot: "tb_taken a = Some l \<Longrightarrow> tb_timers a l = Some (i, ONE_SHOT, r) \<Longrightarrow>
     pubsub_step (tb_bus a) (Call_SendSignal l) True b \<Longrightarrow>
     timed_step a T_Signal True
       (a\<lparr>tb_bus := b, tb_timers := (tb_timers a)(l := None), tb_taken := None\<rparr>)"

inductive timed_run :: "timed_bus \<Rightarrow> tcall list \<Rightarrow> bool list \<Rightarrow> timed_bus \<Rightarrow> bool" where
  timed_done: "timed_run a [] [] a"
| timed_call: "timed_step a c ok b \<Longrightarrow> timed_run b cs oks d \<Longrightarrow> timed_run a (c # cs) (ok # oks) d"

section \<open>The abstraction\<close>

definition timers_of ::
  "('k \<Rightarrow> nat \<Rightarrow> itimerspec option) \<Rightarrow> ('r, 'k) tsys \<Rightarrow> label \<Rightarrow> (nat \<times> TimerType \<times> bool) option" where
  "timers_of armed s l =
     (case td_resources (t_data s) of
        None \<Rightarrow> None
      | Some tr \<Rightarrow>
          if tr_timers tr l = nullptr then None
          else map_option (\<lambda>tm. (tm_timer tm, tm_type tm, armed (t_kernel s) (tm_timer tm) \<noteq> None))
                 (t_objs s (tr_timers tr l)))"

definition due_of :: "('k \<Rightarrow> (nat \<times> addr) list) \<Rightarrow> ('r, 'k) tsys \<Rightarrow> label list" where
  "due_of pending s = map (\<lambda>e. tm_label (the (t_objs s (snd e)))) (pending (t_kernel s))"

definition timed_abstract ::
  "('k \<Rightarrow> nat \<Rightarrow> itimerspec option) \<Rightarrow> ('k \<Rightarrow> (nat \<times> addr) list) \<Rightarrow> ('r, 'k) tsys \<Rightarrow> timed_bus" where
  "timed_abstract armed pending s =
     \<lparr>tb_bus = abstract (t_sys s), tb_timers = timers_of armed s, tb_due = due_of pending s,
      tb_taken = in_flight s\<rparr>"

lemma in_flight_update [simp]:
  "in_flight (s\<lparr>t_sys := y\<rparr>) = in_flight s" "in_flight (s\<lparr>t_kernel := k\<rparr>) = in_flight s"
  by (simp_all add: in_flight_def split: option.split)

text \<open>Timers have the setting they were started with; a timer set to zero does not run.\<close>

definition settings_inv :: "('k \<Rightarrow> nat \<Rightarrow> itimerspec option) \<Rightarrow> ('r, 'k) tsys \<Rightarrow> bool" where
  "settings_inv armed s \<longleftrightarrow>
     (\<forall>p tm. t_objs s p = Some tm \<longrightarrow> (\<exists>time. tm_spec tm = timer_spec time (tm_type tm))) \<and>
     (\<forall>i x. armed (t_kernel s) i = Some x \<longrightarrow> it_value x \<noteq> timespec_zero)"

lemma settings_invI:
  "(\<And>p tm. t_objs s p = Some tm \<Longrightarrow> \<exists>time. tm_spec tm = timer_spec time (tm_type tm)) \<Longrightarrow>
     (\<And>i x. armed (t_kernel s) i = Some x \<Longrightarrow> it_value x \<noteq> timespec_zero) \<Longrightarrow> settings_inv armed s"
  by (auto simp: settings_inv_def)

lemma settings_invD:
  assumes "settings_inv armed s"
  shows "t_objs s p = Some tm \<Longrightarrow> \<exists>time. tm_spec tm = timer_spec time (tm_type tm)"
    "armed (t_kernel s) i = Some x \<Longrightarrow> it_value x \<noteq> timespec_zero"
  using assms by (auto simp: settings_inv_def)

lemma settings_inv_less:
  assumes "settings_inv armed s" and "t_objs s' \<subseteq>\<^sub>m t_objs s" and "armed (t_kernel s') \<subseteq>\<^sub>m armed (t_kernel s)"
  shows "settings_inv armed s'"
proof (rule settings_invI)
  fix p tm assume "t_objs s' p = Some tm"
  then have "t_objs s p = Some tm" using assms(2) by (auto simp: map_le_def dom_def)
  then show "\<exists>time. tm_spec tm = timer_spec time (tm_type tm)" by (rule settings_invD(1) [OF assms(1)])
next
  fix i x assume "armed (t_kernel s') i = Some x"
  then have "armed (t_kernel s) i = Some x" using assms(3) by (auto simp: map_le_def dom_def)
  then show "it_value x \<noteq> timespec_zero" by (rule settings_invD(2) [OF assms(1)])
qed

lemma timer_spec_runs:
  "x = timer_spec time type \<Longrightarrow> it_value x \<noteq> timespec_zero \<Longrightarrow>
     it_interval x = timespec_zero \<longleftrightarrow> type \<noteq> PERIODIC"
  by (cases type) (auto simp: timer_spec_def)

section \<open>Every step\<close>

text \<open>What a label's timer is, by the invariant.\<close>

lemma timers_of_eq:
  assumes "timer_inv live armed pending tr (t_objs s) (t_kernel s)" and "td_resources (t_data s) = Some tr"
  shows "timers_of armed s l = Some (i, type, r) \<longleftrightarrow>
      (\<exists>p tm. t_objs s p = Some tm \<and> tm_label tm = l \<and> tm_timer tm = i \<and> tm_type tm = type \<and>
         r = (armed (t_kernel s) i \<noteq> None))"
    and "timers_of armed s l = None \<longleftrightarrow> tr_timers tr l = nullptr"
proof -
  note d = timer_invD [OF assms(1)]
  show none: "timers_of armed s l = None \<longleftrightarrow> tr_timers tr l = nullptr"
    using d(3) [of l] assms(2) by (auto simp: timers_of_def)
  show "timers_of armed s l = Some (i, type, r) \<longleftrightarrow>
      (\<exists>p tm. t_objs s p = Some tm \<and> tm_label tm = l \<and> tm_timer tm = i \<and> tm_type tm = type \<and>
         r = (armed (t_kernel s) i \<noteq> None))"
  proof
    assume "timers_of armed s l = Some (i, type, r)"
    then have "tr_timers tr l \<noteq> nullptr" using none by auto
    from d(3) [OF this] \<open>timers_of armed s l = Some (i, type, r)\<close> show "\<exists>p tm. t_objs s p = Some tm \<and>
        tm_label tm = l \<and> tm_timer tm = i \<and> tm_type tm = type \<and> r = (armed (t_kernel s) i \<noteq> None)"
      using assms(2) by (auto simp: timers_of_def split: if_splits)
  next
    assume "\<exists>p tm. t_objs s p = Some tm \<and> tm_label tm = l \<and> tm_timer tm = i \<and> tm_type tm = type \<and>
         r = (armed (t_kernel s) i \<noteq> None)"
    then obtain p tm where "t_objs s p = Some tm" "tm_label tm = l" "tm_timer tm = i" "tm_type tm = type"
        "r = (armed (t_kernel s) i \<noteq> None)" by blast
    then show "timers_of armed s l = Some (i, type, r)"
      using d(4) [of p tm] assms(2) by (simp add: timers_of_def)
  qed
qed

lemma timers_without:
  assumes inv: "timer_inv live armed pending tr (t_objs s) (t_kernel s)" and tr: "td_resources (t_data s) = Some tr"
    and tm: "t_objs s p = Some tm" and s': "t_objs s' = (t_objs s)(p := None)"
    and tr': "td_resources (t_data s') = Some tr'" "tr_timers tr' = (tr_timers tr)(tm_label tm := nullptr)"
    and armed: "armed (t_kernel s') = (armed (t_kernel s))(tm_timer tm := None)"
  shows "timers_of armed s' = (timers_of armed s)(tm_label tm := None)"
proof
  fix k
  have p: "tr_timers tr (tm_label tm) = p" using timer_invD(4) [OF inv tm] by simp
  have "tr_timers tr k \<noteq> p" "tm_timer tm2 \<noteq> tm_timer tm"
    if "k \<noteq> tm_label tm" "tr_timers tr k \<noteq> nullptr" "t_objs s (tr_timers tr k) = Some tm2" for tm2
  proof -
    show "tr_timers tr k \<noteq> p" using timer_invD(3) [OF inv that(2)] that(1) tm by auto
    then show "tm_timer tm2 \<noteq> tm_timer tm" using timer_inv_inj [OF inv that(3) tm] by auto
  qed
  then show "timers_of armed s' k = ((timers_of armed s)(tm_label tm := None)) k"
    using timer_invD(3) [OF inv, of k] by (auto simp: timers_of_def tr tr' s' armed)
qed

lemma due_same:
  assumes "pending (t_kernel s') = pending (t_kernel s)"
    and "\<And>i q. (i, q) \<in> set (pending (t_kernel s)) \<Longrightarrow> t_objs s' q = t_objs s q"
  shows "due_of pending s' = due_of pending s"
  using assms by (auto simp: due_of_def)

lemma no_stale:
  assumes "stale pending s = {}" and "(i, p) \<in> set (pending (t_kernel s))"
  obtains tm where "t_objs s p = Some tm"
  using assms by (cases "t_objs s p") (auto simp: set_eq_iff stale_iff)

lemma due_iff:
  assumes inv: "timer_inv live armed pending tr (t_objs s) (t_kernel s)" and "stale pending s = {}"
    and tm: "t_objs s p = Some tm"
  shows "tm_label tm \<in> set (due_of pending s) \<longleftrightarrow> (tm_timer tm, p) \<in> set (pending (t_kernel s))"
proof
  assume "tm_label tm \<in> set (due_of pending s)"
  then obtain i q where q: "(i, q) \<in> set (pending (t_kernel s))" "tm_label (the (t_objs s q)) = tm_label tm"
    by (auto simp: due_of_def)
  from no_stale [OF assms(2) q(1)] obtain tm2 where tm2: "t_objs s q = Some tm2" by blast
  have "q = p" using timer_invD(4) [OF inv tm] timer_invD(4) [OF inv tm2] q(2) tm2 by auto
  then show "(tm_timer tm, p) \<in> set (pending (t_kernel s))"
    using q(1) timer_invD(6) [OF inv q(1) tm2] tm2 tm by simp
qed (use tm in \<open>force simp: due_of_def\<close>)

context posix_timers begin

lemma mail_refines:
  assumes lib: "mailbox_lib lib owns" and inv: "tsys_inv owns live armed pending s"
    and ok: "call_ok c (t_sys s)" and exec: "tsys_exec px expire lib (T_Mail c) s = (Inr b, s')"
  shows "t_objs s' = t_objs s" "t_kernel s' = t_kernel s"
    "timed_step (timed_abstract armed pending s) (T_Mail c) b (timed_abstract armed pending s')"
proof -
  from exec obtain y where y: "sys_exec lib c (t_sys s) = Inr (b, y)" "s' = s\<lparr>t_sys := y\<rparr>"
    by (auto split: sum.splits)
  then show "t_objs s' = t_objs s" "t_kernel s' = t_kernel s" by simp_all
  obtain lost S G where "sys_inv owns (t_sys s) lost S G" using inv by (rule tsys_invE)
  from mailbox_lib.exec_good [OF lib this ok] y(1) have "pubsub_step (abstract (t_sys s)) c b (abstract y)"
    by (auto simp: good_step_def)
  then have "timed_step (timed_abstract armed pending s) (T_Mail c) b
      ((timed_abstract armed pending s)\<lparr>tb_bus := abstract y\<rparr>)"
    by (intro ts_mail) (simp add: timed_abstract_def)
  moreover have "(timed_abstract armed pending s)\<lparr>tb_bus := abstract y\<rparr> = timed_abstract armed pending s'"
    using y(2) by (cases "td_resources (t_data s)") (simp_all add: timed_abstract_def timers_of_def fun_eq_iff due_of_def)
  ultimately show "timed_step (timed_abstract armed pending s) (T_Mail c) b (timed_abstract armed pending s')"
    by simp
qed

lemma start_refines:
  assumes inv: "tsys_inv owns live armed pending s" "stale pending s = {}" and set: "settings_inv armed s"
    and time: "valid_timespec time" and exec: "tsys_exec px expire lib (T_Start l time type) s = (Inr b, s')"
  shows "settings_inv armed s' \<and>
    timed_step (timed_abstract armed pending s) (T_Start l time type) b (timed_abstract armed pending s')"
proof -
  from inv(1) obtain tr where tr: "td_resources (t_data s) = Some tr"
      "timer_inv live armed pending tr (t_objs s) (t_kernel s)" by (rule tsys_invE)
  note d = timer_invD [OF tr(2)]
  note T = timers_of_eq [OF tr(2,1)]
  have exec: "TimerManagerData_startTimer px l time type s = (Inr b, s')"
    using exec by (simp add: TimerManager_StartTimer_timespec_def)
  from tr time show ?thesis
  proof (cases rule: start_spec [where l = l and type = type])
    case taken
    then show ?thesis using set exec T(2) [of l]
      by (auto intro: ts_taken simp: timed_abstract_def)
  next
    case (failed e s2)
    then show ?thesis using exec by simp
  next
    case (started tr' p i k')
    let ?tm = "\<lparr>tm_label = l, tm_timer = i, tm_type = type, tm_spec = timer_spec time type\<rparr>"
    have s': "b" "t_objs s' = (t_objs s)(p \<mapsto> ?tm)" "t_kernel s' = k'" "td_resources (t_data s') = Some tr'"
        "t_sys s' = t_sys s" "t_taken s' = t_taken s"
      using started(2) exec by auto
    have old: "tm_timer tm \<noteq> i" if "t_objs s q = Some tm" for q tm
      using timer_inv_live [OF tr(2) that] started(11) by auto
    have "in_flight s' = in_flight s"
      using inv(2) started(6) by (auto simp: in_flight_def set_eq_iff stale_iff s' split: option.splits)
    moreover have "settings_inv armed s'"
      using settings_invD [OF set] by (intro settings_invI) (auto simp: s' started timer_spec_def split: if_splits)
    moreover have "timers_of armed s' = (timers_of armed s)(l \<mapsto> (i, type, time \<noteq> timespec_zero))"
    proof
      fix k
      have "tr_timers tr k \<noteq> p" using d(3) [of k] started(5,6) by auto
      then show "timers_of armed s' k = ((timers_of armed s)(l \<mapsto> (i, type, time \<noteq> timespec_zero))) k"
        using d(3) [of k] old
        by (cases "k = l") (auto simp: timers_of_def s' tr(1) started)
    qed
    moreover have "due_of pending s' = due_of pending s"
      by (intro due_same) (use d(7) started(7) in \<open>fastforce simp: s' started(14)\<close>)+
    moreover have "timers_of armed s l = None" "timers_of armed s k \<noteq> Some (i, x)" for k x
      using T(2) [of l] started(1) T(1) [of k i "fst x" "snd x"] old by auto
    ultimately show ?thesis
      using ts_start [of "timed_abstract armed pending s" l i time type] s'
      by (simp add: timed_abstract_def)
  qed
qed

lemma cancel_refines:
  assumes inv: "tsys_inv owns live armed pending s" and set: "settings_inv armed s"
    and free: "stale pending s = {}" "\<not> awaits_signal pending l s" and exec: "tsys_exec px expire lib (T_Cancel l) s = (Inr b, s')"
  shows "settings_inv armed s' \<and>
    timed_step (timed_abstract armed pending s) (T_Cancel l) b (timed_abstract armed pending s')"
proof -
  from inv obtain tr where tr: "td_resources (t_data s) = Some tr"
      "timer_inv live armed pending tr (t_objs s) (t_kernel s)" by (rule tsys_invE)
  note T = timers_of_eq [OF tr(2,1)]
  have exec: "TimerManagerData_cancelTimer px l s = (Inr b, s')"
    using exec by (simp add: TimerManager_CancelTimer_def)
  show ?thesis
  proof (cases "tr_timers tr l = nullptr")
    case True
    then have "b = False" "s' = s" using exec tr(1) by (auto simp: TimerManagerData_cancelTimer_def)
    then show ?thesis using set T(2) [of l] True by (auto intro: ts_cancel_none simp: timed_abstract_def)
  next
    case False
    from timer_invD(3) [OF tr(2) False] obtain tm where tm: "t_objs s (tr_timers tr l) = Some tm"
        "tm_label tm = l" by blast
    from cancel_spec [OF tr refl False tm(1)] obtain k' tr' where c:
        "TimerManagerData_cancelTimer px l s = (Inr True, set_resources tr'
           (s\<lparr>t_kernel := k', t_objs := (t_objs s)(tr_timers tr l := None)\<rparr>))"
        "tr_timers tr' = (tr_timers tr)(l := nullptr)" "armed k' = (armed (t_kernel s))(tm_timer tm := None)"
        "pending k' \<in> {pending (t_kernel s), removeAll (tm_timer tm, tr_timers tr l) (pending (t_kernel s))}"
      by blast
    have quiet: "t_taken s \<noteq> Some (tr_timers tr l)" "(i, tr_timers tr l) \<notin> set (pending (t_kernel s))" for i
      using free(2) tm by (auto simp: awaits_signal_def signalled_iff)
    have s': "b" "t_objs s' = (t_objs s)(tr_timers tr l := None)" "t_kernel s' = k'"
        "td_resources (t_data s') = Some tr'" "t_sys s' = t_sys s" "t_taken s' = t_taken s"
      using c(1) exec by auto
    have "in_flight s' = in_flight s"
      using quiet(1) by (auto simp: in_flight_def s' split: option.splits)
    moreover have "settings_inv armed s'" using set
      by (rule settings_inv_less) (simp_all add: s' c(3) map_le_def)
    moreover have "timers_of armed s' = (timers_of armed s)(l := None)"
      using timers_without [OF tr(2,1) tm(1) s'(2,4)] by (simp add: s' c tm(2))
    moreover have "pending k' = pending (t_kernel s)" using c(4) quiet(2) by auto
    then have "due_of pending s' = due_of pending s"
      using quiet(2) by (intro due_same) (auto simp: s')
    moreover have "in_flight s \<noteq> Some l"
      using timer_invD(4) [OF tr(2)] quiet(1) by (auto simp: in_flight_def split: option.splits)
    moreover have "l \<notin> set (due_of pending s)"
      using due_iff [OF tr(2) free(1) tm(1)] quiet(2) tm(2) by simp
    ultimately show ?thesis
      using ts_cancel [of "timed_abstract armed pending s" l] s' T(2) [of l] False
      by (simp add: timed_abstract_def)
  qed
qed

lemma expire_refines:
  fixes i :: nat
  assumes inv: "tsys_inv owns live armed pending s" "stale pending s = {}" and set: "settings_inv armed s"
  defines "s' \<equiv> s\<lparr>t_kernel := expire (t_kernel s) i\<rparr>"
  shows "settings_inv armed s' \<and>
    timed_step (timed_abstract armed pending s) (T_Expire i) True (timed_abstract armed pending s')"
proof -
  from inv(1) obtain tr where tr: "td_resources (t_data s) = Some tr"
      "timer_inv live armed pending tr (t_objs s) (t_kernel s)" by (rule tsys_invE)
  note d = timer_invD [OF tr(2)]
  note T = timers_of_eq [OF tr(2,1)]
  show ?thesis
  proof (cases "armed (t_kernel s) i")
    case None
    then have "s' = s" by (simp add: s'_def expire_idle)
    then show ?thesis using set T(1) None by (auto intro: ts_idle simp: timed_abstract_def)
  next
    case (Some x)
    from d(5) [OF this] obtain p tm where p: "live (t_kernel s) i = Some p" "t_objs s p = Some tm"
        "tm_timer tm = i" "x = tm_spec tm" by blast
    note e = expire_armed [OF Some p(1)]
    from settings_invD(1) [OF set p(2)] obtain time where "x = timer_spec time (tm_type tm)" using p(4) by blast
    from timer_spec_runs [OF this settings_invD(2) [OF set Some]]
    have runs: "it_interval x = timespec_zero \<longleftrightarrow> tm_type tm \<noteq> PERIODIC" .
    have "settings_inv armed s'" using set
      by (rule settings_inv_less) (use e Some in \<open>auto simp: s'_def map_le_def\<close>)
    moreover have "timers_of armed s' = (timers_of armed s)(tm_label tm \<mapsto> (i, tm_type tm, tm_type tm = PERIODIC))"
    proof
      fix k
      have "tm_timer tm2 \<noteq> i" if "k \<noteq> tm_label tm" "tr_timers tr k \<noteq> nullptr" "t_objs s (tr_timers tr k) = Some tm2" for tm2
        using timer_inv_inj [OF tr(2) that(3) p(2)] d(3) [OF that(2)] that(1) p(2,3) by auto
      then show "timers_of armed s' k =
          ((timers_of armed s)(tm_label tm \<mapsto> (i, tm_type tm, tm_type tm = PERIODIC))) k"
        using d(3) [of k] d(4) [OF p(2)] p e runs
        by (cases "k = tm_label tm") (auto simp: timers_of_def s'_def tr(1))
    qed
    moreover have "due_of pending s' = (if tm_label tm \<in> set (due_of pending s) then due_of pending s
        else due_of pending s @ [tm_label tm])"
      using e p(2,3) due_iff [OF tr(2) inv(2) p(2)] by (simp add: due_of_def s'_def)
    moreover have "in_flight s' = in_flight s" by (simp add: s'_def)
    moreover have "timers_of armed s (tm_label tm) = Some (i, tm_type tm, True)"
      using T(1) p(2,3) Some by auto
    ultimately show ?thesis
      using ts_expire [of "timed_abstract armed pending s" "tm_label tm" i "tm_type tm"]
      by (simp add: timed_abstract_def s'_def cong: if_cong)
  qed
qed

text \<open>What the second step of the signal thread does to the timers.\<close>

lemma handled_refines:
  assumes tr: "td_resources (t_data s) = Some tr" "timer_inv live armed pending tr (t_objs s) (t_kernel s)"
    and tm: "t_objs s p = Some tm"
    and sent: "pubsub_step (abstract (t_sys s)) (Call_SendSignal (tm_label tm)) True (abstract (t_sys s'))"
    and taken: "in_flight s = Some (tm_label tm)" "in_flight s' = None"
    and tr': "td_resources (t_data s') = Some tr'" and set: "settings_inv armed s"
    and periodic: "tm_type tm = PERIODIC \<Longrightarrow>
      t_objs s' = t_objs s \<and> tr_timers tr' = tr_timers tr \<and> t_kernel s' = t_kernel s"
    and one_shot: "tm_type tm = ONE_SHOT \<Longrightarrow> t_objs s' = (t_objs s)(p := None) \<and>
      tr_timers tr' = (tr_timers tr)(tm_label tm := nullptr) \<and>
      live (t_kernel s') = (live (t_kernel s))(tm_timer tm := None) \<and>
      armed (t_kernel s') = (armed (t_kernel s))(tm_timer tm := None) \<and>
      (\<forall>j. (j, p) \<notin> set (pending (t_kernel s)))"
    and pend: "pending (t_kernel s') = pending (t_kernel s)"
  shows "settings_inv armed s' \<and>
    timed_step (timed_abstract armed pending s) T_Signal True (timed_abstract armed pending s')"
proof -
  let ?l = "tm_label tm"
  have timer: "timers_of armed s ?l = Some (tm_timer tm, tm_type tm, armed (t_kernel s) (tm_timer tm) \<noteq> None)"
    using timers_of_eq(1) [OF tr(2,1)] tm by blast
  show ?thesis
  proof (cases "tm_type tm")
    case PERIODIC
    note e = periodic [OF PERIODIC]
    have "timers_of armed s' = timers_of armed s"
      using e tr(1) tr' by (simp add: timers_of_def fun_eq_iff)
    then show ?thesis
      using ts_periodic [of "timed_abstract armed pending s" ?l _ _ "abstract (t_sys s')"]
        timer sent taken e PERIODIC settings_inv_less [OF set, of s']
      by (simp add: timed_abstract_def due_of_def)
  next
    case ONE_SHOT
    from one_shot [OF ONE_SHOT] have e: "t_objs s' = (t_objs s)(p := None)"
        "tr_timers tr' = (tr_timers tr)(?l := nullptr)"
        "armed (t_kernel s') = (armed (t_kernel s))(tm_timer tm := None)"
        "\<And>j. (j, p) \<notin> set (pending (t_kernel s))" by blast+
    have "timers_of armed s' = (timers_of armed s)(?l := None)"
      by (rule timers_without [OF tr(2,1) tm e(1) tr' e(2,3)])
    moreover have "due_of pending s' = due_of pending s"
      using pend by (rule due_same) (use e(1,4) in auto)
    moreover have "settings_inv armed s'"
      using set by (rule settings_inv_less) (simp_all add: e map_le_def)
    ultimately show ?thesis
      using ts_one_shot [of "timed_abstract armed pending s" ?l _ _ "abstract (t_sys s')"]
        timer sent taken ONE_SHOT
      by (simp add: timed_abstract_def)
  qed
qed

lemma signal_refines:
  assumes lib: "mailbox_lib lib owns" and inv: "tsys_inv owns live armed pending s" "stale pending s = {}"
    and set: "settings_inv armed s" and exec: "tsys_exec px expire lib T_Signal s = (Inr b, s')"
  shows "settings_inv armed s' \<and>
    timed_step (timed_abstract armed pending s) T_Signal b (timed_abstract armed pending s')"
proof -
  from inv(1) obtain tr lost S G where tr: "td_resources (t_data s) = Some tr"
      "timer_inv live armed pending tr (t_objs s) (t_kernel s)"
    and sys: "sys_inv owns (t_sys s) lost S G" "md_initialized (w_data (s_world (t_sys s)))" by (rule tsys_invE)
  from lib inv(1) tr(1) show ?thesis
  proof (cases rule: signal_spec)
    case (idle k')
    then have "b" "s' = s\<lparr>t_kernel := k', t_taken := None\<rparr>" using exec by auto
    moreover from this idle have "timed_abstract armed pending s' = timed_abstract armed pending s"
      by (simp add: timed_abstract_def timers_of_def fun_eq_iff due_of_def in_flight_def tr(1))
    ultimately show ?thesis using idle settings_inv_less [OF set, of s']
      by (auto intro!: ts_quiet simp: timed_abstract_def due_of_def in_flight_def)
  next
    case (take i p ps k')
    from no_stale [OF inv(2), of i p] take(2) obtain tm where tm: "t_objs s p = Some tm" by auto
    from take have "b" and s': "s' = s\<lparr>t_kernel := k', t_taken := Some p\<rparr>" using exec by auto
    have "timers_of armed s' = timers_of armed s" using take(5)
      by (simp add: s' timers_of_def fun_eq_iff tr(1))
    moreover have "due_of pending s = tm_label tm # due_of pending s'" "in_flight s = None"
        "in_flight s' = Some (tm_label tm)"
      using take tm by (simp_all add: s' due_of_def in_flight_def)
    moreover have "settings_inv armed s'" using set by (rule settings_inv_less) (simp_all add: s' take)
    ultimately show ?thesis using \<open>b\<close>
        ts_take [of "timed_abstract armed pending s" "tm_label tm" "due_of pending s'"]
      by (simp add: timed_abstract_def s')
  next
    case (handle p tm w s2 tr')
    then have b: "b" and s2: "s2 = s'" using exec by auto
    note h = handle [unfolded s2]
    have "call_ok (Call_SendSignal (tm_label tm)) (t_sys s)" using sys(2) by simp
    from mailbox_lib.exec_good [OF lib sys(1) this] h(3,5)
    have sent: "pubsub_step (abstract (t_sys s)) (Call_SendSignal (tm_label tm)) True (abstract (t_sys s'))"
      by (auto simp: good_step_def)
    have taken: "in_flight s = Some (tm_label tm)" "in_flight s' = None"
      using h(1,2,6) by (simp_all add: in_flight_def)
    show ?thesis
      using handled_refines [OF tr h(2) sent taken h(8) set h(12,13,11)] b by simp
  next
    case (dangling p)
    then show ?thesis using exec by simp
  qed
qed

lemma step_refines:
  assumes lib: "mailbox_lib lib owns" and inv: "tsys_inv owns live armed pending s" "stale pending s = {}"
    and set: "settings_inv armed s"
    and ok: "tcall_ok pending c s" and exec: "tsys_exec px expire lib c s = (Inr b, s')"
  shows "tsys_inv owns live armed pending s'" "stale pending s' = {}" "settings_inv armed s'"
    "timed_step (timed_abstract armed pending s) c b (timed_abstract armed pending s')"
proof -
  show "tsys_inv owns live armed pending s'" "stale pending s' = {}" using step_good [OF lib inv ok] exec by auto
  have "settings_inv armed s' \<and> timed_step (timed_abstract armed pending s) c b (timed_abstract armed pending s')"
  proof (cases c)
    case (T_Mail m)
    then have "call_ok m (t_sys s)" using ok by simp
    from mail_refines [OF lib inv(1) this exec [unfolded T_Mail]] show ?thesis
      using T_Mail settings_inv_less [OF set, of s'] by simp
  next
    case (T_Start l time type)
    with start_refines [OF inv set] ok exec show ?thesis by simp
  next
    case (T_Cancel l)
    with cancel_refines [OF inv(1) set inv(2)] ok exec show ?thesis by simp
  next
    case T_Signal
    with signal_refines [OF lib inv set] exec show ?thesis by simp
  next
    case (T_Expire i)
    with expire_refines [OF inv set, of i] exec show ?thesis by auto
  qed
  then show "settings_inv armed s'" "timed_step (timed_abstract armed pending s) c b (timed_abstract armed pending s')"
    by simp_all
qed

end

section \<open>The refinement\<close>

text \<open>A program keeps to the discipline in every call it comes to.\<close>

fun tcalls_ok ::
  "'k posix \<Rightarrow> ('k \<Rightarrow> nat \<Rightarrow> 'k) \<Rightarrow> 'r lib \<Rightarrow> ('k \<Rightarrow> (nat \<times> addr) list) \<Rightarrow> tcall list \<Rightarrow>
    ('r, 'k) tsys \<Rightarrow> bool" where
  "tcalls_ok px expire lib pending [] s \<longleftrightarrow> True"
| "tcalls_ok px expire lib pending (c # cs) s \<longleftrightarrow> tcall_ok pending c s \<and>
     (case tsys_exec px expire lib c s of (Inl _, _) \<Rightarrow> True | (Inr _, s') \<Rightarrow> tcalls_ok px expire lib pending cs s')"

lemma reachable_settings:
  assumes lib: "mailbox_lib lib owns" and px: "posix_timers px expire live armed pending"
    and s: "reachable_tsys px expire lib live armed pending s"
  shows "settings_inv armed s"
proof -
  let ?inv = "\<lambda>s. (tsys_inv owns live armed pending s \<and> stale pending s = {}) \<and> settings_inv armed s"
  have "?inv s"
    using s unfolding reachable_tsys_def
  proof (rule reach_invariant)
    fix s :: "('a, 'b) tsys" assume init: "tsys_init lib live armed pending s"
    then have "settings_inv armed s" "stale pending s = {}"
      by (auto simp: tsys_init_def tsys_new_def settings_inv_def stale_iff)
    then show "?inv s" using tsys_init_inv [OF lib init] by simp
  next
    fix s t :: "('a, 'b) tsys"
    assume inv: "?inv s" and "tsys_step px expire lib pending s t"
    then obtain c b where "tcall_ok pending c s" "tsys_exec px expire lib c s = (Inr b, t)" unfolding tsys_step_def by blast
    from posix_timers.step_refines(1-3) [OF px lib _ _ _ this] inv show "?inv t" by blast
  qed
  then show ?thesis ..
qed

lemma run_refines:
  assumes lib: "mailbox_lib lib owns" and px: "posix_timers px expire live armed pending"
    and "tsys_inv owns live armed pending s" and "stale pending s = {}" and "settings_inv armed s" and "tcalls_ok px expire lib pending cs s"
  shows "(\<exists>oks s'. tsys_run px expire lib cs s = (Inr oks, s') \<and>
      timed_run (timed_abstract armed pending s) cs oks (timed_abstract armed pending s')) \<or>
    (\<exists>e s' before l time type rest oks s1. tsys_run px expire lib cs s = (Inl e, s') \<and> out_of_timers e \<and>
      cs = before @ T_Start l time type # rest \<and> tsys_run px expire lib before s = (Inr oks, s1) \<and>
      timed_run (timed_abstract armed pending s) before oks (timed_abstract armed pending s1))"
  using assms(3-)
proof (induction cs arbitrary: s)
  case Nil
  then show ?case by (simp add: timed_done)
next
  case (Cons c cs)
  have ok: "tcall_ok pending c s" using Cons.prems(4) by simp
  from posix_timers.step_good [OF px lib Cons.prems(1,2) ok] show ?case
  proof (elim disjE exE conjE)
    fix e s' l time type
    assume "tsys_exec px expire lib c s = (Inl e, s')" "out_of_timers e" "c = T_Start l time type"
    then show ?thesis by (intro disjI2 exI [of _ e] exI [of _ s'] exI [of _ "[]"] exI [of _ l] exI [of _ time]
        exI [of _ type] exI [of _ cs] exI [of _ "[]"] exI [of _ s]) (simp add: timed_done)
  next
    fix b s2 assume exec: "tsys_exec px expire lib c s = (Inr b, s2)"
    note r = posix_timers.step_refines [OF px lib Cons.prems(1-3) ok exec]
    have "tcalls_ok px expire lib pending cs s2" using Cons.prems(4) exec by simp
    from Cons.IH [OF r(1-3) this] show ?thesis
    proof (elim disjE exE conjE)
      fix oks s'
      assume "tsys_run px expire lib cs s2 = (Inr oks, s')"
        "timed_run (timed_abstract armed pending s2) cs oks (timed_abstract armed pending s')"
      then show ?thesis using exec timed_call [OF r(4)] by simp
    next
      fix e s' before l time type rest oks s1
      assume "tsys_run px expire lib cs s2 = (Inl e, s')" "out_of_timers e"
        "cs = before @ T_Start l time type # rest" "tsys_run px expire lib before s2 = (Inr oks, s1)"
        "timed_run (timed_abstract armed pending s2) before oks (timed_abstract armed pending s1)"
      then show ?thesis using exec timed_call [OF r(4)]
        by (intro disjI2 exI [of _ e] exI [of _ s'] exI [of _ "c # before"] exI [of _ l] exI [of _ time]
          exI [of _ type] exI [of _ rest] exI [of _ "b # oks"] exI [of _ s1]) simp
    qed
  qed
qed

text \<open>
  C4. Refinement of the timers, whatever the kernel does with the signals of deleted timers: a run of
  mailbox calls, starts and cancels, expiries and steps of the signal thread, in any order, that cancels
  no timer whose signal is pending or taken, is with its results a run of the machine in which a label
  has at most one timer: a start succeeds exactly if there is none, a cancel exactly if there is one, an
  expiry puts the label at the end of those due, and the signal thread takes the first due label and
  then publishes it on the bus and drops the timer if it is a one-shot. The run ends early
  only in a \<^verbatim>\<open>StartTimer\<close> that throws for want of memory or POSIX timers; the calls before it are such a run.
\<close>
theorem timers_refine_bus:
  assumes "mailbox_lib lib owns" and "posix_timers px expire live armed pending"
    and "reachable_tsys px expire lib live armed pending s" and "tcalls_ok px expire lib pending cs s"
  shows "(\<exists>oks s'. tsys_run px expire lib cs s = (Inr oks, s') \<and>
      timed_run (timed_abstract armed pending s) cs oks (timed_abstract armed pending s')) \<or>
    (\<exists>e s' before l time type rest oks s1. tsys_run px expire lib cs s = (Inl e, s') \<and> out_of_timers e \<and>
      cs = before @ T_Start l time type # rest \<and> tsys_run px expire lib before s = (Inr oks, s1) \<and>
      timed_run (timed_abstract armed pending s) before oks (timed_abstract armed pending s1))"
  by (rule run_refines [OF assms(1,2) reachable_tsys_inv [OF assms(1-3)] reachable_stale [OF assms(1-3)]
      reachable_settings [OF assms(1-3)] assms(4)])

definition refined_calls :: "tcall list" where
  "refined_calls = [T_Start 7 second PERIODIC, T_Start 7 second ONE_SHOT, T_Expire 0, T_Signal, T_Signal, T_Cancel 7]"

lemma refined_signal: "\<exists>w. Mailbox_SendSignal 7 (s_world demo_sys) = Inr (True, w)"
proof -
  obtain lost S G where "sys_inv std_owns demo_sys lost S G" by (rule reachable_sys_inv [OF demo_lib_ok demo_reachable])
  from mailbox_lib.signal_sys [OF demo_lib_ok this demo_facts(1)] show ?thesis by blast
qed

lemma refined_run:
  "fst (tsys_run (kernel_posix True) kernel_expire demo_lib refined_calls demo_timers) =
     Inr [True, False, True, True, True, True]"
  "tcalls_ok (kernel_posix True) kernel_expire demo_lib sk_pending refined_calls demo_timers"
proof -
  obtain w where w: "Mailbox_SendSignal 7 (s_world demo_sys) = Inr (True, w)" using refined_signal ..
  show "fst (tsys_run (kernel_posix True) kernel_expire demo_lib refined_calls demo_timers) =
      Inr [True, False, True, True, True, True]"
    using w by (simp add: refined_calls_def timer_run_defs)
  show "tcalls_ok (kernel_posix True) kernel_expire demo_lib sk_pending refined_calls demo_timers"
    using w by (simp add: refined_calls_def timer_run_defs awaits_signal_def signalled_def)
qed

theorem timers_refine_bus_witness:
  "\<exists>s'. tsys_run (kernel_posix True) kernel_expire demo_lib refined_calls demo_timers =
       (Inr [True, False, True, True, True, True], s') \<and>
     timed_run (timed_abstract kernel_armed sk_pending demo_timers) refined_calls
       [True, False, True, True, True, True] (timed_abstract kernel_armed sk_pending s')"
  using timers_refine_bus [OF demo_lib_ok purging.posix_timers_axioms demo_timers_reachable refined_run(2)]
    refined_run(1) by auto

end
