(* ===== verification/QueueMonitor.thy ===== *)
theory QueueMonitor
  imports Queue
begin

text \<open>
  How the calls of several threads on one queue (detail/Queue.h) interleave: the mutex, the condition
  variable with \<^verbatim>\<open>notify_one\<close>, spurious wakeups, and the time-outs of \<^verbatim>\<open>popWait\<close>. Between taking and
  releasing the mutex a thread runs one body, which is the operation of theory Queue; waiting on
  the condition variable releases the mutex and takes it again.
\<close>

section \<open>States\<close>

datatype 'a qcall =
    QPush 'a
  | QPop
  | QPopWait
  | QTryPop 'a
  | QEmpty
  | QSize

datatype 'a qresult =
    RBool bool
  | RValue bool 'a
  | RSize size_t

text \<open>
  Where a thread is. \<open>Entering\<close>: at the lock of a call. \<open>Inside\<close>: it has the mutex and is about to run
  the body (for \<^verbatim>\<open>pop\<close> and \<^verbatim>\<open>popWait\<close>, to test the predicate). \<open>Waiting\<close>: in the condition variable.
  \<open>Woken\<close>: out of it, taking the mutex again to repeat the test. \<open>Expired\<close>: the wait timed out, and the
  thread takes the mutex again for the last test, in \<open>Last\<close>. \<open>Leaving\<close>: the body has run, the mutex is
  still held. A thread's \<^verbatim>\<open>popWait\<close> or \<^verbatim>\<open>pop\<close> is told by the flag \<open>timed\<close>.
\<close>

datatype 'a pc =
    Idle
  | Entering "'a qcall"
  | Inside "'a qcall"
  | Waiting bool
  | Woken bool
  | Expired
  | Last
  | Leaving "'a qresult"

record 'a monitor =
  mon_queue :: "'a Queue"
  mon_owner :: "nat option"
  mon_pcs :: "'a pc list"
  mon_in :: "'a list"
  mon_out :: "'a list"

text \<open>
  \<open>mon_pcs\<close> has one entry per thread; \<open>mon_in\<close> and \<open>mon_out\<close> record what was accepted and what was
  taken.
\<close>

definition monitor_new :: "size_t \<Rightarrow> nat \<Rightarrow> 'a monitor" where
  "monitor_new cap n =
     \<lparr>mon_queue = Queue_new cap, mon_owner = None, mon_pcs = replicate n Idle, mon_in = [], mon_out = []\<rparr>"

definition pop_call :: "bool \<Rightarrow> 'a qcall" where
  "pop_call timed = (if timed then QPopWait else QPop)"

definition at :: "'a monitor \<Rightarrow> nat \<Rightarrow> 'a pc \<Rightarrow> bool" where
  "at s t p \<longleftrightarrow> t < length (mon_pcs s) \<and> mon_pcs s ! t = p"

definition goto :: "nat \<Rightarrow> 'a pc \<Rightarrow> 'a monitor \<Rightarrow> 'a monitor" where
  "goto t p s = s\<lparr>mon_pcs := (mon_pcs s)[t := p]\<rparr>"

definition nobody_waits :: "'a monitor \<Rightarrow> bool" where
  "nobody_waits s \<longleftrightarrow> (\<forall>timed. Waiting timed \<notin> set (mon_pcs s))"

text \<open>Taking an element, with the mutex held.\<close>

definition take_element :: "nat \<Rightarrow> 'a qresult \<Rightarrow> 'a \<Rightarrow> 'a Queue \<Rightarrow> 'a monitor \<Rightarrow> 'a monitor" where
  "take_element t r x q s =
     goto t (Leaving r) (s\<lparr>mon_queue := q, mon_out := mon_out s @ [x]\<rparr>)"

definition accept_element :: "nat \<Rightarrow> 'a \<Rightarrow> 'a Queue \<Rightarrow> 'a monitor \<Rightarrow> 'a monitor" where
  "accept_element t x q s =
     goto t (Leaving (RBool True)) (s\<lparr>mon_queue := q, mon_in := mon_in s @ [x]\<rparr>)"

section \<open>Steps\<close>

text \<open>What comes from outside: a thread makes a call, a wait ends without a notification or times out.\<close>

inductive mon_env :: "'a monitor \<Rightarrow> 'a monitor \<Rightarrow> bool" where
  env_call: "at s t Idle \<Longrightarrow> mon_env s (goto t (Entering c) s)"
| env_spurious: "at s t (Waiting timed) \<Longrightarrow> mon_env s (goto t (Woken timed) s)"
| env_timeout: "at s t (Waiting True) \<Longrightarrow> mon_env s (goto t Expired s)"

text \<open>
  What the code does. \<open>int_late\<close>: a thread that was notified finds the deadline passed when it looks
  at the clock, and \<^verbatim>\<open>wait_for\<close> takes this as a time-out.
\<close>

inductive mon_int :: "'a monitor \<Rightarrow> 'a monitor \<Rightarrow> bool" where
  int_lock: "at s t (Entering c) \<Longrightarrow> mon_owner s = None \<Longrightarrow>
     mon_int s (goto t (Inside c) (s\<lparr>mon_owner := Some t\<rparr>))"
| int_full: "at s t (Inside (QPush x)) \<Longrightarrow> Queue_push (mon_queue s) x = (False, q) \<Longrightarrow>
     mon_int s (goto t (Leaving (RBool False)) (s\<lparr>mon_queue := q\<rparr>))"
| int_push: "at s t (Inside (QPush x)) \<Longrightarrow> Queue_push (mon_queue s) x = (True, q) \<Longrightarrow>
     nobody_waits s \<Longrightarrow> mon_int s (accept_element t x q s)"
| int_notify: "at s t (Inside (QPush x)) \<Longrightarrow> Queue_push (mon_queue s) x = (True, q) \<Longrightarrow>
     at s u (Waiting timed) \<Longrightarrow> mon_int s (goto u (Woken timed) (accept_element t x q s))"
| int_pop: "at s t (Inside (pop_call timed)) \<Longrightarrow> Queue_pop (mon_queue s) = Some (x, q) \<Longrightarrow>
     mon_int s (take_element t (RValue True x) x q s)"
| int_wait: "at s t (Inside (pop_call timed)) \<Longrightarrow> Queue_pop (mon_queue s) = None \<Longrightarrow>
     mon_int s (goto t (Waiting timed) (s\<lparr>mon_owner := None\<rparr>))"
| int_relock: "at s t (Woken timed) \<Longrightarrow> mon_owner s = None \<Longrightarrow>
     mon_int s (goto t (Inside (pop_call timed)) (s\<lparr>mon_owner := Some t\<rparr>))"
| int_late: "at s t (Woken True) \<Longrightarrow> mon_int s (goto t Expired s)"
| int_expired: "at s t Expired \<Longrightarrow> mon_owner s = None \<Longrightarrow>
     mon_int s (goto t Last (s\<lparr>mon_owner := Some t\<rparr>))"
| int_last_pop: "at s t Last \<Longrightarrow> Queue_pop (mon_queue s) = Some (x, q) \<Longrightarrow>
     mon_int s (take_element t (RValue True x) x q s)"
| int_last_empty: "at s t Last \<Longrightarrow> Queue_pop (mon_queue s) = None \<Longrightarrow>
     mon_int s (goto t (Leaving (RBool False)) s)"
| int_tryPop: "at s t (Inside (QTryPop v)) \<Longrightarrow> Queue_tryPop (mon_queue s) v = (True, x, q) \<Longrightarrow>
     mon_int s (take_element t (RValue True x) x q s)"
| int_tryPop_empty: "at s t (Inside (QTryPop v)) \<Longrightarrow>
     Queue_tryPop (mon_queue s) v = (False, x, q) \<Longrightarrow>
     mon_int s (goto t (Leaving (RValue False x)) (s\<lparr>mon_queue := q\<rparr>))"
| int_empty: "at s t (Inside QEmpty) \<Longrightarrow>
     mon_int s (goto t (Leaving (RBool (Queue_empty (mon_queue s)))) s)"
| int_size: "at s t (Inside QSize) \<Longrightarrow>
     mon_int s (goto t (Leaving (RSize (Queue_size (mon_queue s)))) s)"
| int_unlock: "at s t (Leaving r) \<Longrightarrow> mon_int s (goto t Idle (s\<lparr>mon_owner := None\<rparr>))"

definition mon_step :: "'a monitor \<Rightarrow> 'a monitor \<Rightarrow> bool" where
  "mon_step s s' \<longleftrightarrow> mon_env s s' \<or> mon_int s s'"

definition mon_reachable :: "size_t \<Rightarrow> nat \<Rightarrow> 'a monitor \<Rightarrow> bool" where
  "mon_reachable cap n = reach (\<lambda>s. s = monitor_new cap n) mon_step"

lemmas mon_steps = mon_env.simps mon_int.simps

section \<open>Counting threads\<close>

lemma tally_goto:
  "at s t p' \<Longrightarrow> tally f (mon_pcs (goto t p s)) + f p' = tally f (mon_pcs s) + f p"
  unfolding at_def goto_def using tally_update [of t "mon_pcs s" f p] by auto

lemma goto_simps [simp]:
  "mon_queue (goto t p s) = mon_queue s" "mon_owner (goto t p s) = mon_owner s"
  "mon_in (goto t p s) = mon_in s" "mon_out (goto t p s) = mon_out s"
  "length (mon_pcs (goto t p s)) = length (mon_pcs s)"
  by (simp_all add: goto_def)

lemma at_goto [simp]:
  "at (goto t p s) u r \<longleftrightarrow> u < length (mon_pcs s) \<and> (if u = t then p = r else at s u r)"
  by (auto simp: at_def goto_def nth_list_update)

lemma at_field_updates [simp]:
  "at (s\<lparr>mon_owner := a\<rparr>) = at s" "at (s\<lparr>mon_queue := q\<rparr>) = at s"
  "at (s\<lparr>mon_in := i\<rparr>) = at s" "at (s\<lparr>mon_out := i\<rparr>) = at s"
  by (auto simp: at_def fun_eq_iff)

lemma at_length: "at s t p \<Longrightarrow> t < length (mon_pcs s)"
  by (simp add: at_def)

lemma at_fun: "at s t p \<Longrightarrow> at s t r \<longleftrightarrow> r = p"
  by (auto simp: at_def)

section \<open>Mutual exclusion\<close>

fun has_lock :: "'a pc \<Rightarrow> bool" where
  "has_lock (Inside c) \<longleftrightarrow> True"
| "has_lock Last \<longleftrightarrow> True"
| "has_lock (Leaving r) \<longleftrightarrow> True"
| "has_lock _ \<longleftrightarrow> False"

definition mutex_inv :: "'a monitor \<Rightarrow> bool" where
  "mutex_inv s \<longleftrightarrow> (\<forall>t p. at s t p \<longrightarrow> (has_lock p \<longleftrightarrow> mon_owner s = Some t)) \<and>
     (\<forall>t. mon_owner s = Some t \<longrightarrow> t < length (mon_pcs s))"

lemma mutex_step: "mutex_inv s \<Longrightarrow> mon_step s s' \<Longrightarrow> mutex_inv s'"
  unfolding mon_step_def
proof (elim disjE)
  assume i: "mutex_inv s"
  { assume "mon_env s s'"
    then show "mutex_inv s'" using i
      by cases (fastforce simp: mutex_inv_def at_def goto_def nth_list_update split: if_splits)+ }
  { assume "mon_int s s'"
    then show "mutex_inv s'" using i
      by cases (fastforce simp: mutex_inv_def at_def goto_def nth_list_update accept_element_def
          take_element_def split: if_splits)+ }
qed

section \<open>Order and capacity\<close>

definition order_inv :: "size_t \<Rightarrow> 'a monitor \<Rightarrow> bool" where
  "order_inv cap s \<longleftrightarrow> q_capacity (mon_queue s) = cap \<and>
     length (q_queue (mon_queue s)) \<le> unat cap \<and>
     mon_in s = mon_out s @ q_queue (mon_queue s)"

lemma order_step: "order_inv cap s \<Longrightarrow> mon_step s s' \<Longrightarrow> order_inv cap s'"
  unfolding mon_step_def
proof (elim disjE)
  assume i: "order_inv cap s"
  { assume "mon_env s s'"
    then show "order_inv cap s'" using i by cases (simp_all add: order_inv_def) }
  { assume "mon_int s s'"
    then show "order_inv cap s'" using i
      by cases (auto simp: order_inv_def accept_element_def take_element_def Queue_pop_items
          Queue_push_def Queue_tryPop_def split: if_splits list.splits) }
qed

section \<open>No lost wakeup\<close>

text \<open>Threads that will test the queue before they wait again or give up.\<close>

fun active :: "'a pc \<Rightarrow> nat" where
  "active (Inside QPop) = 1"
| "active (Inside QPopWait) = 1"
| "active (Woken timed) = 1"
| "active Expired = 1"
| "active Last = 1"
| "active _ = 0"

definition wake_inv :: "'a monitor \<Rightarrow> bool" where
  "wake_inv s \<longleftrightarrow> nobody_waits s \<or> length (q_queue (mon_queue s)) \<le> tally active (mon_pcs s)"

lemma active_pop_call [simp]: "active (Inside (pop_call timed)) = 1"
  by (simp add: pop_call_def)

lemma nobody_waits_goto:
  "nobody_waits s \<Longrightarrow> \<forall>timed. p \<noteq> Waiting timed \<Longrightarrow> nobody_waits (goto t p s)"
  unfolding nobody_waits_def goto_def using set_update_subset_insert by fastforce

lemma nobody_waits_fields [simp]:
  "nobody_waits (s\<lparr>mon_owner := a\<rparr>) = nobody_waits s" "nobody_waits (s\<lparr>mon_queue := q\<rparr>) = nobody_waits s"
  "nobody_waits (s\<lparr>mon_in := i\<rparr>) = nobody_waits s" "nobody_waits (s\<lparr>mon_out := i\<rparr>) = nobody_waits s"
  by (simp_all add: nobody_waits_def)

lemma wake_goto:
  assumes "at s t p'" and "wake_inv s" and "mon_pcs s2 = mon_pcs s" and "\<forall>timed. p \<noteq> Waiting timed"
    and "length (q_queue (mon_queue s2)) + active p' \<le> length (q_queue (mon_queue s)) + active p"
  shows "wake_inv (goto t p s2)"
proof (cases "nobody_waits s")
  case True
  then have "nobody_waits s2" using assms(3) by (simp add: nobody_waits_def)
  from nobody_waits_goto [OF this assms(4)] show ?thesis by (simp add: wake_inv_def)
next
  case False
  have "at s2 t p'" using assms(1,3) by (simp add: at_def)
  from tally_goto [OF this, of active p] False assms show ?thesis by (simp add: wake_inv_def)
qed

lemma wake_nobody:
  "nobody_waits s \<Longrightarrow> mon_pcs s2 = mon_pcs s \<Longrightarrow> \<forall>timed. p \<noteq> Waiting timed \<Longrightarrow> wake_inv (goto t p s2)"
  using nobody_waits_goto [of s2 p t] by (simp add: wake_inv_def nobody_waits_def)

lemma wake_notify:
  assumes "at s t (Inside (QPush x))" and "at s u (Waiting timed)" and "wake_inv s"
    and "q_queue q = q_queue (mon_queue s) @ [x]"
  shows "wake_inv (goto u (Woken timed) (accept_element t x q s))"
proof -
  have "\<not> nobody_waits s" using assms(2) by (auto simp: nobody_waits_def at_def in_set_conv_nth)
  with assms(3) have le: "length (q_queue (mon_queue s)) \<le> tally active (mon_pcs s)"
    by (simp add: wake_inv_def)
  let ?s2 = "s\<lparr>mon_queue := q, mon_in := mon_in s @ [x]\<rparr>"
  have t: "at ?s2 t (Inside (QPush x))" using assms(1) by simp
  have "at (accept_element t x q s) u (Waiting timed)"
    using assms(1,2) by (auto simp: accept_element_def at_fun dest: at_length)
  from tally_goto [OF this, of active "Woken timed"]
    tally_goto [OF t, of active "Leaving (RBool True)"] le
  show ?thesis by (simp add: wake_inv_def accept_element_def assms(4))
qed

lemma wake_empty: "q_queue (mon_queue s) = [] \<Longrightarrow> wake_inv s"
  by (simp add: wake_inv_def)

lemma Queue_pop_None: "Queue_pop q = None \<longleftrightarrow> q_queue q = []"
  by (simp add: Queue_pop_def)

lemma wake_step: "wake_inv s \<Longrightarrow> mon_step s s' \<Longrightarrow> wake_inv s'"
  unfolding mon_step_def
proof (elim disjE)
  assume i: "wake_inv s"
  note g = wake_goto [OF _ i]
  { assume "mon_env s s'"
    then show "wake_inv s'" by cases (auto intro: g) }
  { assume "mon_int s s'"
    then show "wake_inv s'"
    proof cases
      case (int_push t x q)
      then show ?thesis by (auto simp: accept_element_def intro: wake_nobody)
    next
      case (int_notify t x q u timed)
      then show ?thesis using wake_notify [OF _ _ i] by (auto simp: Queue_push_def split: if_splits)
    next
      case (int_wait t timed)
      then show ?thesis by (simp add: wake_empty Queue_pop_None)
    next
      case (int_last_empty t)
      then show ?thesis by (simp add: wake_empty Queue_pop_None)
    next
      case (int_lock t c)
      then show ?thesis using g [of t "Entering c"] by simp
    next
      case (int_full t x q)
      then show ?thesis using g [of t "Inside (QPush x)"] by (simp add: Queue_push_def split: if_splits)
    next
      case (int_pop t timed x q)
      then show ?thesis using g [of t "Inside (pop_call timed)"]
        by (simp add: take_element_def Queue_pop_items)
    next
      case (int_relock t timed)
      then show ?thesis using g [of t "Woken timed"] by simp
    next
      case (int_late t)
      then show ?thesis using g [of t "Woken True"] by simp
    next
      case (int_expired t)
      then show ?thesis using g [of t Expired] by simp
    next
      case (int_last_pop t x q)
      then show ?thesis using g [of t Last] by (simp add: take_element_def Queue_pop_items)
    next
      case (int_tryPop t v x q)
      then show ?thesis using g [of t "Inside (QTryPop v)"]
        by (auto simp: take_element_def Queue_tryPop_def split: list.splits)
    next
      case (int_tryPop_empty t v x q)
      then show ?thesis using g [of t "Inside (QTryPop v)"]
        by (auto simp: Queue_tryPop_def split: list.splits)
    next
      case (int_empty t)
      then show ?thesis using g [of t "Inside QEmpty"] by simp
    next
      case (int_size t)
      then show ?thesis using g [of t "Inside QSize"] by simp
    next
      case (int_unlock t r)
      then show ?thesis using g [of t "Leaving r"] by simp
    qed }
qed

section \<open>Every step of the code is towards rest\<close>

text \<open>An upper bound on the steps a thread still makes, with those of a thread it may wake.\<close>

fun weight :: "'a pc \<Rightarrow> nat" where
  "weight Idle = 0"
| "weight (Waiting timed) = 0"
| "weight (Leaving r) = 1"
| "weight (Inside (QPush x)) = 6"
| "weight (Inside c) = 2"
| "weight Last = 2"
| "weight Expired = 3"
| "weight (Woken timed) = 4"
| "weight (Entering (QPush x)) = 7"
| "weight (Entering c) = 3"

definition work :: "'a monitor \<Rightarrow> nat" where
  "work s = tally weight (mon_pcs s)"

lemma weight_enter: "weight (Inside c) < weight (Entering c)"
  by (cases c) simp_all

lemma weight_pop_call [simp]: "weight (Inside (pop_call timed)) = 2"
  by (simp add: pop_call_def)

lemma work_goto:
  assumes "at s t p'" and "mon_pcs s2 = mon_pcs s" and "weight p < weight p'"
  shows "work (goto t p s2) < work s"
proof -
  have "at s2 t p'" using assms(1,2) by (simp add: at_def)
  from tally_goto [OF this, of weight p] assms(2,3) show ?thesis by (simp add: work_def)
qed

lemma work_notify:
  assumes "at s t (Inside (QPush x))" and "at s u (Waiting timed)"
  shows "work (goto u (Woken timed) (accept_element t x q s)) < work s"
proof -
  let ?s2 = "s\<lparr>mon_queue := q, mon_in := mon_in s @ [x]\<rparr>"
  have t: "at ?s2 t (Inside (QPush x))" using assms(1) by simp
  have "at (accept_element t x q s) u (Waiting timed)"
    using assms by (auto simp: accept_element_def at_fun dest: at_length)
  from tally_goto [OF this, of weight "Woken timed"]
    tally_goto [OF t, of weight "Leaving (RBool True)"]
  show ?thesis by (simp add: work_def accept_element_def)
qed

lemma int_less_work: "mon_int s s' \<Longrightarrow> work s' < work s"
proof (induction rule: mon_int.induct)
  case (int_notify s t x q u timed)
  then show ?case by (intro work_notify)
qed (auto simp: accept_element_def take_element_def intro!: work_goto weight_enter)

lemma int_steps_bounded: "(mon_int ^^ k) s s' \<Longrightarrow> k + work s' \<le> work s"
proof (induction k arbitrary: s')
  case (Suc k)
  then obtain s1 where "(mon_int ^^ k) s s1" "mon_int s1 s'" by auto
  with Suc.IH int_less_work show ?case by fastforce
qed simp

lemma can_rest: "\<exists>s'. mon_int\<^sup>*\<^sup>* s s' \<and> (\<forall>s''. \<not> mon_int s' s'')"
proof (induction "work s" arbitrary: s rule: less_induct)
  case less
  show ?case
  proof (cases "\<exists>s1. mon_int s s1")
    case True
    then obtain s1 where "mon_int s s1" by blast
    with less [OF int_less_work] show ?thesis by (meson converse_rtranclp_into_rtranclp)
  qed auto
qed

section \<open>States at rest\<close>

lemma lock_holder_moves:
  assumes "at s t p" and "has_lock p"
  shows "\<exists>s'. mon_int s s'"
proof (cases p)
  case (Inside c)
  then have t: "at s t (Inside c)" using assms(1) by simp
  show ?thesis
  proof (cases c)
    case (QPush x)
    obtain ok q where pu: "Queue_push (mon_queue s) x = (ok, q)" by fastforce
    consider "\<not> ok" | "ok" "nobody_waits s" | timed where "ok" "Waiting timed \<in> set (mon_pcs s)"
      by (auto simp: nobody_waits_def)
    then show ?thesis
    proof cases
      case 3
      then obtain u where "at s u (Waiting timed)" by (auto simp: at_def in_set_conv_nth)
      with 3 t pu QPush show ?thesis by (auto intro: int_notify)
    qed (use t pu QPush in \<open>auto intro: int_full int_push\<close>)
  next
    case QPop
    then have "at s t (Inside (pop_call False))" using t by (simp add: pop_call_def)
    then show ?thesis by (cases "Queue_pop (mon_queue s)") (auto intro: int_pop int_wait)
  next
    case QPopWait
    then have "at s t (Inside (pop_call True))" using t by (simp add: pop_call_def)
    then show ?thesis by (cases "Queue_pop (mon_queue s)") (auto intro: int_pop int_wait)
  next
    case (QTryPop v)
    obtain ok x q where "Queue_tryPop (mon_queue s) v = (ok, x, q)" by (metis prod_cases3)
    then show ?thesis using t QTryPop by (cases ok) (auto intro: int_tryPop int_tryPop_empty)
  qed (use t in \<open>auto intro: int_empty int_size\<close>)
next
  case Last
  then show ?thesis using assms(1)
    by (cases "Queue_pop (mon_queue s)") (auto intro: int_last_pop int_last_empty)
qed (use assms in \<open>auto intro: int_unlock\<close>)

lemma rest_state:
  assumes "mutex_inv s" and "wake_inv s" and "\<forall>s'. \<not> mon_int s s'"
  shows "mon_owner s = None \<and> (\<forall>p \<in> set (mon_pcs s). p = Idle \<or> (\<exists>timed. p = Waiting timed)) \<and>
    (q_queue (mon_queue s) = [] \<or> nobody_waits s)"
proof -
  have free: "\<not> has_lock p" if "at s t p" for t p using lock_holder_moves [OF that] assms(3) by blast
  then have owner: "mon_owner s = None"
    using assms(1) by (cases "mon_owner s") (auto simp: mutex_inv_def at_def)
  have rest: "p = Idle \<or> (\<exists>timed. p = Waiting timed)" if "p \<in> set (mon_pcs s)" for p
  proof -
    from that obtain t where t: "at s t p" by (auto simp: at_def in_set_conv_nth)
    with free [OF t] assms(3) owner show ?thesis
      by (cases p) (auto dest: int_lock int_relock int_expired)
  qed
  then have "\<forall>p \<in> set (mon_pcs s). active p = 0" by fastforce
  then have "tally active (mon_pcs s) = 0" by (simp add: tally_zero)
  with assms(2) owner rest show ?thesis by (auto simp: wake_inv_def)
qed

section \<open>Reachable states\<close>

lemma nobody_waits_new: "nobody_waits (monitor_new cap n)"
  by (simp add: nobody_waits_def monitor_new_def)

lemma mon_reachable_inv:
  assumes "mon_reachable cap n s"
  shows "mutex_inv s \<and> order_inv cap s \<and> wake_inv s \<and> length (mon_pcs s) = n"
proof -
  have step: "length (mon_pcs s') = length (mon_pcs s)" if "mon_step s s'" for s s' :: "'a monitor"
    using that unfolding mon_step_def mon_steps by (auto simp: accept_element_def take_element_def)
  show ?thesis
    using assms unfolding mon_reachable_def
  proof (rule reach_invariant)
    fix s :: "'a monitor" assume s: "s = monitor_new cap n"
    have idle: "at s t p \<Longrightarrow> p = Idle" for t p by (auto simp: s at_def monitor_new_def)
    have "mon_owner s = None" "length (mon_pcs s) = n" "order_inv cap s"
      by (simp_all add: s monitor_new_def order_inv_def Queue_new_def)
    moreover from this(1) have "mutex_inv s" by (auto simp: mutex_inv_def dest: idle)
    moreover have "wake_inv s" unfolding s wake_inv_def by (rule disjI1 [OF nobody_waits_new])
    ultimately show "mutex_inv s \<and> order_inv cap s \<and> wake_inv s \<and> length (mon_pcs s) = n"
      by blast
  qed (auto intro: mutex_step order_step wake_step simp: step)
qed

section \<open>A run of two threads\<close>

text \<open>Thread 0 calls \<^verbatim>\<open>pop\<close> on the empty queue and waits; thread 1 pushes 7 and wakes it.\<close>

definition m0 :: "nat monitor" where "m0 = monitor_new 1 2"
definition m1 :: "nat monitor" where "m1 = goto 0 (Entering QPop) m0"
definition m2 :: "nat monitor" where "m2 = goto 0 (Inside QPop) (m1\<lparr>mon_owner := Some 0\<rparr>)"
definition m3 :: "nat monitor" where "m3 = goto 0 (Waiting False) (m2\<lparr>mon_owner := None\<rparr>)"
definition m4 :: "nat monitor" where "m4 = goto 1 (Entering (QPush 7)) m3"
definition m5 :: "nat monitor" where "m5 = goto 1 (Inside (QPush 7)) (m4\<lparr>mon_owner := Some 1\<rparr>)"
definition m6 :: "nat monitor" where
  "m6 = goto 0 (Woken False) (accept_element 1 7 \<lparr>q_queue = [7], q_capacity = 1\<rparr> m5)"

lemmas m_defs = m0_def m1_def m2_def m3_def m4_def m5_def m6_def monitor_new_def goto_def at_def
  accept_element_def Queue_new_def numeral_2_eq_2

lemma two_threads:
  "mon_reachable 1 2 m2" "mon_reachable 1 2 m3" "mon_reachable 1 2 m6"
proof -
  have 0: "mon_reachable 1 2 m0" by (auto simp: mon_reachable_def m0_def intro: reach_init)
  have step: "mon_reachable 1 2 s'" if "mon_reachable 1 2 s" "mon_step s s'" for s s' :: "nat monitor"
    using that unfolding mon_reachable_def by (rule reach_step)
  have "mon_step m0 m1" unfolding m1_def mon_step_def
    by (intro disjI1 env_call) (simp add: m_defs)
  note 1 = step [OF 0 this]
  have "mon_step m1 m2" unfolding m2_def mon_step_def
    by (intro disjI2 int_lock) (simp_all add: m_defs)
  note 2 = step [OF 1 this]
  have "mon_step m2 m3" unfolding m3_def mon_step_def
    by (intro disjI2 int_wait) (simp_all add: m_defs pop_call_def Queue_pop_def)
  note 3 = step [OF 2 this]
  have "mon_step m3 m4" unfolding m4_def mon_step_def
    by (intro disjI1 env_call) (simp add: m_defs)
  note 4 = step [OF 3 this]
  have "mon_step m4 m5" unfolding m5_def mon_step_def
    by (intro disjI2 int_lock) (simp_all add: m_defs)
  note 5 = step [OF 4 this]
  have "mon_step m5 m6" unfolding m6_def mon_step_def
    by (intro disjI2 int_notify) (simp_all add: m_defs Queue_push_def)
  note 6 = step [OF 5 this]
  show "mon_reachable 1 2 m2" "mon_reachable 1 2 m3" "mon_reachable 1 2 m6" by (rule 2 3 6)+
qed

text \<open>
  Mutual exclusion: in every reachable state at most one thread is between taking and
  releasing the mutex.
\<close>
lemma queue_mutual_exclusion:
  assumes "mon_reachable cap n s" and "at s t p" and "at s u r" and "has_lock p" and "has_lock r"
  shows "t = u"
proof -
  have "mutex_inv s" using mon_reachable_inv [OF assms(1)] by blast
  with assms(2-5) show ?thesis unfolding mutex_inv_def by (metis option.inject)
qed

lemma queue_mutual_exclusion_example:
  "at m2 0 (Inside QPop) \<and> \<not> has_lock (mon_pcs m2 ! 1)"
proof
  show m: "at m2 0 (Inside QPop)" by (simp add: m_defs)
  have "at m2 1 (mon_pcs m2 ! 1)" by (simp add: m_defs)
  from queue_mutual_exclusion [OF two_threads(1) m this] show "\<not> has_lock (mon_pcs m2 ! 1)" by auto
qed

text \<open>
  C17. However the calls of any number of threads interleave, elements leave in the order in which
  they were accepted, none is lost or taken twice, and the queue never exceeds its capacity.
\<close>
theorem queue_linear_order:
  assumes "mon_reachable cap n s"
  shows "mon_in s = mon_out s @ q_queue (mon_queue s) \<and> length (q_queue (mon_queue s)) \<le> unat cap"
  using mon_reachable_inv [OF assms] by (simp add: order_inv_def)

theorem queue_linear_order_witness:
  "mon_in m6 = [7] \<and> [7] = mon_out m6 @ q_queue (mon_queue m6)"
  using queue_linear_order [OF two_threads(3)] by (simp add: m_defs)

text \<open>
  C5. No lost wakeup: while a thread waits on the condition variable, there are at least as many
  threads on their way to test the queue as there are elements in it.
\<close>
theorem no_lost_wakeup:
  assumes "mon_reachable cap n s" and "at s t (Waiting timed)"
  shows "length (q_queue (mon_queue s)) \<le> length (filter (\<lambda>p. active p = 1) (mon_pcs s))"
proof -
  have "tally active pcs = length (filter (\<lambda>p. active p = 1) pcs)" for pcs :: "'a pc list"
  proof (induction pcs)
    case (Cons p pcs)
    have "active p = 0 \<or> active p = 1" by (cases p rule: active.cases) simp_all
    with Cons show ?case by (auto simp: tally_def)
  qed (simp add: tally_def)
  moreover have "\<not> nobody_waits s" using assms(2) by (auto simp: nobody_waits_def at_def in_set_conv_nth)
  ultimately show ?thesis using mon_reachable_inv [OF assms(1)] by (simp add: wake_inv_def)
qed

theorem no_lost_wakeup_witness:
  "at m3 0 (Waiting False) \<and>
     length (q_queue (mon_queue m3)) \<le> length (filter (\<lambda>p. active p = 1) (mon_pcs m3))"
proof -
  have m: "at m3 0 (Waiting False)" by (simp add: m_defs)
  from no_lost_wakeup [OF two_threads(2) m] m show ?thesis by blast
qed

text \<open>
  C6. No deadlock: from a reachable state the threads can make only so many steps by themselves
  (without new calls, spurious wakeups or time-outs), whatever the order, and where they stop the
  mutex is free, every call has returned or waits for an element, and if one waits the queue is
  empty.
\<close>
theorem queue_progress:
  assumes "mon_reachable cap n s"
  shows "(\<forall>k s'. (mon_int ^^ k) s s' \<longrightarrow> k \<le> work s) \<and>
    (\<exists>s'. mon_int\<^sup>*\<^sup>* s s' \<and> (\<forall>s''. \<not> mon_int s' s'')) \<and>
    (\<forall>s'. mon_int\<^sup>*\<^sup>* s s' \<and> (\<forall>s''. \<not> mon_int s' s'') \<longrightarrow>
      mon_owner s' = None \<and>
      (\<forall>p \<in> set (mon_pcs s'). p = Idle \<or> (\<exists>timed. p = Waiting timed)) \<and>
      (q_queue (mon_queue s') = [] \<or> nobody_waits s'))"
proof (intro conjI allI impI)
  show "k \<le> work s" if "(mon_int ^^ k) s s'" for k s' using int_steps_bounded [OF that] by simp
  show "\<exists>s'. mon_int\<^sup>*\<^sup>* s s' \<and> (\<forall>s''. \<not> mon_int s' s'')" by (rule can_rest)
next
  fix s' assume a: "mon_int\<^sup>*\<^sup>* s s' \<and> (\<forall>s''. \<not> mon_int s' s'')"
  then have "mon_int\<^sup>*\<^sup>* s s'" by blast
  then have "mon_reachable cap n s'" using assms
    by (induction rule: rtranclp_induct)
      (auto simp: mon_reachable_def mon_step_def intro: reach.reach_step)
  from mon_reachable_inv [OF this] a have r: "mutex_inv s'" "wake_inv s'" "\<forall>s''. \<not> mon_int s' s''"
    by blast+
  note q = rest_state [OF r]
  show "mon_owner s' = None" using q by blast
  show "\<forall>p \<in> set (mon_pcs s'). p = Idle \<or> (\<exists>timed. p = Waiting timed)" using q by blast
  show "q_queue (mon_queue s') = [] \<or> nobody_waits s'" using q by blast
qed

theorem queue_progress_witness:
  "\<exists>s'. mon_int\<^sup>*\<^sup>* m6 s' \<and> (\<forall>s''. \<not> mon_int s' s'')"
  using queue_progress [OF two_threads(3)] by blast

end
