(* ===== verification/PoolConcurrency.thy ===== *)
theory PoolConcurrency
  imports BytePool
begin

text \<open>
  \<^verbatim>\<open>BytePool::alloc\<close> and \<^verbatim>\<open>free\<close> (detail/BytePool.h) by several threads. \<^verbatim>\<open>m_size\<close> is atomic, so each
  access to it is one step, but \<^verbatim>\<open>alloc\<close> tests it and decrements it in two. In the mailbox the
  allocating thread holds the mutex of \<^verbatim>\<open>MailboxData\<close> (\<^verbatim>\<open>SendMessage\<close>), while \<^verbatim>\<open>free\<close> is called without
  it (\<^verbatim>\<open>ReleaseMessage\<close>).
\<close>

section \<open>States and steps\<close>

text \<open>
  \<open>PP_Checked\<close>: past the test \<^verbatim>\<open>m_size > 0\<close>. \<open>PP_Got\<close>: the allocator has returned a block.
  \<open>PP_Put\<close>: the block has been given back to the allocator, before \<^verbatim>\<open>m_size++\<close>.
\<close>

datatype pool_pc = PP_Idle | PP_Checked | PP_Got | PP_Put

text \<open>\<open>ps_out\<close>: the blocks the pool's clients own.\<close>

record pool_state =
  ps_pool :: BytePool
  ps_out :: nat
  ps_pcs :: "pool_pc list"

definition pool_state_new :: "size_t \<Rightarrow> size_t \<Rightarrow> nat \<Rightarrow> pool_state" where
  "pool_state_new n cap threads =
     \<lparr>ps_pool = BytePool_new n cap, ps_out = 0, ps_pcs = replicate threads PP_Idle\<rparr>"

definition pp_at :: "pool_state \<Rightarrow> nat \<Rightarrow> pool_pc \<Rightarrow> bool" where
  "pp_at s t p \<longleftrightarrow> t < length (ps_pcs s) \<and> ps_pcs s ! t = p"

definition pp_goto :: "nat \<Rightarrow> pool_pc \<Rightarrow> pool_state \<Rightarrow> pool_state" where
  "pp_goto t p s = s\<lparr>ps_pcs := (ps_pcs s)[t := p]\<rparr>"

fun allocating :: "pool_pc \<Rightarrow> nat" where
  "allocating PP_Checked = 1"
| "allocating PP_Got = 1"
| "allocating _ = 0"

fun putting :: "pool_pc \<Rightarrow> nat" where
  "putting PP_Put = 1"
| "putting _ = 0"

text \<open>\<open>locked\<close>: a thread allocates only with a mutex held. The allocator may throw at any time.\<close>

inductive pool_thread_step :: "bool \<Rightarrow> pool_state \<Rightarrow> pool_state \<Rightarrow> bool" for locked :: bool where
  pool_check: "pp_at s t PP_Idle \<Longrightarrow> bp_size (ps_pool s) > 0 \<Longrightarrow>
     (locked \<Longrightarrow> tally allocating (ps_pcs s) = 0) \<Longrightarrow>
     pool_thread_step locked s (pp_goto t PP_Checked s)"
| pool_throw: "pp_at s t PP_Checked \<Longrightarrow> pool_thread_step locked s (pp_goto t PP_Idle s)"
| pool_get: "pp_at s t PP_Checked \<Longrightarrow> pool_thread_step locked s (pp_goto t PP_Got s)"
| pool_dec: "pp_at s t PP_Got \<Longrightarrow>
     pool_thread_step locked s (pp_goto t PP_Idle
       (s\<lparr>ps_pool := (ps_pool s)\<lparr>bp_size := bp_size (ps_pool s) - 1\<rparr>, ps_out := ps_out s + 1\<rparr>))"
| pool_put: "pp_at s t PP_Idle \<Longrightarrow> ps_out s > 0 \<Longrightarrow>
     pool_thread_step locked s (pp_goto t PP_Put (s\<lparr>ps_out := ps_out s - 1\<rparr>))"
| pool_inc: "pp_at s t PP_Put \<Longrightarrow>
     pool_thread_step locked s (pp_goto t PP_Idle
       (s\<lparr>ps_pool := (ps_pool s)\<lparr>bp_size := bp_size (ps_pool s) + 1\<rparr>\<rparr>))"

definition pool_reachable :: "bool \<Rightarrow> size_t \<Rightarrow> nat \<Rightarrow> pool_state \<Rightarrow> bool" where
  "pool_reachable locked cap threads =
     reach (\<lambda>s. \<exists>n. s = pool_state_new n cap threads) (pool_thread_step locked)"

section \<open>With the mutex\<close>

definition pool_locked_inv :: "size_t \<Rightarrow> pool_state \<Rightarrow> bool" where
  "pool_locked_inv cap s \<longleftrightarrow>
     unat (bp_size (ps_pool s)) + ps_out s + tally putting (ps_pcs s) = unat cap \<and>
     tally allocating (ps_pcs s) \<le> 1 \<and>
     (tally allocating (ps_pcs s) = 1 \<longrightarrow> bp_size (ps_pool s) > 0)"

lemma pp_tally:
  "pp_at s t p' \<Longrightarrow> ps_pcs s2 = ps_pcs s \<Longrightarrow>
     tally f (ps_pcs (pp_goto t p s2)) + f p' = tally f (ps_pcs s) + f p"
  unfolding pp_at_def pp_goto_def using tally_update [of t "ps_pcs s" f p] by auto

lemma pp_goto_simps [simp]:
  "ps_pool (pp_goto t p s) = ps_pool s" "ps_out (pp_goto t p s) = ps_out s"
  by (simp_all add: pp_goto_def)

lemma pool_locked_step:
  assumes "pool_locked_inv cap s" and "pool_thread_step True s s'"
  shows "pool_locked_inv cap s'"
  using assms(2)
proof cases
  case (pool_dec t)
  note a = pp_tally [OF pool_dec(2), of "s\<lparr>ps_pool := (ps_pool s)\<lparr>bp_size := bp_size (ps_pool s) - 1\<rparr>,
      ps_out := ps_out s + 1\<rparr>" _ PP_Idle, simplified]
  have "1 \<le> tally allocating (ps_pcs s)"
    using tally_member [of t "ps_pcs s" allocating] pool_dec(2) by (simp add: pp_at_def)
  then have "bp_size (ps_pool s) > 0" "tally allocating (ps_pcs s) = 1"
    using assms(1) by (auto simp: pool_locked_inv_def)
  moreover from this(1) have "unat (bp_size (ps_pool s) - 1) + 1 = unat (bp_size (ps_pool s))"
    by (simp add: unat_pred word_less_nat_alt)
  ultimately show ?thesis using assms(1) a [of allocating] a [of putting]
    by (simp add: pool_locked_inv_def pool_dec(1))
next
  case (pool_inc t)
  note a = pp_tally [OF pool_inc(2), of "s\<lparr>ps_pool := (ps_pool s)\<lparr>bp_size := bp_size (ps_pool s) + 1\<rparr>\<rparr>"
      _ PP_Idle, simplified]
  have "1 \<le> tally putting (ps_pcs s)"
    using tally_member [of t "ps_pcs s" putting] pool_inc(2) by (simp add: pp_at_def)
  then have "unat (bp_size (ps_pool s)) < unat cap"
    using assms(1) by (auto simp: pool_locked_inv_def)
  from unat_succ [OF this] show ?thesis using assms(1) a [of allocating] a [of putting]
    by (auto simp: pool_locked_inv_def pool_inc(1) word_less_nat_alt)
next
  case (pool_put t)
  note a = pp_tally [OF pool_put(2), of "s\<lparr>ps_out := ps_out s - 1\<rparr>" _ PP_Put, simplified]
  show ?thesis using assms(1) a [of allocating] a [of putting] pool_put(3)
    by (auto simp: pool_locked_inv_def pool_put(1))
next
  case (pool_check t)
  note a = pp_tally [OF pool_check(2) refl, of _ PP_Checked, simplified]
  show ?thesis using assms(1) a [of allocating] a [of putting] pool_check(3,4)
    by (auto simp: pool_locked_inv_def pool_check(1))
next
  case (pool_throw t)
  note a = pp_tally [OF pool_throw(2) refl, of _ PP_Idle, simplified]
  show ?thesis using assms(1) a [of allocating] a [of putting]
    by (auto simp: pool_locked_inv_def pool_throw(1))
next
  case (pool_get t)
  note a = pp_tally [OF pool_get(2) refl, of _ PP_Got, simplified]
  show ?thesis using assms(1) a [of allocating] a [of putting]
    by (auto simp: pool_locked_inv_def pool_get(1))
qed

text \<open>
  C18. With allocation under a mutex, whatever the threads that free do, the counter never wraps
  and stays exact: what is left, what is out and what is being returned add up to the capacity.
\<close>
theorem pool_counter_exact:
  assumes "pool_reachable True cap threads s"
  shows "unat (bp_size (ps_pool s)) + ps_out s + tally putting (ps_pcs s) = unat cap"
proof -
  have "pool_locked_inv cap s" using assms unfolding pool_reachable_def
  proof (rule reach_invariant)
    fix s assume "\<exists>n. s = pool_state_new n cap threads"
    then show "pool_locked_inv cap s"
      by (auto simp: pool_locked_inv_def pool_state_new_def BytePool_new_def)
  qed (rule pool_locked_step)
  then show ?thesis by (simp add: pool_locked_inv_def)
qed

text \<open>Two threads: the first takes the only block, and the second frees it.\<close>

definition pool_demo :: pool_state where
  "pool_demo = \<lparr>ps_pool = \<lparr>bp_eltSize = 16, bp_size = 0, bp_capacity = 1\<rparr>, ps_out = 0,
     ps_pcs = [PP_Idle, PP_Put]\<rparr>"

lemmas pool_run_defs = pp_at_def pp_goto_def pool_state_new_def BytePool_new_def tally_def
  numeral_2_eq_2

lemma pool_demo_reachable: "pool_reachable True 1 2 pool_demo"
proof -
  let ?s = "\<lambda>a b n k. \<lparr>ps_pool = \<lparr>bp_eltSize = 16, bp_size = n, bp_capacity = 1\<rparr>, ps_out = k,
     ps_pcs = [a, b]\<rparr>"
  have 0: "pool_reachable True 1 2 (?s PP_Idle PP_Idle 1 0)" unfolding pool_reachable_def
    by (rule reach_init, rule exI [of _ 16]) (simp add: pool_run_defs)
  have step: "pool_reachable True 1 2 s'" if "pool_reachable True 1 2 s" "pool_thread_step True s s'" for s s'
    using that unfolding pool_reachable_def by (rule reach_step)
  have "pool_thread_step True (?s PP_Idle PP_Idle 1 0) (?s PP_Checked PP_Idle 1 0)"
    using pool_check [of "?s PP_Idle PP_Idle 1 0" 0 True] by (simp add: pool_run_defs)
  note 1 = step [OF 0 this]
  have "pool_thread_step True (?s PP_Checked PP_Idle 1 0) (?s PP_Got PP_Idle 1 0)"
    using pool_get [of "?s PP_Checked PP_Idle 1 0" 0 True] by (simp add: pool_run_defs)
  note 2 = step [OF 1 this]
  have "pool_thread_step True (?s PP_Got PP_Idle 1 0) (?s PP_Idle PP_Idle 0 1)"
    using pool_dec [of "?s PP_Got PP_Idle 1 0" 0 True] by (simp add: pool_run_defs)
  note 3 = step [OF 2 this]
  have "pool_thread_step True (?s PP_Idle PP_Idle 0 1) (?s PP_Idle PP_Put 0 0)"
    using pool_put [of "?s PP_Idle PP_Idle 0 1" 1 True] by (simp add: pool_run_defs)
  note 4 = step [OF 3 this]
  then show ?thesis by (simp add: pool_demo_def)
qed

theorem pool_counter_exact_witness:
  "unat (bp_size (ps_pool pool_demo)) + ps_out pool_demo + tally putting (ps_pcs pool_demo) = 1"
  using pool_counter_exact [OF pool_demo_reachable] by simp

section \<open>Without it\<close>

text \<open>
  C19. Without the mutex the limit can be lost: two threads that allocate from a pool of one
  element can both get a block, and the counter wraps to \<open>2^64 - 1\<close>.
\<close>
theorem pool_counter_wraps:
  "\<exists>s. pool_reachable False 1 2 s \<and> ps_out s = 2 \<and> bp_capacity (ps_pool s) = 1 \<and>
     unat (bp_size (ps_pool s)) = 2 ^ 64 - 1"
proof -
  let ?s = "\<lambda>a b n k. \<lparr>ps_pool = \<lparr>bp_eltSize = 16, bp_size = n, bp_capacity = 1\<rparr>, ps_out = k,
     ps_pcs = [a, b]\<rparr>"
  have 0: "pool_reachable False 1 2 (?s PP_Idle PP_Idle 1 0)" unfolding pool_reachable_def
    by (rule reach_init, rule exI [of _ 16]) (simp add: pool_run_defs)
  have step: "pool_reachable False 1 2 s'" if "pool_reachable False 1 2 s" "pool_thread_step False s s'" for s s'
    using that unfolding pool_reachable_def by (rule reach_step)
  have "pool_thread_step False (?s PP_Idle PP_Idle 1 0) (?s PP_Checked PP_Idle 1 0)"
    using pool_check [of "?s PP_Idle PP_Idle 1 0" 0 False] by (simp add: pool_run_defs)
  note 1 = step [OF 0 this]
  have "pool_thread_step False (?s PP_Checked PP_Idle 1 0) (?s PP_Checked PP_Checked 1 0)"
    using pool_check [of "?s PP_Checked PP_Idle 1 0" 1 False] by (simp add: pool_run_defs)
  note 2 = step [OF 1 this]
  have "pool_thread_step False (?s PP_Checked PP_Checked 1 0) (?s PP_Got PP_Checked 1 0)"
    using pool_get [of "?s PP_Checked PP_Checked 1 0" 0 False] by (simp add: pool_run_defs)
  note 3 = step [OF 2 this]
  have "pool_thread_step False (?s PP_Got PP_Checked 1 0) (?s PP_Got PP_Got 1 0)"
    using pool_get [of "?s PP_Got PP_Checked 1 0" 1 False] by (simp add: pool_run_defs)
  note 4 = step [OF 3 this]
  have "pool_thread_step False (?s PP_Got PP_Got 1 0) (?s PP_Idle PP_Got 0 1)"
    using pool_dec [of "?s PP_Got PP_Got 1 0" 0 False] by (simp add: pool_run_defs)
  note 5 = step [OF 4 this]
  have "pool_thread_step False (?s PP_Idle PP_Got 0 1) (?s PP_Idle PP_Idle (- 1) 2)"
    using pool_dec [of "?s PP_Idle PP_Got 0 1" 1 False] by (simp add: pool_run_defs)
  note 6 = step [OF 5 this]
  then show ?thesis by (intro exI [of _ "?s PP_Idle PP_Idle (- 1) 2"]) (simp add: unsigned_minus_1_eq_mask mask_eq_exp_minus_1)
qed

end
