(* ===== verification/Programs.thy ===== *)
theory Programs
  imports TimerSystem
begin

text \<open>
  Programs of several threads on top of the library, as those under \<^verbatim>\<open>example/\<close> are: every thread
  sets itself up, takes messages from its mailbox in a loop until one makes it break, finishes,
  joins other threads and leaves its scope. A schedule says which thread makes its next call, when
  a POSIX timer expires and when the signal thread makes its next step; any schedule is possible, so the
  programs' sleeps promise nothing.
\<close>

section \<open>Threads\<close>

text \<open>
  What a thread does with a message: calls of the library, showing the message, and releasing it
  (by \<^verbatim>\<open>ReleaseMessage\<close> or by the destructor of a \<^verbatim>\<open>MessageGuard\<close>).
\<close>

datatype action = Act tcall | Show | Release

record 'e thread_code =
  th_mbox :: mbox
  th_setup :: "tcall list"
  th_loops :: bool
  th_handle :: "label \<Rightarrow> action list \<times> bool"
  th_show :: "mem \<Rightarrow> Message \<Rightarrow> 'e option"
  th_finish :: "tcall list"
  th_joins :: "nat list"
  th_close :: "tcall list"

datatype thread_pc =
    Setup "tcall list"
  | Loop
  | Handling Message "action list" bool
  | Finish "tcall list"
  | Joining
  | Closing "tcall list"
  | Returned

record ('r, 'k) platform =
  pl_posix :: "'k posix"
  pl_expire :: "'k \<Rightarrow> nat \<Rightarrow> 'k"
  pl_lib :: "'r lib"

record ('r, 'k, 'e) prog =
  pr_sys :: "('r, 'k) tsys"
  pr_pcs :: "nat \<Rightarrow> thread_pc"
  pr_log :: "nat \<Rightarrow> 'e list"

definition pr_goto :: "nat \<Rightarrow> thread_pc \<Rightarrow> ('r, 'k, 'e) prog \<Rightarrow> ('r, 'k, 'e) prog" where
  "pr_goto i pc p = p\<lparr>pr_pcs := (pr_pcs p)(i := pc)\<rparr>"

definition pl_exec ::
  "('r, 'k) platform \<Rightarrow> tcall \<Rightarrow> ('r, 'k) tsys \<Rightarrow> (fault + bool) \<times> ('r, 'k) tsys" where
  "pl_exec pf = tsys_exec (pl_posix pf) (pl_expire pf) (pl_lib pf)"

definition pr_call ::
  "('r, 'k) platform \<Rightarrow> nat \<Rightarrow> tcall \<Rightarrow> thread_pc \<Rightarrow> ('r, 'k, 'e) prog \<Rightarrow> fault + ('r, 'k, 'e) prog"
  where
  "pr_call pf i c pc p =
     (case pl_exec pf c (pr_sys p) of
        (Inl e, _) \<Rightarrow> Inl e
      | (Inr _, s) \<Rightarrow> Inr (pr_goto i pc (p\<lparr>pr_sys := s\<rparr>)))"

text \<open>Where a message is among those held.\<close>

definition position :: "'a \<Rightarrow> 'a list \<Rightarrow> nat" where
  "position x xs = length (takeWhile (\<lambda>y. y \<noteq> x) xs)"

definition pr_show ::
  "'e thread_code \<Rightarrow> nat \<Rightarrow> Message \<Rightarrow> ('r, 'k, 'e) prog \<Rightarrow> ('r, 'k, 'e) prog" where
  "pr_show code i msg p =
     p\<lparr>pr_log := (pr_log p)(i := pr_log p i @
        (case th_show code (w_mem (s_world (t_sys (pr_sys p)))) msg of None \<Rightarrow> [] | Some e \<Rightarrow> [e]))\<rparr>"

fun action_step ::
  "('r, 'k) platform \<Rightarrow> 'e thread_code \<Rightarrow> nat \<Rightarrow> Message \<Rightarrow> action \<Rightarrow> thread_pc \<Rightarrow>
    ('r, 'k, 'e) prog \<Rightarrow> fault + ('r, 'k, 'e) prog" where
  "action_step pf code i msg (Act c) pc p = pr_call pf i c pc p"
| "action_step pf code i msg Show pc p = Inr (pr_goto i pc (pr_show code i msg p))"
| "action_step pf code i msg Release pc p =
     pr_call pf i (T_Mail (Call_Release (position msg (s_held (t_sys (pr_sys p)))))) pc p"

text \<open>
  The next call of thread \<open>i\<close>. In \<open>Loop\<close> it blocks until its mailbox has a message, in \<open>Joining\<close>
  until the threads it joins have returned.
\<close>

definition thread_step ::
  "('r, 'k) platform \<Rightarrow> 'e thread_code \<Rightarrow> nat \<Rightarrow> ('r, 'k, 'e) prog \<Rightarrow> fault + ('r, 'k, 'e) prog" where
  "thread_step pf code i p =
     (case pr_pcs p i of
        Setup [] \<Rightarrow> Inr (pr_goto i (if th_loops code then Loop else Finish (th_finish code)) p)
      | Setup (c # cs) \<Rightarrow> pr_call pf i c (Setup cs) p
      | Loop \<Rightarrow>
          (case pl_exec pf (T_Mail (Call_Receive (th_mbox code))) (pr_sys p) of
             (Inl e, _) \<Rightarrow> Inl e
           | (Inr got, s) \<Rightarrow>
               if got then
                 (let msg = last (s_held (t_sys s));
                      (acts, brk) = th_handle code (m_label msg)
                  in Inr (pr_goto i (Handling msg acts brk) (p\<lparr>pr_sys := s\<rparr>)))
               else Inr p)
      | Handling msg [] brk \<Rightarrow> Inr (pr_goto i (if brk then Finish (th_finish code) else Loop) p)
      | Handling msg (a # acts) brk \<Rightarrow> action_step pf code i msg a (Handling msg acts brk) p
      | Finish [] \<Rightarrow> Inr (pr_goto i Joining p)
      | Finish (c # cs) \<Rightarrow> pr_call pf i c (Finish cs) p
      | Joining \<Rightarrow>
          Inr (if list_all (\<lambda>j. pr_pcs p j = Returned) (th_joins code)
               then pr_goto i (Closing (th_close code)) p else p)
      | Closing [] \<Rightarrow> Inr (pr_goto i Returned p)
      | Closing (c # cs) \<Rightarrow> pr_call pf i c (Closing cs) p
      | Returned \<Rightarrow> Inr p)"

section \<open>Schedules\<close>

datatype event = Run nat | Tick nat | Signal_Thread

fun prog_step ::
  "('r, 'k) platform \<Rightarrow> 'e thread_code list \<Rightarrow> event \<Rightarrow> ('r, 'k, 'e) prog \<Rightarrow>
    fault + ('r, 'k, 'e) prog" where
  "prog_step pf codes (Run i) p = (if i < length codes then thread_step pf (codes ! i) i p else Inr p)"
| "prog_step pf codes (Tick n) p =
     (case pl_exec pf (T_Expire n) (pr_sys p) of
        (Inl e, _) \<Rightarrow> Inl e | (Inr _, s) \<Rightarrow> Inr (p\<lparr>pr_sys := s\<rparr>))"
| "prog_step pf codes Signal_Thread p =
     (case pl_exec pf T_Signal (pr_sys p) of
        (Inl e, _) \<Rightarrow> Inl e | (Inr _, s) \<Rightarrow> Inr (p\<lparr>pr_sys := s\<rparr>))"

fun prog_run ::
  "('r, 'k) platform \<Rightarrow> 'e thread_code list \<Rightarrow> event list \<Rightarrow> ('r, 'k, 'e) prog \<Rightarrow>
    fault + ('r, 'k, 'e) prog" where
  "prog_run pf codes [] p = Inr p"
| "prog_run pf codes (e # es) p = and_then (prog_step pf codes e p) (prog_run pf codes es)"

definition prog_start :: "'e thread_code list \<Rightarrow> ('r, 'k) tsys \<Rightarrow> ('r, 'k, 'e) prog" where
  "prog_start codes s =
     \<lparr>pr_sys = s,
      pr_pcs = (\<lambda>i. if i < length codes then Setup (th_setup (codes ! i)) else Returned),
      pr_log = (\<lambda>_. [])\<rparr>"

text \<open>A process that has not called the library yet.\<close>

definition process_new :: "mem \<Rightarrow> 'k \<Rightarrow> ('r, 'k) tsys" where
  "process_new mem k =
     \<lparr>t_sys = sys_new mem, t_kernel = k, t_data = TimerManagerData_new, t_objs = Map.empty,
      t_taken = None\<rparr>"

section \<open>Runs\<close>

lemma thread_pc_cases [case_names ready starting looping handling finished finishing
    joining closed closing returned]:
  assumes "pc = Setup [] \<Longrightarrow> P" and "\<And>c cs. pc = Setup (c # cs) \<Longrightarrow> P" and "pc = Loop \<Longrightarrow> P"
    and "\<And>msg acts brk. pc = Handling msg acts brk \<Longrightarrow> P" and "pc = Finish [] \<Longrightarrow> P"
    and "\<And>c cs. pc = Finish (c # cs) \<Longrightarrow> P" and "pc = Joining \<Longrightarrow> P" and "pc = Closing [] \<Longrightarrow> P"
    and "\<And>c cs. pc = Closing (c # cs) \<Longrightarrow> P" and "pc = Returned \<Longrightarrow> P"
  shows P
proof (cases pc)
  case (Setup cs)
  with assms(1,2) show P by (cases cs) auto
next
  case (Finish cs)
  with assms(5,6) show P by (cases cs) auto
next
  case (Closing cs)
  with assms(8,9) show P by (cases cs) auto
qed (use assms in auto)

lemma prog_run_append:
  "prog_run pf codes (es @ fs) p = and_then (prog_run pf codes es p) (prog_run pf codes fs)"
  by (induction es arbitrary: p) (auto simp: and_then_def split: sum.split)

lemma prog_run_induct:
  assumes "prog_run pf codes es p = x" and "P p"
    and "\<And>e q. e \<in> set es \<Longrightarrow> P q \<Longrightarrow> \<exists>q'. prog_step pf codes e q = Inr q' \<and> P q'"
  shows "\<exists>q. x = Inr q \<and> P q"
  using assms
proof (induction es arbitrary: p)
  case (Cons e es)
  from Cons.prems(3) [of e p] Cons.prems(2) obtain q where "prog_step pf codes e p = Inr q" "P q"
    by auto
  with Cons.prems Cons.IH [of q] show ?case by simp
qed auto

lemma pr_goto_simps [simp]:
  "pr_sys (pr_goto i pc p) = pr_sys p" "pr_log (pr_goto i pc p) = pr_log p"
  "pr_pcs (pr_goto i pc p) = (pr_pcs p)(i := pc)"
  by (simp_all add: pr_goto_def)

lemma pr_show_simps [simp]:
  "pr_sys (pr_show code i msg p) = pr_sys p" "pr_pcs (pr_show code i msg p) = pr_pcs p"
  by (simp_all add: pr_show_def)

lemma position_nth: "x \<in> set xs \<Longrightarrow> position x xs < length xs \<and> xs ! position x xs = x"
  unfolding position_def
  by (induction xs) auto

text \<open>A mailbox call changes the mailboxes only.\<close>

lemma pl_exec_mail:
  "pl_exec pf (T_Mail c) s =
     (case sys_exec (pl_lib pf) c (t_sys s) of
        Inl e \<Rightarrow> (Inl e, s) | Inr (ok, y) \<Rightarrow> (Inr ok, s\<lparr>t_sys := y\<rparr>))"
  by (simp add: pl_exec_def)

lemma pr_call_mail:
  "sys_exec (pl_lib pf) c (t_sys (pr_sys p)) = Inr (ok, y) \<Longrightarrow>
     pr_call pf i (T_Mail c) pc p = Inr (pr_goto i pc (p\<lparr>pr_sys := (pr_sys p)\<lparr>t_sys := y\<rparr>\<rparr>))"
  by (simp add: pr_call_def pl_exec_mail)

section \<open>Mailboxes that are gone\<close>

text \<open>
  \<open>hide M s\<close>: the same state, but the mailboxes of \<open>M\<close> destroyed. The example programs leave
  mailboxes registered that they destroy; their states are those of a disciplined program with
  these mailboxes hidden.
\<close>

definition hide_box :: "mbox set \<Rightarrow> 'r world \<Rightarrow> 'r world" where
  "hide_box M w = w\<lparr>w_queues := (\<lambda>m. if m \<in> M then None else w_queues w m)\<rparr>"

definition hide :: "mbox set \<Rightarrow> 'r sys \<Rightarrow> 'r sys" where
  "hide M s = s\<lparr>s_world := hide_box M (s_world s)\<rparr>"

text \<open>Calls that do not send and are not about \<open>m\<close> do not notice.\<close>

fun oblivious :: "mbox \<Rightarrow> call \<Rightarrow> bool" where
  "oblivious m (Call_New k c) \<longleftrightarrow> k \<noteq> m"
| "oblivious m (Call_Destroy k) \<longleftrightarrow> k \<noteq> m"
| "oblivious m (Call_Initialize a b c d) \<longleftrightarrow> True"
| "oblivious m (Call_Register k l) \<longleftrightarrow> True"
| "oblivious m (Call_Unregister k l) \<longleftrightarrow> True"
| "oblivious m (Call_SendMessage l t) \<longleftrightarrow> False"
| "oblivious m (Call_SendSignal l) \<longleftrightarrow> False"
| "oblivious m (Call_Receive k) \<longleftrightarrow> k \<noteq> m"
| "oblivious m (Call_Release i) \<longleftrightarrow> True"

lemma hide_data [simp]:
  "w_data (s_world (hide M s)) = w_data (s_world s)" "s_held (hide M s) = s_held s"
  "w_mem (s_world (hide M s)) = w_mem (s_world s)"
  "w_queues (s_world (hide M s)) m = (if m \<in> M then None else w_queues (s_world s) m)"
  by (simp_all add: hide_def hide_box_def)

lemma hide_box_data [simp]:
  "w_data (hide_box M w) = w_data w" "w_mem (hide_box M w) = w_mem w"
  "w_queues (hide_box M w) m = (if m \<in> M then None else w_queues w m)"
  by (simp_all add: hide_box_def)

lemma hide_empty [simp]: "hide {} s = s"
  by (simp add: hide_def hide_box_def)

lemma hide_box_update:
  "k \<notin> M \<Longrightarrow> (hide_box M w)\<lparr>w_queues := (w_queues (hide_box M w))(k := x)\<rparr> =
     hide_box M (w\<lparr>w_queues := (w_queues w)(k := x)\<rparr>)"
  by (auto simp: hide_box_def fun_eq_iff)

lemma hide_box_frame [simp]:
  "(hide_box M w)\<lparr>w_data := d\<rparr> = hide_box M (w\<lparr>w_data := d\<rparr>)"
  by (cases w) (simp add: hide_box_def fun_eq_iff)

lemma hide_destroy: "hide M s\<lparr>s_world := Mailbox_destroy m (s_world (hide M s))\<rparr> = hide (insert m M) s"
  by (auto simp: hide_def hide_box_def Mailbox_destroy_def fun_eq_iff)

lemma on_data_hide: "on_data f w = Inr (ok, w') \<Longrightarrow> on_data f (hide_box M w) = Inr (ok, hide_box M w')"
  by (auto simp: on_data_def and_then_eq_Inr split: prod.splits)

lemma oblivious_exec:
  assumes "sys_exec lib c s = Inr (ok, s')" and "\<And>m. m \<in> M \<Longrightarrow> oblivious m c"
  shows "sys_exec lib c (hide M s) = Inr (ok, hide M s')"
proof (cases c)
  case (Call_New k n)
  then have "k \<notin> M" using assms(2) by auto
  then show ?thesis using Call_New assms(1)
    by (auto simp: hide_def Mailbox_new_def hide_box_update)
next
  case (Call_Destroy k)
  then have "k \<notin> M" using assms(2) by auto
  then show ?thesis using Call_Destroy assms(1)
    by (auto simp: hide_def Mailbox_destroy_def hide_box_update)
next
  case (Call_Receive k)
  then have k: "k \<notin> M" using assms(2) by auto
  then show ?thesis using Call_Receive assms(1)
    by (cases s) (auto simp: hide_def Mailbox_Receive_def hide_box_update [OF k]
      split: option.splits sum.splits prod.splits)
next
  case (Call_Release i)
  then show ?thesis using assms(1)
    by (auto simp: hide_def Mailbox_ReleaseMessage_def split: if_splits)
next
  case (Call_SendMessage l t)
  then have "M = {}" using assms(2) by auto
  then show ?thesis using assms(1) by simp
next
  case (Call_SendSignal l)
  then have "M = {}" using assms(2) by auto
  then show ?thesis using assms(1) by simp
qed (use assms in \<open>auto simp: hide_def Mailbox_Initialize_def Mailbox_RegisterForLabel_def
    Mailbox_UnregisterForLabel_def and_then_eq_Inr dest: on_data_hide\<close>)

end
