(* ===== verification/MboxExample.thy ===== *)
theory MboxExample
  imports Programs TimerProps
begin

text \<open>
  The program \<^verbatim>\<open>example/mbox.cpp\<close>: three threads with a mailbox each, and \<^verbatim>\<open>main\<close>, which sends three
  messages and three signals and joins the threads.
\<close>

section \<open>The messages\<close>

text \<open>An \<^verbatim>\<open>int\<close> has four bytes, the least significant first; a \<^verbatim>\<open>bool\<close> is a byte.\<close>

definition int_bytes :: "32 word \<Rightarrow> byte list" where
  "int_bytes x = map (\<lambda>k. ucast (drop_bit (8 * k) x)) [0, 1, 2, 3]"

definition int_of :: "byte list \<Rightarrow> 32 word" where
  "int_of bs = horner_sum ucast 256 bs"

definition int_at :: "mem \<Rightarrow> addr \<Rightarrow> 32 word" where
  "int_at m p = int_of [m p, m (p + 1), m (p + 2), m (p + 3)]"

definition Message1 :: cxx_type where "Message1 = \<lparr>size_of = 20, trivially_copyable = True\<rparr>"
definition Message2 :: cxx_type where "Message2 = \<lparr>size_of = 1, trivially_copyable = True\<rparr>"
definition Message3 :: cxx_type where "Message3 = \<lparr>size_of = 12, trivially_copyable = True\<rparr>"

text \<open>The bytes of objects; three bytes pad a \<^verbatim>\<open>Message1\<close>, whatever they are.\<close>

definition Message1_bytes ::
  "32 word \<Rightarrow> 32 word \<Rightarrow> 32 word \<Rightarrow> 32 word \<Rightarrow> bool \<Rightarrow> byte \<times> byte \<times> byte \<Rightarrow> byte list" where
  "Message1_bytes a b c d e pad =
     int_bytes a @ int_bytes b @ int_bytes c @ int_bytes d @
       [of_bool e, fst pad, fst (snd pad), snd (snd pad)]"

definition Message2_bytes :: "bool \<Rightarrow> byte list" where
  "Message2_bytes a = [of_bool a]"

definition Message3_bytes :: "32 word \<Rightarrow> 32 word \<Rightarrow> 32 word \<Rightarrow> byte list" where
  "Message3_bytes a b c = int_bytes a @ int_bytes b @ int_bytes c"

definition Msg1 :: label where "Msg1 = 1"
definition Msg2 :: label where "Msg2 = 2"
definition Msg3 :: label where "Msg3 = 3"
definition Msg4 :: label where "Msg4 = 4"
definition Msg5 :: label where "Msg5 = 5"
definition Exit :: label where "Exit = 999"

lemmas Msg_defs = Msg1_def Msg2_def Msg3_def Msg4_def Msg5_def Exit_def

section \<open>Showing messages\<close>

datatype shown =
    Got_Msg1 "32 word" "32 word" "32 word" "32 word" bool
  | Got_Msg2 bool
  | Got_Msg3 "32 word" "32 word" "32 word"
  | Got_Signal label

definition displayMsg :: "mem \<Rightarrow> Message \<Rightarrow> shown option" where
  "displayMsg mem msg =
     (if m_label msg = Msg1 then
        (let m1 = Message_as Message1 msg
         in if m1 \<noteq> nullptr
            then Some (Got_Msg1 (int_at mem m1) (int_at mem (m1 + 4)) (int_at mem (m1 + 8))
                   (int_at mem (m1 + 12)) (mem (m1 + 16) \<noteq> 0))
            else None)
      else if m_label msg = Msg2 then
        (let m2 = Message_as Message2 msg
         in if m2 \<noteq> nullptr then Some (Got_Msg2 (mem m2 \<noteq> 0)) else None)
      else if m_label msg = Msg3 then
        (let t = Message_as Message3 msg
         in if t \<noteq> nullptr
            then Some (Got_Msg3 (int_at mem t) (int_at mem (t + 4)) (int_at mem (t + 8)))
            else None)
      else Some (Got_Signal (m_label msg)))"

section \<open>The threads\<close>

definition show_loop :: "label \<Rightarrow> action list \<times> bool" where
  "show_loop l = ([Show, Release], l = Exit)"

definition thread1 :: "mbox \<Rightarrow> shown thread_code" where
  "thread1 mb =
     \<lparr>th_mbox = mb,
      th_setup = [T_Mail (Call_New mb QUEUE_SIZE), T_Mail (Call_Register mb Msg1),
        T_Mail (Call_Register mb Msg2), T_Mail (Call_Register mb Exit)],
      th_loops = True, th_handle = show_loop, th_show = displayMsg,
      th_finish = [T_Mail (Call_Unregister mb Msg1), T_Mail (Call_Unregister mb Msg2),
        T_Mail (Call_Unregister mb Exit)],
      th_joins = [], th_close = [T_Mail (Call_Destroy mb)]\<rparr>"

definition thread2 :: "mbox \<Rightarrow> shown thread_code" where
  "thread2 mb =
     \<lparr>th_mbox = mb,
      th_setup = [T_Mail (Call_New mb QUEUE_SIZE), T_Mail (Call_Register mb Msg1),
        T_Mail (Call_Register mb Msg3), T_Mail (Call_Register mb Exit)],
      th_loops = True, th_handle = show_loop, th_show = displayMsg,
      th_finish = [T_Mail (Call_Unregister mb Msg1), T_Mail (Call_Unregister mb Msg3),
        T_Mail (Call_Unregister mb Exit)],
      th_joins = [], th_close = [T_Mail (Call_Destroy mb)]\<rparr>"

definition thread3 :: "mbox \<Rightarrow> shown thread_code" where
  "thread3 mb =
     \<lparr>th_mbox = mb,
      th_setup = [T_Mail (Call_New mb QUEUE_SIZE), T_Mail (Call_Register mb Msg4),
        T_Mail (Call_Register mb Msg5), T_Mail (Call_Register mb Exit)],
      th_loops = True, th_handle = show_loop, th_show = displayMsg,
      th_finish = [T_Mail (Call_Unregister mb Msg1), T_Mail (Call_Unregister mb Msg3),
        T_Mail (Call_Unregister mb Exit)],
      th_joins = [], th_close = [T_Mail (Call_Destroy mb)]\<rparr>"

section \<open>main\<close>

text \<open>
  Up to the start of the threads; the four numbers are the defaults of \<^verbatim>\<open>main\<close> or come from its
  command line.
\<close>

definition mbox_main_init ::
  "('r, 'k) platform \<Rightarrow> (addr \<times> (label \<Rightarrow> addr)) option \<Rightarrow> size_t \<Rightarrow> size_t \<Rightarrow> size_t \<Rightarrow> size_t \<Rightarrow> mbox \<Rightarrow>
    ('r, 'k) tsys \<Rightarrow> fault + (bool \<times> ('r, 'k) tsys)" where
  "mbox_main_init pf fresh smallSize smallCap largeSize largeCap mb s =
     msglib_Initialize (pl_posix pf) fresh (pl_lib pf) smallSize smallCap largeSize largeCap
       (set_world (Mailbox_default mb (s_world (t_sys s))) s)"

text \<open>From there on: the messages, the joins, and the end of the scope.\<close>

definition mbox_main :: "byte \<times> byte \<times> byte \<Rightarrow> mbox \<Rightarrow> shown thread_code" where
  "mbox_main pad mb =
     \<lparr>th_mbox = mb,
      th_setup = [T_Mail (Call_SendMessage Msg3 (Message3_bytes 1 2 3)),
        T_Mail (Call_SendMessage Msg2 (Message2_bytes True)),
        T_Mail (Call_SendMessage Msg1 (Message1_bytes 1 2 3 4 True pad)),
        T_Mail (Call_SendSignal Msg4), T_Mail (Call_SendSignal Msg5), T_Mail (Call_SendSignal Exit)],
      th_loops = False, th_handle = show_loop, th_show = displayMsg,
      th_finish = [], th_joins = [1, 2, 3], th_close = [T_Mail (Call_Destroy mb)]\<rparr>"

definition mbox_codes :: "byte \<times> byte \<times> byte \<Rightarrow> (nat \<Rightarrow> mbox) \<Rightarrow> shown thread_code list" where
  "mbox_codes pad mb = [mbox_main pad (mb 0), thread1 (mb 1), thread2 (mb 2), thread3 (mb 3)]"

end
