(* ===== verification/ProgramInv.thy ===== *)
theory ProgramInv
  imports Programs MailboxMisuse
begin

text \<open>
  What the invariants of the example programs share: where a thread's mailbox and messages are, by
  its program counter, and one call of a program some of whose mailboxes are hidden.
\<close>

section \<open>Program counters\<close>

text \<open>Whether a thread's mailbox exists, whether the thread has left its scope, what it has in hand.\<close>

fun alive :: "mbox \<Rightarrow> thread_pc \<Rightarrow> bool" where
  "alive m (Setup cs) \<longleftrightarrow> T_Mail (Call_New m QUEUE_SIZE) \<notin> set cs"
| "alive m (Closing cs) \<longleftrightarrow> cs \<noteq> []"
| "alive m Returned \<longleftrightarrow> False"
| "alive m pc \<longleftrightarrow> True"

fun gone :: "thread_pc \<Rightarrow> bool" where
  "gone (Closing cs) \<longleftrightarrow> cs = []"
| "gone Returned \<longleftrightarrow> True"
| "gone pc \<longleftrightarrow> False"

fun holds :: "thread_pc \<Rightarrow> Message multiset" where
  "holds (Handling msg acts brk) = (if Release \<in> set acts then {#msg#} else {#})"
| "holds pc = {#}"

text \<open>The program counters a thread can have.\<close>

fun code_pc :: "'e thread_code \<Rightarrow> thread_pc \<Rightarrow> bool" where
  "code_pc code (Setup cs) \<longleftrightarrow> suffix cs (th_setup code)"
| "code_pc code Loop \<longleftrightarrow> th_loops code"
| "code_pc code (Handling msg acts brk) \<longleftrightarrow> th_loops code \<and>
     suffix acts (fst (th_handle code (m_label msg))) \<and> brk = snd (th_handle code (m_label msg))"
| "code_pc code (Finish cs) \<longleftrightarrow> suffix cs (th_finish code)"
| "code_pc code Joining \<longleftrightarrow> True"
| "code_pc code (Closing cs) \<longleftrightarrow> suffix cs (th_close code)"
| "code_pc code Returned \<longleftrightarrow> True"

section \<open>What the calls do to the parts of the abstract state\<close>

inductive_cases pubsub_newE: "pubsub_step a (Call_New m c) ok b"
inductive_cases pubsub_registerE: "pubsub_step a (Call_Register m l) ok b"
inductive_cases pubsub_unregisterE: "pubsub_step a (Call_Unregister m l) ok b"
inductive_cases pubsub_destroyE: "pubsub_step a (Call_Destroy m) ok b"
inductive_cases pubsub_sendE: "pubsub_step a (Call_SendMessage l t) ok b"
inductive_cases pubsub_signalE: "pubsub_step a (Call_SendSignal l) ok b"
inductive_cases pubsub_receiveE: "pubsub_step a (Call_Receive m) ok b"
inductive_cases pubsub_releaseE: "pubsub_step a (Call_Release i) ok b"

lemma offer_domain [simp]: "(offer c T x V m = None) = (V m = None)"
  by (induction T arbitrary: V) auto

lemma exec_held:
  "sys_exec lib c g = Inr (r, g') \<Longrightarrow> (\<And>m. c \<noteq> Call_Receive m) \<Longrightarrow> (\<And>i. c \<noteq> Call_Release i) \<Longrightarrow>
     s_held g' = s_held g"
  by (cases c) (auto simp: and_then_eq_Inr)


section \<open>Calls over hidden mailboxes\<close>

lemma signal_loop_hide:
  "signal_loop l rs w = Inr w' \<Longrightarrow> (\<And>m. m \<in> M \<Longrightarrow> Some m \<notin> set rs) \<Longrightarrow>
     signal_loop l rs (hide_box M w) = Inr (hide_box M w')"
proof (induction rs arbitrary: w)
  case (Cons r rs)
  from Cons.prems(1) obtain w1 where 1: "signal_one l r w = Inr w1" "signal_loop l rs w1 = Inr w'"
    by (auto simp: and_then_eq_Inr)
  have "signal_one l r (hide_box M w) = Inr (hide_box M w1)"
    using 1(1) Cons.prems(2)
    by (auto simp: signal_one_def hide_box_update split: option.splits prod.splits)
  then show ?case using Cons.IH [OF 1(2)] Cons.prems(2) by simp
qed simp

lemma signal_hide:
  assumes "Mailbox_SendSignal l w = Inr (ok, w')" and "\<And>m. m \<in> M \<Longrightarrow> Some m \<notin> set (receivers_of (w_data w) l)"
  shows "Mailbox_SendSignal l (hide_box M w) = Inr (ok, hide_box M w')"
proof -
  from assms(1) obtain d rs w1 where 1: "md_lock (w_data w) = Inr d" "md_resources d = Some rs"
      "signal_loop l (m_receivers (rs_mailboxes rs l)) (w\<lparr>w_data := d\<rparr>) = Inr w1" "ok"
      "w' = unlock_world w1"
    by (auto simp: Mailbox_SendSignal_def MailboxData_GetReceivers_def deref_resources_def
        and_then_eq_Inr split: option.splits)
  have "md_resources (w_data w) = Some rs" using 1(1,2) by (auto simp: md_lock_def split: if_splits)
  then have "signal_loop l (m_receivers (rs_mailboxes rs l)) (hide_box M (w\<lparr>w_data := d\<rparr>)) =
      Inr (hide_box M w1)"
    using signal_loop_hide [OF 1(3)] assms(2) by (simp add: receivers_of_def)
  then show ?thesis using 1
    by (simp add: Mailbox_SendSignal_def MailboxData_GetReceivers_def deref_resources_def unlock_world_def)
qed

text \<open>\<open>over_hidden M gs\<close>: the state \<open>gs\<close> with the mailboxes of \<open>M\<close> gone.\<close>

definition over_hidden :: "mbox set \<Rightarrow> ('r, 'k) tsys \<Rightarrow> ('r, 'k) tsys" where
  "over_hidden M gs = gs\<lparr>t_sys := hide M (t_sys gs)\<rparr>"

lemma over_hidden_simps [simp]:
  "t_sys (over_hidden M gs) = hide M (t_sys gs)" "t_kernel (over_hidden M gs) = t_kernel gs"
  "t_data (over_hidden M gs) = t_data gs" "t_objs (over_hidden M gs) = t_objs gs"
  "t_taken (over_hidden M gs) = t_taken gs" "over_hidden {} gs = gs"
  by (simp_all add: over_hidden_def)

lemma over_hidden_update:
  "(over_hidden M gs)\<lparr>t_sys := hide M g\<rparr> = over_hidden M (gs\<lparr>t_sys := g\<rparr>)"
  "(over_hidden M gs)\<lparr>t_kernel := k\<rparr> = over_hidden M (gs\<lparr>t_kernel := k\<rparr>)"
  "(over_hidden M gs)\<lparr>t_taken := x\<rparr> = over_hidden M (gs\<lparr>t_taken := x\<rparr>)"
  by (simp_all add: over_hidden_def)

text \<open>What a call must keep away from.\<close>

definition unaware :: "mbox set \<Rightarrow> call \<Rightarrow> 'r sys \<Rightarrow> bool" where
  "unaware M c s \<longleftrightarrow> (\<forall>m \<in> M. oblivious m c) \<or>
     (\<exists>l. c = Call_SendSignal l \<and> (\<forall>m \<in> M. Some m \<notin> set (receivers_of (w_data (s_world s)) l)))"

lemma unaware_exec:
  assumes "sys_exec lib c s = Inr (ok, s')" and "unaware M c s"
  shows "sys_exec lib c (hide M s) = Inr (ok, hide M s')"
  using assms(2) unfolding unaware_def
proof
  assume "\<forall>m \<in> M. oblivious m c"
  then show ?thesis using oblivious_exec [OF assms(1)] by blast
next
  assume "\<exists>l. c = Call_SendSignal l \<and> (\<forall>m \<in> M. Some m \<notin> set (receivers_of (w_data (s_world s)) l))"
  then obtain l where l: "c = Call_SendSignal l"
      "\<And>m. m \<in> M \<Longrightarrow> Some m \<notin> set (receivers_of (w_data (s_world s)) l)"
    by blast
  from assms(1) l(1) obtain w where w: "Mailbox_SendSignal l (s_world s) = Inr (ok, w)" "s' = s\<lparr>s_world := w\<rparr>"
    by (auto simp: and_then_eq_Inr)
  have "Mailbox_SendSignal l (hide_box M (s_world s)) = Inr (ok, hide_box M w)"
    by (rule signal_hide [OF w(1) l(2)])
  then show ?thesis using w(2) by (simp add: l(1) hide_def)
qed

lemma mail_step:
  assumes lib: "mailbox_lib (pl_lib pf) owns"
    and px: "posix_timers (pl_posix pf) (pl_expire pf) live armed pending"
    and inv: "tsys_inv owns live armed pending gs" and ok: "call_ok c (t_sys gs)"
    and hid: "unaware M c (t_sys gs)"
  obtains r g' where "pl_exec pf (T_Mail c) (over_hidden M gs) = (Inr r, over_hidden M (gs\<lparr>t_sys := g'\<rparr>))"
    "sys_exec (pl_lib pf) c (t_sys gs) = Inr (r, g')"
    "pubsub_step (abstract (t_sys gs)) c r (abstract g')"
    "tsys_inv owns live armed pending (gs\<lparr>t_sys := g'\<rparr>)"
proof -
  from inv obtain lost S G where g: "sys_inv owns (t_sys gs) lost S G" by (rule tsys_invE)
  from mailbox_lib.exec_good [OF lib g ok] obtain r g' where 1:
      "sys_exec (pl_lib pf) c (t_sys gs) = Inr (r, g')"
      "pubsub_step (abstract (t_sys gs)) c r (abstract g')"
    unfolding good_step_def by blast
  have "tcall_valid (T_Mail c) gs" using ok by simp
  then have "tsys_inv owns live armed pending (gs\<lparr>t_sys := g'\<rparr>)"
    by (rule posix_timers.step_cases [OF px lib inv]) (use 1(1) in auto)
  moreover have "pl_exec pf (T_Mail c) (over_hidden M gs) = (Inr r, over_hidden M (gs\<lparr>t_sys := g'\<rparr>))"
    using unaware_exec [OF 1(1) hid] by (simp add: pl_exec_mail over_hidden_update)
  ultimately show thesis using that 1 by blast
qed

section \<open>Timers over hidden mailboxes\<close>

lemma start_hidden:
  "TimerManagerData_startTimer px l time type gs = (r, gs') \<Longrightarrow>
     TimerManagerData_startTimer px l time type (over_hidden M gs) = (r, over_hidden M gs') \<and>
     t_sys gs' = t_sys gs"
  by (cases gs) (auto simp: TimerManagerData_startTimer_def over_hidden_def set_resources_def Let_def
      split: option.splits prod.splits sum.splits if_splits)

lemma cancel_hidden:
  "TimerManagerData_cancelTimer px l gs = (r, gs') \<Longrightarrow>
     TimerManagerData_cancelTimer px l (over_hidden M gs) = (r, over_hidden M gs') \<and>
     t_sys gs' = t_sys gs"
  by (cases gs) (auto simp: TimerManagerData_cancelTimer_def over_hidden_def set_resources_def Let_def
      split: option.splits prod.splits if_splits)

lemma start_step:
  assumes lib: "mailbox_lib (pl_lib pf) owns"
    and px: "posix_timers (pl_posix pf) (pl_expire pf) live armed pending"
    and inv: "tsys_inv owns live armed pending gs" and ok: "valid_timespec time"
  obtains (started) b gs' where "pl_exec pf (T_Start l time type) (over_hidden M gs) = (Inr b, over_hidden M gs')"
      "tsys_inv owns live armed pending gs'" "t_sys gs' = t_sys gs"
    | (failed) e x where "pl_exec pf (T_Start l time type) (over_hidden M gs) = (Inl e, x)" "out_of_timers e"
proof -
  obtain r gs' where 1: "TimerManagerData_startTimer (pl_posix pf) l time type gs = (r, gs')" by fastforce
  have 2: "pl_exec pf (T_Start l time type) (over_hidden M gs) = (r, over_hidden M gs')" "t_sys gs' = t_sys gs"
    using start_hidden [OF 1] by (simp_all add: pl_exec_def TimerManager_StartTimer_timespec_def)
  have "tcall_valid (T_Start l time type) gs" using ok by simp
  then show thesis
  proof (rule posix_timers.step_cases [OF px lib inv], goal_cases returns throws dangling)
    case (returns b y)
    then show thesis using started 1 2 by (simp add: TimerManager_StartTimer_timespec_def)
  next
    case (throws e y)
    then show thesis using failed 1 2 by (auto simp: TimerManager_StartTimer_timespec_def)
  qed simp
qed

lemma cancel_step:
  assumes lib: "mailbox_lib (pl_lib pf) owns"
    and px: "posix_timers (pl_posix pf) (pl_expire pf) live armed pending"
    and inv: "tsys_inv owns live armed pending gs"
  obtains b gs' where "pl_exec pf (T_Cancel l) (over_hidden M gs) = (Inr b, over_hidden M gs')"
      "tsys_inv owns live armed pending gs'" "t_sys gs' = t_sys gs"
proof -
  obtain r gs' where 1: "TimerManagerData_cancelTimer (pl_posix pf) l gs = (r, gs')" by fastforce
  have 2: "pl_exec pf (T_Cancel l) (over_hidden M gs) = (r, over_hidden M gs')" "t_sys gs' = t_sys gs"
    using cancel_hidden [OF 1] by (simp_all add: pl_exec_def TimerManager_CancelTimer_def)
  have "tcall_valid (T_Cancel l) gs" by simp
  then show thesis
  proof (rule posix_timers.step_cases [OF px lib inv], goal_cases returns throws dangling)
    case (returns b y)
    then show thesis using that 1 2 by (simp add: TimerManager_CancelTimer_def)
  qed simp_all
qed

lemma expire_step:
  assumes lib: "mailbox_lib (pl_lib pf) owns"
    and px: "posix_timers (pl_posix pf) (pl_expire pf) live armed pending"
    and inv: "tsys_inv owns live armed pending gs"
  obtains gs' where "pl_exec pf (T_Expire n) (over_hidden M gs) = (Inr True, over_hidden M gs')"
      "tsys_inv owns live armed pending gs'" "t_sys gs' = t_sys gs"
proof
  let ?gs = "gs\<lparr>t_kernel := pl_expire pf (t_kernel gs) n\<rparr>"
  show "pl_exec pf (T_Expire n) (over_hidden M gs) = (Inr True, over_hidden M ?gs)"
    by (simp add: pl_exec_def over_hidden_update)
  show "tsys_inv owns live armed pending ?gs" by (rule posix_timers.expire_inv [OF px inv])
qed simp

lemma event_hidden:
  assumes ev: "Timer_timerEvent px q gs = (Inr (), gs')" and unlocked: "\<not> md_locked (w_data (s_world (t_sys gs)))"
  obtains l where "sys_exec lib (Call_SendSignal l) (t_sys gs) = Inr (True, t_sys gs')"
    "Timer_timerEvent px q (over_hidden M gs) = (Inr (), over_hidden M gs') \<or>
     (\<exists>x m. Timer_timerEvent px q (over_hidden M gs) = (Inl Dangling_Mailbox, x) \<and> m \<in> M \<and>
       Some m \<in> set (receivers_of (w_data (s_world (t_sys gs))) l))"
proof -
  let ?w = "s_world (t_sys gs)"
  from ev obtain tm b w where tm: "t_objs gs q = Some tm" "Mailbox_SendSignal (tm_label tm) ?w = Inr (b, w)"
    by (auto simp: Timer_timerEvent_def split: option.splits sum.splits)
  have b: "b" using tm(2) by (auto simp: Mailbox_SendSignal_def and_then_eq_Inr)
  let ?gs = "gs\<lparr>t_sys := (t_sys gs)\<lparr>s_world := w\<rparr>\<rparr>"
  obtain r gs2 where c: "TimerManagerData_cancelTimer px (tm_label tm) ?gs = (r, gs2)" by fastforce
  note c' = cancel_hidden [OF c, of M]
  have end_eq: "if tm_type tm = ONE_SHOT then gs' = gs2 \<and> (\<exists>ok. r = Inr ok) else gs' = ?gs"
    using ev tm c by (auto simp: Timer_timerEvent_def Let_def split: sum.splits if_splits)
  have "t_sys gs' = (t_sys gs)\<lparr>s_world := w\<rparr>" using end_eq c' by (simp split: if_splits)
  then have "sys_exec lib (Call_SendSignal (tm_label tm)) (t_sys gs) = Inr (True, t_sys gs')"
    using tm(2) b by simp
  moreover have "Timer_timerEvent px q (over_hidden M gs) = (Inr (), over_hidden M gs')"
    if "\<And>m. m \<in> M \<Longrightarrow> Some m \<notin> set (receivers_of (w_data ?w) (tm_label tm))"
  proof -
    have sent: "Mailbox_SendSignal (tm_label tm) (hide_box M ?w) = Inr (b, hide_box M w)"
      by (rule signal_hide [OF tm(2) that])
    have eq: "(over_hidden M gs)\<lparr>t_sys := (t_sys (over_hidden M gs))\<lparr>s_world := hide_box M w\<rparr>\<rparr> = over_hidden M ?gs"
      by (simp add: over_hidden_def hide_def)
    have "Timer_timerEvent px q (over_hidden M gs) =
        (if tm_type tm = ONE_SHOT then
           (case TimerManagerData_cancelTimer px (tm_label tm) (over_hidden M ?gs) of
              (Inl e, s) \<Rightarrow> (Inl e, s) | (Inr _, s) \<Rightarrow> (Inr (), s))
         else (Inr (), over_hidden M ?gs))"
      unfolding Timer_timerEvent_def eq [symmetric] using tm(1) sent by (simp add: hide_def)
    then show ?thesis using end_eq c' by (auto split: if_splits)
  qed
  moreover have "\<exists>x. Timer_timerEvent px q (over_hidden M gs) = (Inl Dangling_Mailbox, x)"
    if "m \<in> M" "Some m \<in> set (receivers_of (w_data ?w) (tm_label tm))" for m
    using that tm(1) unlocked signal_dangles [of "hide_box M ?w" m "tm_label tm"]
    by (simp add: Timer_timerEvent_def hide_def)
  ultimately show thesis using that by metis
qed

lemma take_hidden:
  "t_taken gs = None \<Longrightarrow> HandleSignals_step px gs = (r, gs') \<Longrightarrow>
     HandleSignals_step px (over_hidden M gs) = (r, over_hidden M gs')"
  by (auto simp: HandleSignals_step_def over_hidden_update split: prod.splits)

lemma signal_step:
  assumes lib: "mailbox_lib (pl_lib pf) owns"
    and px: "posix_timers (pl_posix pf) (pl_expire pf) live armed pending"
    and inv: "tsys_inv owns live armed pending gs"
  obtains (quiet) gs' where "pl_exec pf T_Signal (over_hidden M gs) = (Inr True, over_hidden M gs')"
      "tsys_inv owns live armed pending gs'" "stale pending gs' \<subseteq> stale pending gs" "t_sys gs' = t_sys gs"
    | (sent) gs' l where "pl_exec pf T_Signal (over_hidden M gs) = (Inr True, over_hidden M gs')"
      "tsys_inv owns live armed pending gs'" "stale pending gs' \<subseteq> stale pending gs"
      "sys_exec (pl_lib pf) (Call_SendSignal l) (t_sys gs) = Inr (True, t_sys gs')"
      "pubsub_step (abstract (t_sys gs)) (Call_SendSignal l) True (abstract (t_sys gs'))"
    | (dangling) x l m where "pl_exec pf T_Signal (over_hidden M gs) = (Inl Dangling_Mailbox, x)"
      "m \<in> M" "Some m \<in> set (receivers_of (w_data (s_world (t_sys gs))) l)"
    | (cancelled) x q where "pl_exec pf T_Signal (over_hidden M gs) = (Inl Dangling_Timer, x)"
      "t_taken gs = Some q" "t_objs gs q = None"
proof -
  let ?px = "pl_posix pf" and ?gs = "gs\<lparr>t_taken := None\<rparr>"
  from inv obtain tr lost S G where g: "td_resources (t_data gs) = Some tr" "sys_inv owns (t_sys gs) lost S G"
      "md_initialized (w_data (s_world (t_sys gs)))"
    by (rule tsys_invE)
  show thesis
  proof (rule posix_timers.signal_spec [OF px lib inv g(1)], goal_cases idle take handle dangling)
    case (idle k')
    then show thesis using take_hidden [OF idle(1,3), of M]
      by (intro quiet [of "gs\<lparr>t_kernel := k', t_taken := None\<rparr>"]) (auto simp: pl_exec_def stale_iff)
  next
    case (take i p ps k')
    then show thesis using take_hidden [OF take(1,3), of M]
      by (intro quiet [of "gs\<lparr>t_kernel := k', t_taken := Some p\<rparr>"]) (auto simp: pl_exec_def stale_iff)
  next
    case (handle p tm w s' tr')
    have ev: "Timer_timerEvent ?px p ?gs = (Inr (), s')" using handle(1,4) by (simp add: HandleSignals_step_def)
    have "\<not> md_locked (w_data (s_world (t_sys ?gs)))" using g(2) by (simp add: sys_inv_def)
    from event_hidden [OF ev this, of "pl_lib pf" M] obtain l where l:
        "sys_exec (pl_lib pf) (Call_SendSignal l) (t_sys gs) = Inr (True, t_sys s')"
        "Timer_timerEvent ?px p (over_hidden M ?gs) = (Inr (), over_hidden M s') \<or>
         (\<exists>x m. Timer_timerEvent ?px p (over_hidden M ?gs) = (Inl Dangling_Mailbox, x) \<and>
           m \<in> M \<and> Some m \<in> set (receivers_of (w_data (s_world (t_sys gs))) l))"
      by auto
    have step: "pl_exec pf T_Signal (over_hidden M gs) =
        (case Timer_timerEvent ?px p (over_hidden M ?gs) of
           (Inl e, s) \<Rightarrow> (Inl e, s) | (Inr _, s) \<Rightarrow> (Inr True, s))"
      using handle(1) by (simp add: pl_exec_def HandleSignals_step_def over_hidden_update)
    have "call_ok (Call_SendSignal l) (t_sys gs)" using g(3) by simp
    from mailbox_lib.exec_good [OF lib g(2) this] l(1)
    have pub: "pubsub_step (abstract (t_sys gs)) (Call_SendSignal l) True (abstract (t_sys s'))"
      by (auto simp: good_step_def)
    have "stale pending s' \<subseteq> stale pending gs"
      using handle by (cases "tm_type tm") (auto simp: stale_iff split: if_splits)
    then show thesis using l(2) sent [OF _ handle(7) _ l(1) pub] dangling step by auto
  next
    case (dangling p)
    then have "pl_exec pf T_Signal (over_hidden M gs) = (Inl Dangling_Timer, over_hidden M ?gs)"
      by (simp add: pl_exec_def HandleSignals_step_def Timer_timerEvent_def over_hidden_update)
    then show thesis using cancelled dangling(1,2) by simp
  qed
qed

text \<open>The other calls, but for cancels, leave what signals point to alive.\<close>

lemma stale_hidden [simp]: "stale pending (over_hidden M gs) = stale pending gs"
  by (auto simp: stale_iff)

lemma stale_mail: "pl_exec pf (T_Mail m) s = (Inr ok, s') \<Longrightarrow> stale pending s' = stale pending s"
  by (auto simp: pl_exec_def stale_iff split: sum.splits prod.splits)

lemma stale_exec:
  assumes lib: "mailbox_lib (pl_lib pf) owns"
    and px: "posix_timers (pl_posix pf) (pl_expire pf) live armed pending"
    and inv: "tsys_inv owns live armed pending gs"
    and c: "(\<exists>l time type. c = T_Start l time type \<and> valid_timespec time) \<or> (\<exists>n. c = T_Expire n)"
    and exec: "pl_exec pf c (over_hidden M gs) = (Inr ok, s')"
  shows "stale pending s' \<subseteq> stale pending gs"
proof -
  have valid: "tcall_valid c gs" "orphaned pending c gs = {}" using c by (auto simp: orphaned_def)
  obtain r gs' where 1: "tsys_exec (pl_posix pf) (pl_expire pf) (pl_lib pf) c gs = (r, gs')" by fastforce
  have "s' = over_hidden M gs' \<and> r = Inr ok"
    using c
  proof (elim disjE exE conjE)
    fix l time type assume "c = T_Start l time type"
    then show ?thesis using 1 start_hidden [of "pl_posix pf" l time type gs r gs' M] exec
      by (simp add: pl_exec_def TimerManager_StartTimer_timespec_def)
  next
    fix n assume "c = T_Expire n"
    then show ?thesis using 1 exec by (auto simp: pl_exec_def over_hidden_update)
  qed
  moreover from px lib inv valid(1) have "stale pending gs' \<subseteq> stale pending gs" if "r = Inr ok"
    by (rule posix_timers.step_cases) (use 1 valid(2) that in auto)
  ultimately show ?thesis by simp
qed

text \<open>The call a thread makes next, other than a \<^verbatim>\<open>Receive\<close> or a release.\<close>

fun next_call :: "thread_pc \<Rightarrow> tcall option" where
  "next_call (Setup (c # cs)) = Some c"
| "next_call (Handling msg (Act c # acts) brk) = Some c"
| "next_call (Finish (c # cs)) = Some c"
| "next_call (Closing (c # cs)) = Some c"
| "next_call pc = None"

lemma call_eq:
  "pr_call pf i c pc p = Inr p' \<longleftrightarrow>
     (\<exists>r s'. pl_exec pf c (pr_sys p) = (Inr r, s') \<and> p' = pr_goto i pc (p\<lparr>pr_sys := s'\<rparr>))"
  by (auto simp: pr_call_def split: prod.splits sum.splits)

lemma action_pcs: "action_step pf code i msg a pc p = Inr p' \<Longrightarrow> pr_pcs p' = (pr_pcs p)(i := pc)"
  by (cases a) (auto simp: call_eq)

lemma thread_other:
  assumes "thread_step pf code i p = Inr p'" and "j \<noteq> i"
  shows "pr_pcs p' j = pr_pcs p j"
  using assms
  by (auto simp: thread_step_def call_eq Let_def split: thread_pc.splits list.splits prod.splits sum.splits if_splits
      dest: action_pcs)

lemma thread_keeps:
  assumes step: "thread_step pf code i p = Inr p'" and P: "P (pr_sys p)"
    and call: "\<And>c ok s'. pl_exec pf c (pr_sys p) = (Inr ok, s') \<Longrightarrow>
      (\<exists>m. c = T_Mail m) \<or> next_call (pr_pcs p i) = Some c \<Longrightarrow> P s'"
  shows "P (pr_sys p')"
proof (cases "pr_pcs p i" rule: thread_pc_cases)
  case (handling msg acts brk)
  show ?thesis
  proof (cases acts)
    case Nil
    then show ?thesis using handling step P by (auto simp: thread_step_def)
  next
    case (Cons a as)
    then show ?thesis using handling step P call
      by (cases a) (auto simp: thread_step_def call_eq)
  qed
qed (use step P call in \<open>auto simp: thread_step_def call_eq Let_def split: prod.splits sum.splits if_splits\<close>)

end
