(* ===== verification/MboxInv.thy ===== *)
theory MboxInv
  imports MboxExample ProgramInv
begin

text \<open>
  The invariant of \<^verbatim>\<open>example/mbox.cpp\<close> over all schedules: who is registered for what, which
  messages are on their way, shown or held; and that every move of a thread preserves it. The
  mailbox of thread 3, which does not unregister from its own labels, is kept in a ghost state
  after it is gone.
\<close>

section \<open>Reading messages\<close>

lemma byte_step: "ucast (ucast x :: byte) + 256 * drop_bit 8 x = (x :: 32 word)"
proof -
  have "push_bit 8 (drop_bit 8 x) + take_bit 8 x = x" by (rule bits_ident)
  moreover have "ucast (ucast x :: byte) = take_bit 8 x" by (simp add: unsigned_ucast_eq)
  ultimately show ?thesis by (simp add: push_bit_eq_mult add.commute mult.commute)
qed

lemma int_of_bytes [simp]: "int_of (int_bytes x) = x"
proof -
  have "drop_bit 32 x = 0" by (rule bit_word_eqI) (auto simp: bit_simps dest: bit_imp_le_length)
  then have "int_of (int_bytes x) = ucast (ucast x :: byte) + 256 *
      (ucast (ucast (drop_bit 8 x) :: byte) + 256 * (ucast (ucast (drop_bit 16 x) :: byte) +
        256 * (ucast (ucast (drop_bit 24 x) :: byte) + 256 * drop_bit 32 x)))"
    by (simp add: int_of_def int_bytes_def algebra_simps)
  also have "\<dots> = x"
    using byte_step [of x] byte_step [of "drop_bit 8 x"] byte_step [of "drop_bit 16 x"]
      byte_step [of "drop_bit 24 x"]
    by (simp add: drop_bit_drop_bit)
  finally show ?thesis .
qed

lemma length_int_bytes [simp]: "length (int_bytes x) = 4"
  by (simp add: int_bytes_def)

text \<open>\<^verbatim>\<open>displayMsg\<close> depends on the client's view of the message only.\<close>

fun shown_of :: "payload \<Rightarrow> shown option" where
  "shown_of (l, None) =
     (if l = Msg1 \<or> l = Msg2 \<or> l = Msg3 then None else Some (Got_Signal l))"
| "shown_of (l, Some bs) =
     (if l = Msg1 then
        if length bs = 20 then
          Some (Got_Msg1 (int_of (take 4 bs)) (int_of (take 4 (drop 4 bs))) (int_of (take 4 (drop 8 bs)))
            (int_of (take 4 (drop 12 bs))) (bs ! 16 \<noteq> 0))
        else None
      else if l = Msg2 then if length bs = 1 then Some (Got_Msg2 (bs ! 0 \<noteq> 0)) else None
      else if l = Msg3 then
        if length bs = 12 then
          Some (Got_Msg3 (int_of (take 4 bs)) (int_of (take 4 (drop 4 bs))) (int_of (take 4 (drop 8 bs))))
        else None
      else Some (Got_Signal l))"

lemma Msg_distinct [simp]:
  "Msg1 \<noteq> Msg2" "Msg1 \<noteq> Msg3" "Msg1 \<noteq> Msg4" "Msg1 \<noteq> Msg5" "Msg1 \<noteq> Exit"
  "Msg2 \<noteq> Msg1" "Msg2 \<noteq> Msg3" "Msg2 \<noteq> Msg4" "Msg2 \<noteq> Msg5" "Msg2 \<noteq> Exit"
  "Msg3 \<noteq> Msg1" "Msg3 \<noteq> Msg2" "Msg3 \<noteq> Msg4" "Msg3 \<noteq> Msg5" "Msg3 \<noteq> Exit"
  "Msg4 \<noteq> Msg1" "Msg4 \<noteq> Msg2" "Msg4 \<noteq> Msg3" "Msg4 \<noteq> Msg5" "Msg4 \<noteq> Exit"
  "Msg5 \<noteq> Msg1" "Msg5 \<noteq> Msg2" "Msg5 \<noteq> Msg3" "Msg5 \<noteq> Msg4" "Msg5 \<noteq> Exit"
  "Exit \<noteq> Msg1" "Exit \<noteq> Msg2" "Exit \<noteq> Msg3" "Exit \<noteq> Msg4" "Exit \<noteq> Msg5"
  by (simp_all add: Msg_defs)

lemma int_at_take:
  assumes "k + 4 \<le> n"
  shows "int_at mem (p + k) = int_of (take 4 (drop k (bytes_at mem p n)))"
proof -
  have "drop k [p..<p + n] = [p + k..<p + n]" by simp
  also have "\<dots> = (p + k) # (p + k + 1) # (p + k + 2) # (p + k + 3) # [p + k + 4..<p + n]"
    using assms by (simp add: upt_conv_Cons eval_nat_numeral del: upt_Suc)
  finally show ?thesis by (simp add: int_at_def bytes_at_def drop_map add.assoc)
qed

lemma displayMsg_view: "displayMsg mem msg = shown_of (view_msg mem msg)"
proof (cases "m_data msg = nullptr")
  case True
  then show ?thesis by (simp add: displayMsg_def view_msg_def Message_as_def Let_def)
next
  case False
  let ?n = "unat (m_size msg)"
  note at = int_at_take [of 0 ?n, simplified] int_at_take [of 4 ?n] int_at_take [of 8 ?n]
    int_at_take [of 12 ?n]
  show ?thesis using False at [of mem "m_data msg"]
    by (auto simp: displayMsg_def view_msg_def Message_as_def Let_def Message1_def Message2_def
        Message3_def bytes_at_def)
qed

lemma shown_of_sent [simp]:
  "shown_of (Msg1, Some (Message1_bytes a b c d e pad)) = Some (Got_Msg1 a b c d e)"
  "shown_of (Msg2, Some (Message2_bytes e)) = Some (Got_Msg2 e)"
  "shown_of (Msg3, Some (Message3_bytes a b c)) = Some (Got_Msg3 a b c)"
  by (simp_all add: Message1_bytes_def Message2_bytes_def Message3_bytes_def nth_append)

text \<open>The state with the mailbox \<open>m\<close> gone.\<close>

abbreviation without :: "mbox \<Rightarrow> 'r sys \<Rightarrow> 'r sys" where
  "without m \<equiv> hide {m}"

section \<open>The invariant\<close>

text \<open>Which labels a thread is registered for, by where it is; thread 3 stays registered for two.\<close>

definition labels_of :: "nat \<Rightarrow> label set" where
  "labels_of i =
     (if i = 1 then {Msg1, Msg2, Exit} else if i = 2 then {Msg1, Msg3, Exit}
      else if i = 3 then {Msg4, Msg5, Exit} else {})"

fun registered :: "nat \<Rightarrow> mbox \<Rightarrow> thread_pc \<Rightarrow> label \<Rightarrow> bool" where
  "registered i m (Setup cs) l \<longleftrightarrow> l \<in> labels_of i \<and> T_Mail (Call_Register m l) \<notin> set cs"
| "registered i m Loop l \<longleftrightarrow> l \<in> labels_of i"
| "registered i m (Handling msg acts brk) l \<longleftrightarrow> l \<in> labels_of i"
| "registered i m (Finish cs) l \<longleftrightarrow> l \<in> labels_of i \<and>
     (i = 3 \<and> l \<noteq> Exit \<or> T_Mail (Call_Unregister m l) \<in> set cs)"
| "registered i m Joining l \<longleftrightarrow> i = 3 \<and> l \<in> labels_of 3 - {Exit}"
| "registered i m (Closing cs) l \<longleftrightarrow> i = 3 \<and> l \<in> labels_of 3 - {Exit}"
| "registered i m Returned l \<longleftrightarrow> i = 3 \<and> l \<in> labels_of 3 - {Exit}"

fun over :: "thread_pc \<Rightarrow> bool" where
  "over (Setup cs) \<longleftrightarrow> False"
| "over Loop \<longleftrightarrow> False"
| "over (Handling msg acts brk) \<longleftrightarrow> brk"
| "over pc \<longleftrightarrow> True"

text \<open>A message received and not yet shown.\<close>

fun hand :: "(Message \<Rightarrow> payload) \<Rightarrow> thread_pc \<Rightarrow> payload list" where
  "hand vw (Handling msg acts brk) = (if Show \<in> set acts then [vw msg] else [])"
| "hand vw pc = []"

text \<open>Where a thread can be.\<close>

fun worker_pc :: "shown thread_code \<Rightarrow> thread_pc \<Rightarrow> bool" where
  "worker_pc code (Setup cs) \<longleftrightarrow> suffix cs (th_setup code)"
| "worker_pc code (Handling msg acts brk) \<longleftrightarrow>
     (acts = [Show, Release] \<or> acts = [Release] \<or> acts = []) \<and> brk = (m_label msg = Exit)"
| "worker_pc code (Finish cs) \<longleftrightarrow> suffix cs (th_finish code)"
| "worker_pc code (Closing cs) \<longleftrightarrow> suffix cs (th_close code)"
| "worker_pc code pc \<longleftrightarrow> True"

fun main_pc :: "shown thread_code \<Rightarrow> thread_pc \<Rightarrow> bool" where
  "main_pc code (Setup cs) \<longleftrightarrow> suffix cs (th_setup code)"
| "main_pc code (Finish cs) \<longleftrightarrow> cs = []"
| "main_pc code (Closing cs) \<longleftrightarrow> suffix cs (th_close code)"
| "main_pc code Joining \<longleftrightarrow> True"
| "main_pc code Returned \<longleftrightarrow> True"
| "main_pc code pc \<longleftrightarrow> False"

fun payloads :: "tcall list \<Rightarrow> payload list" where
  "payloads (T_Mail (Call_SendMessage l t) # cs) = (l, Some t) # payloads cs"
| "payloads (T_Mail (Call_SendSignal l) # cs) = (l, None) # payloads cs"
| "payloads (c # cs) = payloads cs"
| "payloads [] = []"

fun to_send :: "thread_pc \<Rightarrow> payload list" where
  "to_send (Setup cs) = payloads cs"
| "to_send pc = []"

definition all_sent :: "byte \<times> byte \<times> byte \<Rightarrow> payload list" where
  "all_sent pad =
     [(Msg3, Some (Message3_bytes 1 2 3)), (Msg2, Some (Message2_bytes True)),
      (Msg1, Some (Message1_bytes 1 2 3 4 True pad)), (Msg4, None), (Msg5, None), (Exit, None)]"

definition sent :: "byte \<times> byte \<times> byte \<Rightarrow> thread_pc \<Rightarrow> payload list" where
  "sent pad pc = take (6 - length (to_send pc)) (all_sent pad)"

definition traffic ::
  "nat \<Rightarrow> payload list \<Rightarrow> shown list \<Rightarrow> payload list \<Rightarrow> payload list \<Rightarrow> bool" where
  "traffic i xs log h q \<longleftrightarrow>
     (\<exists>r. log = List.map_filter shown_of r \<and> subseq (r @ h @ q) (filter (\<lambda>x. fst x \<in> labels_of i) xs))"

definition inbox :: "pubsub \<Rightarrow> mbox \<Rightarrow> payload list" where
  "inbox a m = (case a_queues a m of None \<Rightarrow> [] | Some v \<Rightarrow> v)"

definition workers :: "nat set" where "workers = {1, 2, 3}"

lemma workers_simps [simp]: "finite workers" "card workers = 3" "0 \<notin> workers"
  by (simp_all add: workers_def)

definition seats_inv :: "(nat \<Rightarrow> mbox) \<Rightarrow> pubsub \<Rightarrow> (nat \<Rightarrow> thread_pc) \<Rightarrow> bool" where
  "seats_inv mb a pcs \<longleftrightarrow>
     (\<forall>l. length (a_slots a l) = 3 \<and> distinct (targets (a_slots a l)) \<and>
        set (targets (a_slots a l)) = mb ` {i \<in> workers. registered i (mb i) (pcs i) l})"

text \<open>The mailbox of thread 3 stays in the ghost state.\<close>

definition present :: "nat \<Rightarrow> mbox \<Rightarrow> thread_pc \<Rightarrow> bool" where
  "present i m pc \<longleftrightarrow> alive m pc \<or> i = 3 \<and> gone pc"

definition boxes_inv :: "(nat \<Rightarrow> mbox) \<Rightarrow> pubsub \<Rightarrow> (nat \<Rightarrow> thread_pc) \<Rightarrow> bool" where
  "boxes_inv mb a pcs \<longleftrightarrow>
     (\<forall>i \<in> insert 0 workers. a_queues a (mb i) \<noteq> None \<longleftrightarrow> present i (mb i) (pcs i)) \<and>
     (\<forall>m c. a_caps a m = Some c \<longrightarrow> c = QUEUE_SIZE)"

definition traffic_inv ::
  "byte \<times> byte \<times> byte \<Rightarrow> (nat \<Rightarrow> mbox) \<Rightarrow> pubsub \<Rightarrow> (Message \<Rightarrow> payload) \<Rightarrow>
    (nat \<Rightarrow> thread_pc) \<Rightarrow> (nat \<Rightarrow> shown list) \<Rightarrow> bool" where
  "traffic_inv pad mb a vw pcs log \<longleftrightarrow>
     (\<forall>i \<in> workers. traffic i (sent pad (pcs 0)) (log i) (hand vw (pcs i)) (inbox a (mb i)) \<and>
        (over (pcs i) \<longrightarrow> to_send (pcs 0) = []))"

definition pcs_inv ::
  "byte \<times> byte \<times> byte \<Rightarrow> (nat \<Rightarrow> mbox) \<Rightarrow> (nat \<Rightarrow> thread_pc) \<Rightarrow> bool" where
  "pcs_inv pad mb pcs \<longleftrightarrow> main_pc (mbox_codes pad mb ! 0) (pcs 0) \<and>
     (\<forall>i \<in> workers. worker_pc (mbox_codes pad mb ! i) (pcs i))"

definition held_inv :: "Message list \<Rightarrow> (nat \<Rightarrow> thread_pc) \<Rightarrow> bool" where
  "held_inv held pcs \<longleftrightarrow> mset held = (\<Sum>i \<in> workers. holds (pcs i))"

text \<open>
  The state of the mailboxes is \<open>g\<close>, with the mailbox of thread 3 removed once the thread has left
  its scope: that one is destroyed while it is registered, which the discipline excludes.
\<close>

definition mbox_inv ::
  "('r \<Rightarrow> blocks \<Rightarrow> bool) \<Rightarrow> byte \<times> byte \<times> byte \<Rightarrow> (nat \<Rightarrow> mbox) \<Rightarrow> ('r, 'k, shown) prog \<Rightarrow> 'r sys \<Rightarrow>
    bool" where
  "mbox_inv owns pad mb p g \<longleftrightarrow>
     (\<exists>lost S G. sys_inv owns g lost S G) \<and> md_initialized (w_data (s_world g)) \<and>
     t_sys (pr_sys p) = (if gone (pr_pcs p 3) then without (mb 3) g else g) \<and>
     seats_inv mb (abstract g) (pr_pcs p) \<and> boxes_inv mb (abstract g) (pr_pcs p) \<and>
     traffic_inv pad mb (abstract g) (view_msg (w_mem (s_world g))) (pr_pcs p) (pr_log p) \<and>
     pcs_inv pad mb (pr_pcs p) \<and> held_inv (s_held g) (pr_pcs p)"

section \<open>What the calls do to the parts of the invariant\<close>

lemma targets_add:
  "None \<in> set rs \<Longrightarrow> add_loop (Some m) rs = (ok, rs') \<Longrightarrow>
     length rs' = length rs \<and> mset (targets rs') = add_mset m (mset (targets rs))"
proof (induction rs arbitrary: rs' ok)
  case (Cons r rs)
  then show ?case by (cases r) (auto split: prod.splits if_splits)
qed simp

lemma targets_remove:
  "targets (map (\<lambda>r. if r = Some m then None else r) rs) = filter (\<lambda>k. k \<noteq> m) (targets rs)"
  by (induction rs rule: targets.induct) auto

lemma full_targets: "None \<notin> set rs \<Longrightarrow> length (targets rs) = length rs"
  by (induction rs rule: targets.induct) auto

lemma seats_goto:
  assumes "seats_inv mb a pcs" and "a_slots b = a_slots a"
    and "\<And>l. i \<in> workers \<Longrightarrow> registered i (mb i) pc l = registered i (mb i) (pcs i) l"
  shows "seats_inv mb b (pcs(i := pc))"
proof -
  have "{j \<in> workers. registered j (mb j) ((pcs(i := pc)) j) l} =
      {j \<in> workers. registered j (mb j) (pcs j) l}" for l
    using assms(3) by auto
  then show ?thesis using assms(1,2) unfolding seats_inv_def by metis
qed

lemma seats_register:
  assumes "seats_inv mb a pcs" and "inj mb" and "i \<in> workers"
    and "add_loop (Some (mb i)) (a_slots a l) = (ok, slots)"
    and "\<not> registered i (mb i) (pcs i) l"
    and "\<And>k. registered i (mb i) pc k \<longleftrightarrow> registered i (mb i) (pcs i) k \<or> k = l"
  shows "seats_inv mb (a\<lparr>a_slots := (a_slots a)(l := slots)\<rparr>) (pcs(i := pc))"
proof -
  let ?R = "\<lambda>pcs k. {j \<in> workers. registered j (mb j) (pcs j) k}"
  have s: "length (a_slots a k) = 3" "distinct (targets (a_slots a k))"
      "set (targets (a_slots a k)) = mb ` ?R pcs k" for k
    using assms(1) by (auto simp: seats_inv_def)
  have "None \<in> set (a_slots a l)"
  proof (rule ccontr)
    assume "None \<notin> set (a_slots a l)"
    then have "card (mb ` ?R pcs l) = 3"
      using full_targets s [of l] distinct_card by metis
    moreover have "?R pcs l \<subseteq> workers - {i}" using assms(5) by auto
    then have "card (?R pcs l) \<le> card (workers - {i})" by (rule card_mono [rotated]) simp
    moreover have "card (mb ` ?R pcs l) \<le> card (?R pcs l)" by (rule card_image_le) simp
    ultimately show False using assms(3) by auto
  qed
  note t = targets_add [OF this assms(4)]
  have "?R (pcs(i := pc)) k = (if k = l then insert i (?R pcs k) else ?R pcs k)" for k
    using assms(3,5,6) by auto
  moreover have "mb i \<notin> set (targets (a_slots a l))"
    using s(3) [of l] assms(2,5) by (auto dest: injD)
  moreover have "set (targets slots) = insert (mb i) (set (targets (a_slots a l)))"
    using t by (metis set_mset_add_mset_insert set_mset_mset)
  moreover have "distinct (targets slots) \<longleftrightarrow>
      mb i \<notin> set (targets (a_slots a l)) \<and> distinct (targets (a_slots a l))"
    using t by (metis distinct.simps(2) mset.simps(2) mset_eq_imp_distinct_iff)
  ultimately show ?thesis using s t unfolding seats_inv_def by simp
qed

lemma seats_unregister:
  assumes "seats_inv mb a pcs" and "inj mb" and "i \<in> workers"
    and "\<And>k. registered i (mb i) pc k \<longleftrightarrow> registered i (mb i) (pcs i) k \<and> k \<noteq> l"
  shows "seats_inv mb (a\<lparr>a_slots := (a_slots a)(l := map (\<lambda>r. if r = Some (mb i) then None else r)
    (a_slots a l))\<rparr>) (pcs(i := pc))"
proof -
  let ?R = "\<lambda>pcs k. {j \<in> workers. registered j (mb j) (pcs j) k}"
  have "?R (pcs(i := pc)) k = (if k = l then ?R pcs k - {i} else ?R pcs k)" for k
    using assms(3,4) by auto
  moreover have "mb ` (A - {i}) = mb ` A - {mb i}" for A
    using assms(2) by (auto dest: injD)
  ultimately show ?thesis using assms(1) unfolding seats_inv_def
    by (auto simp: targets_remove)
qed


lemma traffic_show:
  "traffic i xs log [x] q \<Longrightarrow>
     traffic i xs (log @ (case shown_of x of None \<Rightarrow> [] | Some e \<Rightarrow> [e])) [] q"
proof -
  assume "traffic i xs log [x] q"
  then obtain r where "log = List.map_filter shown_of r"
      "subseq (r @ [x] @ q) (filter (\<lambda>x. fst x \<in> labels_of i) xs)"
    unfolding traffic_def by blast
  then show ?thesis unfolding traffic_def
    by (intro exI [of _ "r @ [x]"]) (auto simp: map_filter_def split: option.splits)
qed

lemma traffic_receive: "traffic i xs log [] (x # q) \<Longrightarrow> traffic i xs log [x] q"
  by (simp add: traffic_def)

lemma traffic_more: "traffic i xs log h q \<Longrightarrow> traffic i (xs @ [x]) log h q"
  unfolding traffic_def by (auto intro: subseq_rev_drop_many)

lemma traffic_deliver:
  "traffic i xs log h q \<Longrightarrow> fst x \<in> labels_of i \<Longrightarrow> traffic i (xs @ [x]) log h (q @ [x])"
  unfolding traffic_def by (auto simp flip: append_assoc simp: subseq_append)

lemma traffic_drop: "traffic i xs log h q \<Longrightarrow> traffic i xs log h []"
proof -
  have "subseq (r @ h) zs" if "subseq (r @ h @ q) zs" for r :: "payload list" and zs
    by (rule subseq_order.trans [OF _ that])
      (simp flip: append_assoc add: subseq_rev_drop_many)
  then show "traffic i xs log h q \<Longrightarrow> traffic i xs log h []" unfolding traffic_def by auto
qed

lemma traffic_sent:
  "traffic i xs log h q \<Longrightarrow> x \<in> set h \<union> set q \<Longrightarrow> x \<in> set xs \<and> fst x \<in> labels_of i"
proof -
  assume t: "traffic i xs log h q" and x: "x \<in> set h \<union> set q"
  from t obtain r where "subseq (r @ h @ q) (filter (\<lambda>x. fst x \<in> labels_of i) xs)"
    unfolding traffic_def by blast
  from list_emb_set [OF this, of x] x show ?thesis by auto
qed

lemma offer_at:
  "distinct T \<Longrightarrow> offer c T x V m =
     (if m \<in> set T then map_option (\<lambda>v. v @ (if length v < unat (the (c m)) then [x] else [])) (V m)
      else V m)"
  by (induction T arbitrary: V) auto

section \<open>The code of the threads\<close>

lemma codes_simps [simp]:
  "mbox_codes pad mb ! 0 = mbox_main pad (mb 0)"
  "mbox_codes pad mb ! Suc 0 = thread1 (mb 1)"
  "mbox_codes pad mb ! 2 = thread2 (mb 2)"
  "mbox_codes pad mb ! 3 = thread3 (mb 3)"
  "length (mbox_codes pad mb) = 4"
  by (simp_all add: mbox_codes_def eval_nat_numeral)

lemma workers_cases: "i \<in> workers \<Longrightarrow> (i = 1 \<Longrightarrow> P) \<Longrightarrow> (i = 2 \<Longrightarrow> P) \<Longrightarrow> (i = 3 \<Longrightarrow> P) \<Longrightarrow> P"
  by (auto simp: workers_def)

lemma worker_code:
  assumes "i \<in> workers"
  shows "th_mbox (mbox_codes pad mb ! i) = mb i" "th_loops (mbox_codes pad mb ! i)"
    "th_handle (mbox_codes pad mb ! i) = show_loop" "th_show (mbox_codes pad mb ! i) = displayMsg"
    "th_joins (mbox_codes pad mb ! i) = []"
    "th_close (mbox_codes pad mb ! i) = [T_Mail (Call_Destroy (mb i))]"
    "registered i (mb i) (Finish (th_finish (mbox_codes pad mb ! i))) l = (l \<in> labels_of i)"
  by (rule workers_cases [OF assms];
      auto simp: thread1_def thread2_def thread3_def labels_of_def)+

lemma worker_setup:
  assumes "i \<in> workers" and "suffix (c # cs) (th_setup (mbox_codes pad mb ! i))"
  shows "(c = T_Mail (Call_New (mb i) QUEUE_SIZE) \<and> \<not> alive (mb i) (Setup (c # cs)) \<and>
      alive (mb i) (Setup cs) \<and>
      (\<forall>k. registered i (mb i) (Setup cs) k = registered i (mb i) (Setup (c # cs)) k)) \<or>
    (\<exists>l. c = T_Mail (Call_Register (mb i) l) \<and> alive (mb i) (Setup (c # cs)) \<and>
      alive (mb i) (Setup cs) \<and> \<not> registered i (mb i) (Setup (c # cs)) l \<and>
      (\<forall>k. registered i (mb i) (Setup cs) k \<longleftrightarrow> registered i (mb i) (Setup (c # cs)) k \<or> k = l))"
  by (rule workers_cases [OF assms(1)]; insert assms(2);
      auto simp: thread1_def thread2_def thread3_def suffix_Cons labels_of_def)

lemma worker_finish:
  assumes "i \<in> workers" and "suffix (c # cs) (th_finish (mbox_codes pad mb ! i))"
  shows "\<exists>l. c = T_Mail (Call_Unregister (mb i) l) \<and>
    (\<forall>k. registered i (mb i) (Finish cs) k \<longleftrightarrow> registered i (mb i) (Finish (c # cs)) k \<and> k \<noteq> l)"
  by (rule workers_cases [OF assms(1)]; insert assms(2);
      auto simp: thread1_def thread2_def thread3_def suffix_Cons labels_of_def)

lemma main_setup:
  assumes "suffix (c # cs) (th_setup (mbox_main pad m))"
  obtains (message) l t where "c = T_Mail (Call_SendMessage l t)" "t \<noteq> []"
      "sent pad (Setup cs) = sent pad (Setup (c # cs)) @ [(l, Some t)]"
    | (signal) l where "c = T_Mail (Call_SendSignal l)"
      "sent pad (Setup cs) = sent pad (Setup (c # cs)) @ [(l, None)]"
  using assms
  by (auto simp: mbox_main_def suffix_Cons sent_def all_sent_def Message1_bytes_def
      Message2_bytes_def Message3_bytes_def int_bytes_def)

lemma exit_last:
  "main_pc (mbox_main pad m) pc \<Longrightarrow> (Exit, y) \<in> set (sent pad pc) \<Longrightarrow> to_send pc = []"
  by (cases pc) (auto simp: mbox_main_def suffix_Cons sent_def all_sent_def)

lemma mbox_main_code:
  "th_loops (mbox_main pad m) = False" "th_finish (mbox_main pad m) = []"
  "th_joins (mbox_main pad m) = [1, 2, 3]" "th_close (mbox_main pad m) = [T_Mail (Call_Destroy m)]"
  by (simp_all add: mbox_main_def)


section \<open>Steps\<close>

text \<open>A call of the program, seen on the ghost state \<open>g\<close>.\<close>

lemma mbox_exec:
  assumes "mbox_inv owns pad mb p g" and "mailbox_lib (pl_lib pf) owns" and "call_ok c g"
    and "gone (pr_pcs p 3) \<Longrightarrow> oblivious (mb 3) c"
  obtains r g' s' where "sys_exec (pl_lib pf) c g = Inr (r, g')"
    "pubsub_step (abstract g) c r (abstract g')"
    "pl_exec pf (T_Mail c) (pr_sys p) = (Inr r, s')"
    "t_sys s' = (if gone (pr_pcs p 3) then without (mb 3) g' else g')"
    "\<exists>lost S G. sys_inv owns g' lost S G" "md_initialized (w_data (s_world g'))"
proof -
  from assms(1) obtain lost S G where g: "sys_inv owns g lost S G" "md_initialized (w_data (s_world g))"
      "t_sys (pr_sys p) = (if gone (pr_pcs p 3) then without (mb 3) g else g)"
    unfolding mbox_inv_def by blast
  from mailbox_lib.exec_good [OF assms(2) g(1) assms(3)] obtain r g' lost' S' G' where 1:
      "sys_exec (pl_lib pf) c g = Inr (r, g')" "sys_inv owns g' lost' S' G'"
      "pubsub_step (abstract g) c r (abstract g')"
    unfolding good_step_def by blast
  have "sys_exec (pl_lib pf) c (t_sys (pr_sys p)) =
      Inr (r, if gone (pr_pcs p 3) then without (mb 3) g' else g')"
    using g(3) 1(1) oblivious_exec [OF 1(1), of "{mb 3}"] assms(4) by simp
  then show thesis
    using that [OF 1(1,3), of "(pr_sys p)\<lparr>t_sys := if gone (pr_pcs p 3) then without (mb 3) g' else g'\<rparr>"]
      1(2) mailbox_lib.initialized_stays [OF assms(2) g(1) assms(3) 1(1) g(2)]
    by (auto simp: pl_exec_mail)
qed

lemma held_views:
  assumes "sys_exec lib c g = Inr (r, g')" and "pubsub_step (abstract g) c r (abstract g')"
    and "msg \<in> set (s_held g)"
  shows "view_msg (w_mem (s_world g')) msg = view_msg (w_mem (s_world g)) msg"
proof (cases "\<exists>l t. c = Call_SendMessage l t")
  case True
  then obtain l t where c: "c = Call_SendMessage l t" by blast
  have "a_held (abstract g') = a_held (abstract g)"
    using assms(2) unfolding c by (elim pubsub_sendE) (erule ssubst, simp)+
  moreover have "s_held g' = s_held g" using exec_held [OF assms(1)] c by simp
  ultimately show ?thesis using assms(3) by (simp add: abstract_def)
next
  case False
  have "w_mem w' = w_mem w" if "signal_loop l rs w = Inr w'" for l rs and w w' :: "'a world"
    using that by (induction rs arbitrary: w)
      (auto simp: signal_one_def and_then_eq_Inr split: option.splits prod.splits)
  with False assms(1) have "w_mem (s_world g') = w_mem (s_world g)"
    by (cases c)
      (auto simp: Mailbox_new_def Mailbox_destroy_def Mailbox_Initialize_def on_data_def
        Mailbox_RegisterForLabel_def Mailbox_UnregisterForLabel_def and_then_eq_Inr
        Mailbox_SendSignal_def unlock_world_def Mailbox_Receive_def Mailbox_ReleaseMessage_def
        split: option.splits if_splits prod.splits)
  then show ?thesis by simp
qed

lemma boxes_update:
  assumes "boxes_inv mb a pcs"
    and "\<And>j. j \<noteq> i \<Longrightarrow> a_queues b (mb j) = None \<longleftrightarrow> a_queues a (mb j) = None"
    and "i \<in> insert 0 workers \<Longrightarrow> a_queues b (mb i) \<noteq> None \<longleftrightarrow> present i (mb i) pc"
    and "\<And>m c. a_caps b m = Some c \<Longrightarrow> c = QUEUE_SIZE"
  shows "boxes_inv mb b (pcs(i := pc))"
proof -
  have "a_queues b (mb j) \<noteq> None \<longleftrightarrow> present j (mb j) ((pcs(i := pc)) j)" if "j \<in> insert 0 workers" for j
  proof (cases "j = i")
    case True
    then show ?thesis using assms(3) that by simp
  next
    case False
    have "a_queues a (mb j) \<noteq> None \<longleftrightarrow> present j (mb j) (pcs j)"
      using assms(1) that unfolding boxes_inv_def by blast
    then show ?thesis using assms(2) [OF False] False by simp
  qed
  then show ?thesis using assms(4) unfolding boxes_inv_def by blast
qed

lemma boxes_goto:
  assumes "boxes_inv mb a pcs" and "a_queues b = a_queues a" and "a_caps b = a_caps a"
    and "present i (mb i) pc = present i (mb i) (pcs i)"
  shows "boxes_inv mb b (pcs(i := pc))"
  by (rule boxes_update [OF assms(1)]) (use assms in \<open>auto simp: boxes_inv_def\<close>)

lemma traffic_goto:
  assumes inv: "traffic_inv pad mb a vw pcs log"
    and box: "\<And>j. j \<in> workers \<Longrightarrow> inbox b (mb j) = inbox a (mb j) \<or> inbox b (mb j) = []"
    and hand: "\<And>j. j \<in> workers \<Longrightarrow> hand vw' (pcs j) = hand vw (pcs j)"
    and i: "i \<in> workers \<Longrightarrow> hand vw' pc = hand vw (pcs i) \<and> (over pc \<longrightarrow> over (pcs i))"
    and main: "i = 0 \<Longrightarrow> to_send pc = to_send (pcs i)"
  shows "traffic_inv pad mb b vw' (pcs(i := pc)) log"
  unfolding traffic_inv_def
proof
  fix j assume j: "j \<in> workers"
  have sent: "to_send ((pcs(i := pc)) 0) = to_send (pcs 0)" using main by auto
  have "traffic j (sent pad (pcs 0)) (log j) (hand vw (pcs j)) (inbox a (mb j))"
      and over: "over (pcs j) \<longrightarrow> to_send (pcs 0) = []"
    using inv j by (simp_all add: traffic_inv_def)
  then have "traffic j (sent pad (pcs 0)) (log j) (hand vw (pcs j)) (inbox b (mb j))"
    using box [OF j] by (auto intro: traffic_drop)
  moreover have "hand vw' ((pcs(i := pc)) j) = hand vw (pcs j)" using hand [OF j] i j by auto
  ultimately show "traffic j (sent pad ((pcs(i := pc)) 0)) (log j) (hand vw' ((pcs(i := pc)) j)) (inbox b (mb j)) \<and>
      (over ((pcs(i := pc)) j) \<longrightarrow> to_send ((pcs(i := pc)) 0) = [])"
    using i j over unfolding sent_def sent by auto
qed

lemma pcs_goto:
  "pcs_inv pad mb pcs \<Longrightarrow> (i = 0 \<Longrightarrow> main_pc (mbox_codes pad mb ! 0) pc) \<Longrightarrow>
     (i \<in> workers \<Longrightarrow> worker_pc (mbox_codes pad mb ! i) pc) \<Longrightarrow> pcs_inv pad mb (pcs(i := pc))"
  by (auto simp: pcs_inv_def)

lemma held_goto:
  assumes "held_inv held pcs" and "i \<in> workers \<Longrightarrow> holds pc = holds (pcs i)"
  shows "held_inv held (pcs(i := pc))"
proof -
  have "(\<Sum>j \<in> workers. holds ((pcs(i := pc)) j)) = (\<Sum>j \<in> workers. holds (pcs j))"
    using assms(2) by (intro sum.cong) auto
  then show ?thesis using assms(1) by (simp add: held_inv_def)
qed

lemma held_update:
  assumes "held_inv held pcs" and "i \<in> workers" and "mset held' + holds (pcs i) = mset held + holds pc"
  shows "held_inv held' (pcs(i := pc))"
proof -
  have "(\<Sum>j \<in> workers - {i}. holds ((pcs(i := pc)) j)) = (\<Sum>j \<in> workers - {i}. holds (pcs j))"
    by (rule sum.cong) auto
  then have "(\<Sum>j \<in> workers. holds ((pcs(i := pc)) j)) = holds pc + (\<Sum>j \<in> workers - {i}. holds (pcs j))"
    using assms(2) by (simp add: sum.remove [of workers i])
  moreover have "mset held = holds (pcs i) + (\<Sum>j \<in> workers - {i}. holds (pcs j))"
    using assms(1,2) by (simp add: held_inv_def sum.remove [of workers i])
  ultimately show ?thesis using assms(3) by (simp add: held_inv_def ac_simps)
qed

lemma in_hand:
  assumes "pcs_inv pad mb pcs" and "held_inv held pcs" and "i \<in> workers"
    and "\<And>msg. msg \<in> set held \<Longrightarrow> vw' msg = vw msg"
  shows "hand vw' (pcs i) = hand vw (pcs i)"
proof -
  have "holds (pcs i) \<subseteq># mset held"
    using assms(2,3) by (simp add: held_inv_def sum.remove [of workers i])
  moreover have "worker_pc (mbox_codes pad mb ! i) (pcs i)" using assms(1,3) by (simp add: pcs_inv_def)
  ultimately show ?thesis using assms(4) by (cases "pcs i") auto
qed

text \<open>A move without a call.\<close>

lemma mbox_move:
  assumes "mbox_inv owns pad mb p g"
    and "\<And>l. i \<in> workers \<Longrightarrow> registered i (mb i) pc l = registered i (mb i) (pr_pcs p i) l"
    and "present i (mb i) pc = present i (mb i) (pr_pcs p i)" and "i = 3 \<Longrightarrow> gone pc = gone (pr_pcs p i)"
    and "i \<in> workers \<Longrightarrow> hand (view_msg (w_mem (s_world g))) pc =
      hand (view_msg (w_mem (s_world g))) (pr_pcs p i) \<and> (over pc \<longrightarrow> over (pr_pcs p i)) \<and>
      holds pc = holds (pr_pcs p i) \<and> worker_pc (mbox_codes pad mb ! i) pc"
    and "i = 0 \<Longrightarrow> to_send pc = to_send (pr_pcs p i) \<and> main_pc (mbox_codes pad mb ! 0) pc"
  shows "mbox_inv owns pad mb (pr_goto i pc p) g"
  using assms
  by (auto simp: mbox_inv_def intro!: seats_goto [OF _ refl] boxes_goto [OF _ refl refl]
      traffic_goto pcs_goto held_goto)


lemma mbox_invD:
  assumes "mbox_inv owns pad mb p g"
  shows "\<exists>lost S G. sys_inv owns g lost S G" "md_initialized (w_data (s_world g))"
    "t_sys (pr_sys p) = (if gone (pr_pcs p 3) then without (mb 3) g else g)"
    "seats_inv mb (abstract g) (pr_pcs p)" "boxes_inv mb (abstract g) (pr_pcs p)"
    "traffic_inv pad mb (abstract g) (view_msg (w_mem (s_world g))) (pr_pcs p) (pr_log p)"
    "pcs_inv pad mb (pr_pcs p)" "held_inv (s_held g) (pr_pcs p)"
  using assms by (simp_all add: mbox_inv_def)

lemma mbox_next:
  assumes "mbox_inv owns pad mb p g" and "\<exists>lost S G. sys_inv owns g' lost S G"
    and "md_initialized (w_data (s_world g'))"
    and "t_sys s' = (if gone (pr_pcs p 3) then without (mb 3) g' else g')"
    and "i = 3 \<Longrightarrow> gone pc = gone (pr_pcs p 3)"
    and "seats_inv mb (abstract g') ((pr_pcs p)(i := pc))"
    and "boxes_inv mb (abstract g') ((pr_pcs p)(i := pc))"
    and "traffic_inv pad mb (abstract g') (view_msg (w_mem (s_world g'))) ((pr_pcs p)(i := pc)) (pr_log p)"
    and "pcs_inv pad mb ((pr_pcs p)(i := pc))" and "held_inv (s_held g') ((pr_pcs p)(i := pc))"
  shows "mbox_inv owns pad mb (pr_goto i pc (p\<lparr>pr_sys := s'\<rparr>)) g'"
  using assms by (simp add: mbox_inv_def)

lemma abstract_queues: "a_queues (abstract g) m = None \<longleftrightarrow> w_queues (s_world g) m = None"
  by (simp add: abstract_def view_def)

text \<open>A call that neither sends, receives nor releases.\<close>

lemma quiet_call:
  assumes inv: "mbox_inv owns pad mb p g" and lib: "mailbox_lib (pl_lib pf) owns"
    and ok: "call_ok c g" and c: "oblivious (mb 3) c \<or> \<not> gone (pr_pcs p 3)"
      "\<And>m. c \<noteq> Call_Receive m" "\<And>k. c \<noteq> Call_Release k"
    and eff: "\<And>r b. pubsub_step (abstract g) c r b \<Longrightarrow> seats_inv mb b ((pr_pcs p)(i := pc)) \<and>
      boxes_inv mb b ((pr_pcs p)(i := pc)) \<and>
      (\<forall>j \<in> workers. inbox b (mb j) = inbox (abstract g) (mb j) \<or> inbox b (mb j) = [])"
    and pc: "i \<in> workers \<Longrightarrow> worker_pc (mbox_codes pad mb ! i) pc" "hand undefined pc = []"
      "hand undefined (pr_pcs p i) = []" "holds pc = holds (pr_pcs p i)"
      "over pc \<longrightarrow> over (pr_pcs p i)" "i = 3 \<Longrightarrow> gone pc = gone (pr_pcs p i)"
      "i = 0 \<Longrightarrow> main_pc (mbox_codes pad mb ! 0) pc \<and> to_send pc = to_send (pr_pcs p i)"
  obtains p' g' where "pr_call pf i (T_Mail c) pc p = Inr p'" "mbox_inv owns pad mb p' g'"
proof -
  note I = mbox_invD [OF inv]
  obtain r g' s' where 1: "sys_exec (pl_lib pf) c g = Inr (r, g')"
      "pubsub_step (abstract g) c r (abstract g')" "pl_exec pf (T_Mail c) (pr_sys p) = (Inr r, s')"
      "t_sys s' = (if gone (pr_pcs p 3) then without (mb 3) g' else g')"
      "\<exists>lost S G. sys_inv owns g' lost S G" "md_initialized (w_data (s_world g'))"
    by (rule mbox_exec [OF inv lib ok]) (use c(1) in blast)
  have no_hand: "hand vw q = []" if "hand undefined q = []" for q and vw :: "Message \<Rightarrow> payload"
    using that by (cases q) (auto split: if_splits)
  have "mbox_inv owns pad mb (pr_goto i pc (p\<lparr>pr_sys := s'\<rparr>)) g'"
  proof (rule mbox_next [OF inv 1(5,6,4)])
    show "traffic_inv pad mb (abstract g') (view_msg (w_mem (s_world g'))) ((pr_pcs p)(i := pc)) (pr_log p)"
      by (rule traffic_goto [OF I(6)])
        (use pc(7) eff [OF 1(2)] no_hand [OF pc(2)] no_hand [OF pc(3)] pc(5) held_views [OF 1(1,2)] in
          \<open>auto intro!: in_hand [OF I(7,8)]\<close>)
    show "pcs_inv pad mb ((pr_pcs p)(i := pc))" by (rule pcs_goto [OF I(7)]) (use pc(1,7) in auto)
    show "held_inv (s_held g') ((pr_pcs p)(i := pc))"
      using held_goto [OF I(8), of i pc] exec_held [OF 1(1)] c(2,3) pc(4) by simp
  qed (use pc(6) eff [OF 1(2)] in auto)
  then show thesis using that 1(3) by (simp add: pr_call_def)
qed

lemma mb_other: "inj mb \<Longrightarrow> j \<noteq> i \<Longrightarrow> mb j \<noteq> (mb i :: mbox)"
  by (auto dest: injD)

lemma worker_new:
  assumes inv: "mbox_inv owns pad mb p g" and lib: "mailbox_lib (pl_lib pf) owns" and mb: "inj mb"
    and i: "i \<in> workers" and pc: "pr_pcs p i = Setup (T_Mail (Call_New (mb i) QUEUE_SIZE) # cs)"
    and suf: "suffix cs (th_setup (mbox_codes pad mb ! i))" and new: "alive (mb i) (Setup cs)"
      "\<And>k. registered i (mb i) (Setup cs) k = registered i (mb i) (pr_pcs p i) k"
  obtains p' g' where
    "pr_call pf i (T_Mail (Call_New (mb i) QUEUE_SIZE)) (Setup cs) p = Inr p'" "mbox_inv owns pad mb p' g'"
proof (rule quiet_call [OF inv lib])
  note I = mbox_invD [OF inv] and other = mb_other [OF mb]
  show "call_ok (Call_New (mb i) QUEUE_SIZE) g"
    using I(5) i pc by (auto simp: boxes_inv_def present_def simp flip: abstract_queues)
  show "oblivious (mb 3) (Call_New (mb i) QUEUE_SIZE) \<or> \<not> gone (pr_pcs p 3)"
    using other [of i 3] pc by (cases "i = 3") auto
  fix r b assume "pubsub_step (abstract g) (Call_New (mb i) QUEUE_SIZE) r b"
  then have b: "b = (abstract g)\<lparr>a_queues := (a_queues (abstract g))(mb i \<mapsto> []),
      a_caps := (a_caps (abstract g))(mb i \<mapsto> QUEUE_SIZE)\<rparr>" "a_queues (abstract g) (mb i) = None"
    by (auto elim!: pubsub_newE)
  have "seats_inv mb b ((pr_pcs p)(i := Setup cs))"
    by (rule seats_goto [OF I(4)]) (simp add: b(1), rule new(2))
  moreover have "boxes_inv mb b ((pr_pcs p)(i := Setup cs))"
    by (rule boxes_update [OF I(5)])
      (use I(5) new(1) other [of _ i] in \<open>auto simp: b(1) present_def boxes_inv_def split: if_splits\<close>)
  moreover have "inbox b m = inbox (abstract g) m" for m by (simp add: b inbox_def)
  ultimately show "seats_inv mb b ((pr_pcs p)(i := Setup cs)) \<and>
      boxes_inv mb b ((pr_pcs p)(i := Setup cs)) \<and>
      (\<forall>j \<in> workers. inbox b (mb j) = inbox (abstract g) (mb j) \<or> inbox b (mb j) = [])"
    by simp
qed (use pc suf i that in simp_all)

lemma worker_register:
  assumes inv: "mbox_inv owns pad mb p g" and lib: "mailbox_lib (pl_lib pf) owns" and mb: "inj mb"
    and i: "i \<in> workers" and pc: "pr_pcs p i = Setup (T_Mail (Call_Register (mb i) l) # cs)"
    and suf: "suffix cs (th_setup (mbox_codes pad mb ! i))"
    and reg: "alive (mb i) (Setup cs)" "alive (mb i) (pr_pcs p i)" "\<not> registered i (mb i) (pr_pcs p i) l"
      "\<And>k. registered i (mb i) (Setup cs) k \<longleftrightarrow> registered i (mb i) (pr_pcs p i) k \<or> k = l"
  obtains p' g' where
    "pr_call pf i (T_Mail (Call_Register (mb i) l)) (Setup cs) p = Inr p'" "mbox_inv owns pad mb p' g'"
proof (rule quiet_call [OF inv lib])
  note I = mbox_invD [OF inv]
  show "call_ok (Call_Register (mb i) l) g"
    using I(2,5) i reg(2) by (auto simp: boxes_inv_def present_def simp flip: abstract_queues)
  fix r b assume "pubsub_step (abstract g) (Call_Register (mb i) l) r b"
  then obtain slots where slots: "add_loop (Some (mb i)) (a_slots (abstract g) l) = (r, slots)"
      and b: "b = (abstract g)\<lparr>a_slots := (a_slots (abstract g))(l := slots)\<rparr>"
    by (auto elim!: pubsub_registerE)
  show "seats_inv mb b ((pr_pcs p)(i := Setup cs)) \<and> boxes_inv mb b ((pr_pcs p)(i := Setup cs)) \<and>
      (\<forall>j \<in> workers. inbox b (mb j) = inbox (abstract g) (mb j) \<or> inbox b (mb j) = [])"
    using seats_register [OF I(4) mb i slots reg(3,4)] boxes_goto [OF I(5), of b i "Setup cs"] reg pc
    by (simp add: b inbox_def present_def)
qed (use pc suf i that in simp_all)

lemma worker_unregister:
  assumes inv: "mbox_inv owns pad mb p g" and lib: "mailbox_lib (pl_lib pf) owns" and mb: "inj mb"
    and i: "i \<in> workers" and pc: "pr_pcs p i = Finish (T_Mail (Call_Unregister (mb i) l) # cs)"
    and suf: "suffix cs (th_finish (mbox_codes pad mb ! i))"
    and reg: "\<And>k. registered i (mb i) (Finish cs) k \<longleftrightarrow> registered i (mb i) (pr_pcs p i) k \<and> k \<noteq> l"
  obtains p' g' where
    "pr_call pf i (T_Mail (Call_Unregister (mb i) l)) (Finish cs) p = Inr p'" "mbox_inv owns pad mb p' g'"
proof (rule quiet_call [OF inv lib])
  note I = mbox_invD [OF inv]
  show "call_ok (Call_Unregister (mb i) l) g" using I(2) by simp
  fix r b assume "pubsub_step (abstract g) (Call_Unregister (mb i) l) r b"
  then have b: "b = (abstract g)\<lparr>a_slots := (a_slots (abstract g))(l := map (\<lambda>r. if r = Some (mb i)
      then None else r) (a_slots (abstract g) l))\<rparr>"
    by (auto elim!: pubsub_unregisterE)
  show "seats_inv mb b ((pr_pcs p)(i := Finish cs)) \<and> boxes_inv mb b ((pr_pcs p)(i := Finish cs)) \<and>
      (\<forall>j \<in> workers. inbox b (mb j) = inbox (abstract g) (mb j) \<or> inbox b (mb j) = [])"
    using seats_unregister [OF I(4) mb i reg] boxes_goto [OF I(5), of b i "Finish cs"] pc
    by (simp add: b inbox_def present_def)
qed (use pc suf i that in simp_all)


text \<open>Threads 1 and 2 have unregistered from all their labels when they leave; thread 3 has not.\<close>

lemma box_destroy:
  assumes inv: "mbox_inv owns pad mb p g" and lib: "mailbox_lib (pl_lib pf) owns" and mb: "inj mb"
    and i: "i \<in> insert 0 workers" "i \<noteq> 3" and pc: "pr_pcs p i = Closing [T_Mail (Call_Destroy (mb i))]"
  obtains p' g' where
    "pr_call pf i (T_Mail (Call_Destroy (mb i))) (Closing []) p = Inr p'" "mbox_inv owns pad mb p' g'"
proof (rule quiet_call [OF inv lib])
  note I = mbox_invD [OF inv] and other = mb_other [OF mb]
  have "registered j (mb j) (pr_pcs p j) l \<Longrightarrow> mb j \<noteq> mb i" for j l
    using other [of j i] pc i(2) by (cases "j = i") auto
  then have "mb i \<notin> mb ` {j \<in> workers. registered j (mb j) (pr_pcs p j) l}" for l by fastforce
  then have unreg: "Some (mb i) \<notin> set (a_slots (abstract g) l)" for l
    using I(4) by (simp add: seats_inv_def flip: set_targets)
  show "call_ok (Call_Destroy (mb i)) g"
    using I(5) i(1) pc unreg unfolding boxes_inv_def present_def
    by (auto simp: abstract_def view_def)
  show "oblivious (mb 3) (Call_Destroy (mb i)) \<or> \<not> gone (pr_pcs p 3)"
    using other [of i 3] i(2) by simp
  fix r b assume "pubsub_step (abstract g) (Call_Destroy (mb i)) r b"
  then have b: "b = (abstract g)\<lparr>a_queues := (a_queues (abstract g))(mb i := None),
      a_caps := (a_caps (abstract g))(mb i := None)\<rparr>"
    by (auto elim!: pubsub_destroyE)
  have "seats_inv mb b ((pr_pcs p)(i := Closing []))"
    by (rule seats_goto [OF I(4)]) (simp_all add: b pc)
  moreover have "boxes_inv mb b ((pr_pcs p)(i := Closing []))"
    by (rule boxes_update [OF I(5)])
      (use I(5) i(2) other [of _ i] in \<open>auto simp: b present_def boxes_inv_def split: if_splits\<close>)
  moreover have "inbox b m = inbox (abstract g) m \<or> inbox b m = []" for m
    by (simp add: b inbox_def)
  ultimately show "seats_inv mb b ((pr_pcs p)(i := Closing [])) \<and>
      boxes_inv mb b ((pr_pcs p)(i := Closing [])) \<and>
      (\<forall>j \<in> workers. inbox b (mb j) = inbox (abstract g) (mb j) \<or> inbox b (mb j) = [])"
    by simp
qed (use pc i(2) that in simp_all)

lemma thread3_destroy:
  assumes inv: "mbox_inv owns pad mb p g" and pc: "pr_pcs p 3 = Closing [T_Mail (Call_Destroy (mb 3))]"
  obtains p' where
    "pr_call pf 3 (T_Mail (Call_Destroy (mb 3))) (Closing []) p = Inr p'" "mbox_inv owns pad mb p' g"
proof -
  note I = mbox_invD [OF inv]
  let ?s = "(pr_sys p)\<lparr>t_sys := without (mb 3) g\<rparr>"
  have "pr_call pf 3 (T_Mail (Call_Destroy (mb 3))) (Closing []) p =
      Inr (pr_goto 3 (Closing []) (p\<lparr>pr_sys := ?s\<rparr>))"
    using I(3) pc by (intro pr_call_mail) (simp add: hide_destroy [where M = "{}", simplified])
  moreover have "mbox_inv owns pad mb (pr_goto 3 (Closing []) (p\<lparr>pr_sys := ?s\<rparr>)) g"
    using I pc
    by (auto simp: mbox_inv_def present_def intro!: seats_goto boxes_goto traffic_goto pcs_goto held_goto)
  ultimately show thesis using that by blast
qed

lemma traffic_update:
  assumes inv: "traffic_inv pad mb a vw pcs log" and i: "i \<in> workers"
    and new: "traffic i (sent pad (pcs 0)) (log' i) (hand vw' pc) (inbox b (mb i))"
      "over pc \<Longrightarrow> to_send (pcs 0) = []"
    and other: "\<And>j. j \<in> workers \<Longrightarrow> j \<noteq> i \<Longrightarrow> inbox b (mb j) = inbox a (mb j) \<and>
      hand vw' (pcs j) = hand vw (pcs j) \<and> log' j = log j"
  shows "traffic_inv pad mb b vw' (pcs(i := pc)) log'"
  unfolding traffic_inv_def
proof
  fix j assume j: "j \<in> workers"
  have "0 \<noteq> i" using i by (auto simp: workers_def)
  then show "traffic j (sent pad ((pcs(i := pc)) 0)) (log' j) (hand vw' ((pcs(i := pc)) j)) (inbox b (mb j)) \<and>
      (over ((pcs(i := pc)) j) \<longrightarrow> to_send ((pcs(i := pc)) 0) = [])"
    using new other [OF j] inv j by (cases "j = i") (auto simp: traffic_inv_def)
qed

lemma worker_receive:
  assumes inv: "mbox_inv owns pad mb p g" and lib: "mailbox_lib (pl_lib pf) owns" and mb: "inj mb"
    and i: "i \<in> workers" and pc: "pr_pcs p i = Loop"
  obtains p' g' where
    "thread_step pf (mbox_codes pad mb ! i) i p = Inr p'" "mbox_inv owns pad mb p' g'"
proof -
  note I = mbox_invD [OF inv] and other = mb_other [OF mb] and code = worker_code [OF i, where pad = pad and mb = mb]
  let ?c = "Call_Receive (mb i)" and ?a = "abstract g"
  have "w_queues (s_world g) (mb i) \<noteq> None"
    using I(5) i pc by (auto simp: boxes_inv_def present_def simp flip: abstract_queues)
  then have ok: "call_ok ?c g" by simp
  have "gone (pr_pcs p 3) \<Longrightarrow> oblivious (mb 3) ?c"
    using other [of i 3] pc by (cases "i = 3") auto
  from mbox_exec [OF inv lib ok this] obtain r g' s' where 1:
      "sys_exec (pl_lib pf) ?c g = Inr (r, g')" "pubsub_step ?a ?c r (abstract g')"
      "pl_exec pf (T_Mail ?c) (pr_sys p) = (Inr r, s')"
      "t_sys s' = (if gone (pr_pcs p 3) then without (mb 3) g' else g')"
      "\<exists>lost S G. sys_inv owns g' lost S G" "md_initialized (w_data (s_world g'))" .
  show thesis
  proof (cases r)
    case False
    then show ?thesis using that [of p g] inv 1(3) pc code(1) by (simp add: thread_step_def)
  next
    case True
    from 1(1) True obtain msg where msg: "s_held g' = s_held g @ [msg]"
      by (auto simp: and_then_eq_Inr split: option.splits prod.splits)
    from 1(2) True obtain x xs where x: "a_queues ?a (mb i) = Some (x # xs)"
        "abstract g' = ?a\<lparr>a_queues := (a_queues ?a)(mb i \<mapsto> xs), a_held := a_held ?a @ [x]\<rparr>"
      by (elim pubsub_receiveE) auto
    let ?vw = "view_msg (w_mem (s_world g'))" and ?pc = "Handling msg [Show, Release] (m_label msg = Exit)"
    have "a_held (abstract g') = a_held ?a @ [x]" by (simp add: x(2))
    then have view: "?vw msg = x" by (simp add: abstract_def msg)
    have in_i: "inbox ?a (mb i) = x # xs" "inbox (abstract g') (mb i) = xs"
      by (simp_all add: inbox_def x)
    have t: "traffic i (sent pad (pr_pcs p 0)) (pr_log p i) [] (x # xs)"
      using I(6) i pc in_i by (auto simp: traffic_inv_def dest!: bspec [of _ _ i])
    have "mbox_inv owns pad mb (pr_goto i ?pc (p\<lparr>pr_sys := s'\<rparr>)) g'"
    proof (rule mbox_next [OF inv 1(5,6,4)])
      show "seats_inv mb (abstract g') ((pr_pcs p)(i := ?pc))"
        by (rule seats_goto [OF I(4)]) (simp_all add: x(2) pc)
      show "boxes_inv mb (abstract g') ((pr_pcs p)(i := ?pc))"
        by (rule boxes_update [OF I(5)])
          (use I(5) other [of _ i] in \<open>auto simp: x(2) present_def boxes_inv_def split: if_splits\<close>)
      have "to_send (pr_pcs p 0) = []" if "m_label msg = Exit"
        using traffic_sent [OF t, of x] view that I(7) exit_last [of pad "mb 0" "pr_pcs p 0" "snd x"]
        by (auto simp: pcs_inv_def view_msg_def)
      then show "traffic_inv pad mb (abstract g') ?vw ((pr_pcs p)(i := ?pc)) (pr_log p)"
        by (intro traffic_update [OF I(6) i])
          (use view traffic_receive [OF t] in_i other [of _ i] held_views [OF 1(1,2)] in
            \<open>auto simp: inbox_def x(2) intro: in_hand [OF I(7,8)]\<close>)
      show "pcs_inv pad mb ((pr_pcs p)(i := ?pc))"
        by (rule pcs_goto [OF I(7)]) (use i in \<open>auto simp: workers_def\<close>)
      show "held_inv (s_held g') ((pr_pcs p)(i := ?pc))"
        by (rule held_update [OF I(8) i]) (simp add: msg pc)
    qed (use pc in simp)
    moreover have "last (s_held (t_sys s')) = msg" using 1(4) msg by simp
    ultimately show ?thesis using that 1(3) pc code(1,3) True
      by (simp add: thread_step_def Let_def show_loop_def)
  qed
qed

lemma worker_show:
  assumes inv: "mbox_inv owns pad mb p g" and i: "i \<in> workers"
    and pc: "pr_pcs p i = Handling msg [Show, Release] brk"
  shows "mbox_inv owns pad mb
    (pr_goto i (Handling msg [Release] brk) (pr_show (mbox_codes pad mb ! i) i msg p)) g"
proof -
  note I = mbox_invD [OF inv] and code = worker_code [OF i, where pad = pad and mb = mb]
  let ?pc = "Handling msg [Release] brk" and ?vw = "view_msg (w_mem (s_world g))"
  have mem: "w_mem (s_world (t_sys (pr_sys p))) = w_mem (s_world g)" using I(3) by simp
  have t: "traffic i (sent pad (pr_pcs p 0)) (pr_log p i) [?vw msg] (inbox (abstract g) (mb i))"
      "over ?pc \<Longrightarrow> to_send (pr_pcs p 0) = []"
    using I(6) i pc by (auto simp: traffic_inv_def dest!: bspec [of _ _ i])
  have "traffic_inv pad mb (abstract g) ?vw ((pr_pcs p)(i := ?pc))
      (pr_log (pr_show (mbox_codes pad mb ! i) i msg p))"
    using traffic_show [OF t(1)] t(2)
    by (intro traffic_update [OF I(6) i]) (auto simp: pr_show_def code(4) mem displayMsg_view)
  moreover have "seats_inv mb (abstract g) ((pr_pcs p)(i := ?pc))"
    by (rule seats_goto [OF I(4) refl]) (simp add: pc)
  moreover have "boxes_inv mb (abstract g) ((pr_pcs p)(i := ?pc))"
    by (rule boxes_goto [OF I(5) refl refl]) (simp add: pc present_def)
  moreover have "pcs_inv pad mb ((pr_pcs p)(i := ?pc))"
    using I(7) i pc by (intro pcs_goto [OF I(7)]) (auto simp: workers_def pcs_inv_def)
  moreover have "held_inv (s_held g) ((pr_pcs p)(i := ?pc))"
    by (rule held_goto [OF I(8)]) (simp add: pc)
  ultimately show ?thesis using I pc by (auto simp: mbox_inv_def)
qed


lemma worker_release:
  assumes inv: "mbox_inv owns pad mb p g" and lib: "mailbox_lib (pl_lib pf) owns"
    and i: "i \<in> workers" and pc: "pr_pcs p i = Handling msg [Release] brk"
  obtains p' g' where
    "action_step pf (mbox_codes pad mb ! i) i msg Release (Handling msg [] brk) p = Inr p'"
    "mbox_inv owns pad mb p' g'"
proof -
  note I = mbox_invD [OF inv]
  let ?k = "position msg (s_held g)" and ?pc = "Handling msg [] brk" and ?a = "abstract g"
  let ?c = "Call_Release ?k"
  have held: "s_held (t_sys (pr_sys p)) = s_held g" using I(3) by simp
  have "holds (pr_pcs p i) \<subseteq># mset (s_held g)"
    using I(8) i by (simp add: held_inv_def sum.remove [of workers i])
  then have "msg \<in> set (s_held g)" using pc by simp
  then have k: "?k < length (s_held g)" "s_held g ! ?k = msg" using position_nth by metis+
  obtain r g' s' where 1: "sys_exec (pl_lib pf) ?c g = Inr (r, g')"
      "pubsub_step ?a ?c r (abstract g')" "pl_exec pf (T_Mail ?c) (pr_sys p) = (Inr r, s')"
      "t_sys s' = (if gone (pr_pcs p 3) then without (mb 3) g' else g')"
      "\<exists>lost S G. sys_inv owns g' lost S G" "md_initialized (w_data (s_world g'))"
    by (rule mbox_exec [OF inv lib, of ?c]) (use k in simp_all)
  from 1(1) k(1) have held': "s_held g' = take ?k (s_held g) @ drop (Suc ?k) (s_held g)" by auto
  have "mset (s_held g) = add_mset msg (mset (s_held g'))"
    using arg_cong [OF id_take_nth_drop [OF k(1)], of mset] k(2) held' by simp
  note rel = this
  have "a_slots b = a_slots ?a \<and> a_queues b = a_queues ?a \<and> a_caps b = a_caps ?a"
    if "pubsub_step ?a ?c r b" for b
    using that by (auto elim!: pubsub_releaseE)
  from this [OF 1(2)] have b: "a_slots (abstract g') = a_slots ?a"
      "a_queues (abstract g') = a_queues ?a" "a_caps (abstract g') = a_caps ?a"
    by simp_all
  have "mbox_inv owns pad mb (pr_goto i ?pc (p\<lparr>pr_sys := s'\<rparr>)) g'"
  proof (rule mbox_next [OF inv 1(5,6,4)])
    show "seats_inv mb (abstract g') ((pr_pcs p)(i := ?pc))"
      by (rule seats_goto [OF I(4) b(1)]) (simp add: pc)
    show "boxes_inv mb (abstract g') ((pr_pcs p)(i := ?pc))"
      by (rule boxes_goto [OF I(5) b(2,3)]) (simp add: pc present_def)
    show "traffic_inv pad mb (abstract g') (view_msg (w_mem (s_world g'))) ((pr_pcs p)(i := ?pc)) (pr_log p)"
      by (rule traffic_goto [OF I(6)])
        (use i pc held_views [OF 1(1,2)] in
          \<open>auto simp: inbox_def b workers_def intro!: in_hand [OF I(7,8), unfolded workers_def]\<close>)
    show "pcs_inv pad mb ((pr_pcs p)(i := ?pc))"
      using I(7) i pc by (intro pcs_goto [OF I(7)]) (auto simp: workers_def pcs_inv_def)
    show "held_inv (s_held g') ((pr_pcs p)(i := ?pc))"
      by (rule held_update [OF I(8) i]) (use rel pc in simp)
  qed (use pc in simp)
  then show thesis using that 1(3) by (simp add: pr_call_def held)
qed

lemma worker_setup_step:
  assumes inv: "mbox_inv owns pad mb p g" and lib: "mailbox_lib (pl_lib pf) owns" and mb: "inj mb"
    and i: "i \<in> workers" and pc: "pr_pcs p i = Setup (c # cs)"
    and suf: "suffix (c # cs) (th_setup (mbox_codes pad mb ! i))"
  shows "\<exists>p' g'. pr_call pf i c (Setup cs) p = Inr p' \<and> mbox_inv owns pad mb p' g'"
  using worker_setup [OF i suf]
proof (elim disjE exE conjE)
  assume "c = T_Mail (Call_New (mb i) QUEUE_SIZE)" "alive (mb i) (Setup cs)"
    "\<forall>k. registered i (mb i) (Setup cs) k = registered i (mb i) (Setup (c # cs)) k"
  then show ?thesis using worker_new [OF inv lib mb i _ suffix_ConsD [OF suf]] pc by metis
next
  fix l assume "c = T_Mail (Call_Register (mb i) l)" "alive (mb i) (Setup (c # cs))"
    "alive (mb i) (Setup cs)" "\<not> registered i (mb i) (Setup (c # cs)) l"
    "\<forall>k. registered i (mb i) (Setup cs) k \<longleftrightarrow> registered i (mb i) (Setup (c # cs)) k \<or> k = l"
  then show ?thesis using worker_register [OF inv lib mb i _ suffix_ConsD [OF suf], of l] pc by metis
qed

lemma worker_finish_step:
  assumes inv: "mbox_inv owns pad mb p g" and lib: "mailbox_lib (pl_lib pf) owns" and mb: "inj mb"
    and i: "i \<in> workers" and pc: "pr_pcs p i = Finish (c # cs)"
    and suf: "suffix (c # cs) (th_finish (mbox_codes pad mb ! i))"
  shows "\<exists>p' g'. pr_call pf i c (Finish cs) p = Inr p' \<and> mbox_inv owns pad mb p' g'"
proof -
  from worker_finish [OF i suf] obtain l where "c = T_Mail (Call_Unregister (mb i) l)"
    "\<forall>k. registered i (mb i) (Finish cs) k \<longleftrightarrow> registered i (mb i) (Finish (c # cs)) k \<and> k \<noteq> l"
    by blast
  then show ?thesis using worker_unregister [OF inv lib mb i _ suffix_ConsD [OF suf], of l] pc by metis
qed

lemma worker_handling_step:
  assumes inv: "mbox_inv owns pad mb p g" and lib: "mailbox_lib (pl_lib pf) owns"
    and i: "i \<in> workers" and pc: "pr_pcs p i = Handling msg acts brk"
  shows "\<exists>p' g'. thread_step pf (mbox_codes pad mb ! i) i p = Inr p' \<and> mbox_inv owns pad mb p' g'"
proof -
  note code = worker_code [OF i, where pad = pad and mb = mb]
  have i0: "i \<noteq> 0" using i by (auto simp: workers_def)
  have "worker_pc (mbox_codes pad mb ! i) (pr_pcs p i)"
    using mbox_invD(7) [OF inv] i by (simp add: pcs_inv_def)
  with pc consider "acts = [Show, Release]" | "acts = [Release]" | "acts = []" by auto
  then show ?thesis
  proof cases
    case 1
    then show ?thesis using worker_show [OF inv i, of msg brk] pc by (auto simp: thread_step_def)
  next
    case 2
    then show ?thesis using worker_release [OF inv lib i, of msg brk] pc
      by (simp add: thread_step_def) metis
  next
    case 3
    have "mbox_inv owns pad mb
        (pr_goto i (if brk then Finish (th_finish (mbox_codes pad mb ! i)) else Loop) p) g"
      using pc 3 i0 code(7) by (intro mbox_move [OF inv]) (auto simp: present_def)
    then show ?thesis using pc 3 by (auto simp: thread_step_def)
  qed
qed

text \<open>All moves of threads 1, 2 and 3.\<close>

lemma worker_step:
  assumes inv: "mbox_inv owns pad mb p g" and lib: "mailbox_lib (pl_lib pf) owns" and mb: "inj mb"
    and i: "i \<in> workers"
  shows "\<exists>p' g'. thread_step pf (mbox_codes pad mb ! i) i p = Inr p' \<and> mbox_inv owns pad mb p' g'"
proof -
  note code = worker_code [OF i, where pad = pad and mb = mb] and move = mbox_move [OF inv, of i]
  have w: "worker_pc (mbox_codes pad mb ! i) (pr_pcs p i)"
    using mbox_invD(7) [OF inv] i by (simp add: pcs_inv_def)
  have i0: "i \<noteq> 0" using i by (auto simp: workers_def)
  show ?thesis
  proof (cases "pr_pcs p i" rule: thread_pc_cases)
    case ready
    then have "mbox_inv owns pad mb (pr_goto i Loop p) g"
      using i0 by (intro move) (simp_all add: present_def)
    then show ?thesis using ready code(2) by (auto simp: thread_step_def)
  next
    case (starting c cs)
    then show ?thesis using worker_setup_step [OF inv lib mb i starting] w by (simp add: thread_step_def)
  next
    case looping
    then show ?thesis using worker_receive [OF inv lib mb i] by metis
  next
    case (handling msg acts brk)
    then show ?thesis by (rule worker_handling_step [OF inv lib i])
  next
    case finished
    then have "mbox_inv owns pad mb (pr_goto i Joining p) g"
      using i0 by (intro move) (auto simp: present_def labels_of_def)
    then show ?thesis using finished by (auto simp: thread_step_def)
  next
    case (finishing c cs)
    then show ?thesis using worker_finish_step [OF inv lib mb i finishing] w by (simp add: thread_step_def)
  next
    case joining
    then have "mbox_inv owns pad mb (pr_goto i (Closing [T_Mail (Call_Destroy (mb i))]) p) g"
      using i0 code(6) by (intro move) (auto simp: present_def)
    then show ?thesis using joining code(5,6) by (auto simp: thread_step_def)
  next
    case closed
    then have "mbox_inv owns pad mb (pr_goto i Returned p) g"
      using i0 by (intro move) (auto simp: present_def)
    then show ?thesis using closed by (auto simp: thread_step_def)
  next
    case (closing c cs)
    then have "c = T_Mail (Call_Destroy (mb i)) \<and> cs = []" using w code(6) by (auto simp: suffix_Cons)
    then show ?thesis
      using box_destroy [OF inv lib mb _ _, of i] i thread3_destroy [OF inv] closing
      by (cases "i = 3") (simp add: thread_step_def, metis)+
  next
    case returned
    then show ?thesis using inv by (auto simp: thread_step_def)
  qed
qed

section \<open>The steps of main\<close>

lemma count_distinct: "distinct D \<Longrightarrow> count_list D m = (if m \<in> set D then 1 else 0)"
  by (induction D) auto

text \<open>A message or a signal reaches a mailbox at most once, and only if it is registered.\<close>

definition sends :: "pubsub \<Rightarrow> payload \<Rightarrow> pubsub \<Rightarrow> bool" where
  "sends a x b \<longleftrightarrow> a_slots b = a_slots a \<and> a_caps b = a_caps a \<and>
     (\<forall>m. a_queues b m = a_queues a m \<or> m \<in> set (targets (a_slots a (fst x))) \<and>
        a_queues b m = map_option (\<lambda>v. v @ [x]) (a_queues a m))"

lemma sends_message:
  assumes "pubsub_step a (Call_SendMessage l t) r b" and "distinct (targets (a_slots a l))"
  shows "sends a (l, Some t) b"
proof -
  from assms(1) consider "b = a"
    | D where "b = a\<lparr>a_queues := deliver D (l, Some t) (a_queues a)\<rparr>" "subseq D (targets (a_slots a l))"
    by (auto elim!: pubsub_sendE)
  then show ?thesis
  proof cases
    case 2
    have D: "distinct D" "set D \<subseteq> set (targets (a_slots a l))"
      using 2(2) assms(2) by (metis subseq_conv_nths distinct_nthsI, metis subseq_conv_nths set_nths_subset)
    have "deliver D x V m = V m \<or> m \<in> set D \<and> deliver D x V m = map_option (\<lambda>v. v @ [x]) (V m)"
      for x :: payload and V m
      by (simp add: deliver_def count_distinct [OF D(1)] option.map_ident)
    then have "\<forall>m. deliver D (l, Some t) (a_queues a) m = a_queues a m \<or>
        m \<in> set (targets (a_slots a l)) \<and>
        deliver D (l, Some t) (a_queues a) m = map_option (\<lambda>v. v @ [(l, Some t)]) (a_queues a m)"
      using D(2) by blast
    then show ?thesis by (simp add: sends_def 2(1))
  qed (simp add: sends_def)
qed

lemma sends_signal:
  assumes "pubsub_step a (Call_SendSignal l) r b" and "distinct (targets (a_slots a l))"
  shows "sends a (l, None) b"
proof -
  have b: "b = a\<lparr>a_queues := offer (a_caps a) (targets (a_slots a l)) (l, None) (a_queues a)\<rparr>"
    using assms(1) by (auto elim!: pubsub_signalE)
  have "offer c T x V m = V m \<or> m \<in> set T \<and> offer c T x V m = map_option (\<lambda>v. v @ [x]) (V m)"
    if "distinct T" for c T V m and x :: payload
    by (cases "V m") (simp_all add: offer_at [OF that])
  then show ?thesis using assms(2) by (simp add: sends_def b)
qed

lemma sends_boxes:
  "sends a x b \<Longrightarrow> a_queues b m = None \<longleftrightarrow> a_queues a m = None"
  unfolding sends_def by (metis option.map_disc_iff)

lemma inbox_sends:
  "sends a x b \<Longrightarrow> inbox b m = inbox a m \<or>
     m \<in> set (targets (a_slots a (fst x))) \<and> inbox b m = inbox a m @ [x]"
  unfolding sends_def inbox_def by (elim conjE allE [of _ m]) (auto split: option.splits)

lemma main_send:
  assumes inv: "mbox_inv owns pad mb p g" and lib: "mailbox_lib (pl_lib pf) owns" and mb: "inj mb"
    and pc: "pr_pcs p 0 = Setup (T_Mail c # cs)" "payloads (T_Mail c # cs) \<noteq> []"
    and suf: "suffix cs (th_setup (mbox_main pad (mb 0)))" and ok: "call_ok c g"
    and c: "\<And>m. c \<noteq> Call_Receive m" "\<And>k. c \<noteq> Call_Release k"
    and new: "alive (mb 0) (Setup cs) = alive (mb 0) (Setup (T_Mail c # cs))"
    and sent: "sent pad (Setup cs) = sent pad (Setup (T_Mail c # cs)) @ [x]"
    and eff: "\<And>r b. pubsub_step (abstract g) c r b \<Longrightarrow> sends (abstract g) x b"
  obtains p' g' where "pr_call pf 0 (T_Mail c) (Setup cs) p = Inr p'" "mbox_inv owns pad mb p' g'"
proof -
  note I = mbox_invD [OF inv]
  have w0: "0 \<notin> workers" by (simp add: workers_def)
  have busy: "\<not> over (pr_pcs p j)" if "j \<in> workers" for j
    using I(6) pc that by (auto simp: traffic_inv_def)
  have "gone q \<Longrightarrow> over q" for q by (cases q) auto
  then have "\<not> gone (pr_pcs p 3)" using busy [of 3] by (auto simp: workers_def)
  then obtain r g' s' where 1: "sys_exec (pl_lib pf) c g = Inr (r, g')"
      "pubsub_step (abstract g) c r (abstract g')" "pl_exec pf (T_Mail c) (pr_sys p) = (Inr r, s')"
      "t_sys s' = (if gone (pr_pcs p 3) then without (mb 3) g' else g')"
      "\<exists>lost S G. sys_inv owns g' lost S G" "md_initialized (w_data (s_world g'))"
    using mbox_exec [OF inv lib ok] by metis
  note s = eff [OF 1(2)]
  let ?vw = "view_msg (w_mem (s_world g))" and ?vw' = "view_msg (w_mem (s_world g'))"
  have "traffic j (sent pad (Setup cs)) (pr_log p j) (hand ?vw' (pr_pcs p j)) (inbox (abstract g') (mb j))"
    if j: "j \<in> workers" for j
  proof -
    have t: "traffic j (sent pad (Setup (T_Mail c # cs))) (pr_log p j) (hand ?vw (pr_pcs p j))
        (inbox (abstract g) (mb j))"
      using I(6) j pc(1) by (simp add: traffic_inv_def)
    have "fst x \<in> labels_of j" if "mb j \<in> set (targets (a_slots (abstract g) (fst x)))"
    proof -
      have "registered j (mb j) (pr_pcs p j) (fst x)"
        using I(4) that mb by (auto simp: seats_inv_def dest: injD)
      then show ?thesis using busy [OF j] by (cases "pr_pcs p j") auto
    qed
    then show ?thesis
      using inbox_sends [OF s, of "mb j"] traffic_more [OF t, of x] traffic_deliver [OF t, of x]
        in_hand [OF I(7,8) j held_views [OF 1(1,2)]]
      by (auto simp: sent)
  qed
  then have "traffic_inv pad mb (abstract g') ?vw' ((pr_pcs p)(0 := Setup cs)) (pr_log p)"
    using busy w0 by (auto simp: traffic_inv_def)
  moreover have "seats_inv mb (abstract g') ((pr_pcs p)(0 := Setup cs))"
    by (rule seats_goto [OF I(4)]) (use s w0 in \<open>simp_all add: sends_def\<close>)
  moreover have "boxes_inv mb (abstract g') ((pr_pcs p)(0 := Setup cs))"
  proof (rule boxes_update [OF I(5)])
    have "a_queues (abstract g) (mb 0) \<noteq> None \<longleftrightarrow> present 0 (mb 0) (pr_pcs p 0)"
      using I(5) unfolding boxes_inv_def by blast
    then show "a_queues (abstract g') (mb 0) \<noteq> None \<longleftrightarrow> present 0 (mb 0) (Setup cs)"
      using new pc(1) by (simp only: sends_boxes [OF s] present_def) simp
    show "a_caps (abstract g') m = Some n \<Longrightarrow> n = QUEUE_SIZE" for m n
      using I(5) s by (simp add: boxes_inv_def sends_def)
  qed (rule sends_boxes [OF s])
  moreover have "pcs_inv pad mb ((pr_pcs p)(0 := Setup cs))"
    by (rule pcs_goto [OF I(7)]) (use suf w0 in simp_all)
  moreover have "held_inv (s_held g') ((pr_pcs p)(0 := Setup cs))"
    using held_goto [OF I(8), of 0 "Setup cs"] exec_held [OF 1(1)] c w0 by simp
  ultimately have "mbox_inv owns pad mb (pr_goto 0 (Setup cs) (p\<lparr>pr_sys := s'\<rparr>)) g'"
    using mbox_next [OF inv 1(5,6,4)] by simp
  then show thesis using that 1(3) by (simp add: pr_call_def)
qed


lemma main_setup_step:
  assumes inv: "mbox_inv owns pad mb p g" and lib: "mailbox_lib (pl_lib pf) owns" and mb: "inj mb"
    and pc: "pr_pcs p 0 = Setup (c # cs)" and suf: "suffix (c # cs) (th_setup (mbox_main pad (mb 0)))"
  obtains p' g' where "pr_call pf 0 c (Setup cs) p = Inr p'" "mbox_inv owns pad mb p' g'"
proof -
  note I = mbox_invD [OF inv] and suf' = suffix_ConsD [OF suf]
  have distinct: "distinct (targets (a_slots (abstract g) l))" for l using I(4) by (simp add: seats_inv_def)
  from suf show thesis
  proof (cases rule: main_setup)
    case (message l t)
    have ok: "call_ok (Call_SendMessage l t) g" using message(2) by simp
    show ?thesis
      by (rule main_send [OF inv lib mb _ _ suf' ok, of "(l, Some t)"])
        (use pc message sends_message [OF _ distinct] that in auto)
  next
    case (signal l)
    have ok: "call_ok (Call_SendSignal l) g" using I(2) by simp
    show ?thesis
      by (rule main_send [OF inv lib mb _ _ suf' ok, of "(l, None)"])
        (use pc signal sends_signal [OF _ distinct] that in auto)
  qed
qed

lemma main_step:
  assumes inv: "mbox_inv owns pad mb p g" and lib: "mailbox_lib (pl_lib pf) owns" and mb: "inj mb"
  shows "\<exists>p' g'. thread_step pf (mbox_codes pad mb ! 0) 0 p = Inr p' \<and> mbox_inv owns pad mb p' g'"
proof -
  note move = mbox_move [OF inv, of 0] and code = mbox_main_code
  have w: "main_pc (mbox_main pad (mb 0)) (pr_pcs p 0)"
    using mbox_invD(7) [OF inv] by (simp add: pcs_inv_def)
  show ?thesis
  proof (cases "pr_pcs p 0")
    case (Setup cs)
    show ?thesis
    proof (cases cs)
      case Nil
      then have "mbox_inv owns pad mb (pr_goto 0 (Finish []) p) g"
        using Setup by (intro move) (simp_all add: present_def)
      then show ?thesis using Setup Nil code by (auto simp: thread_step_def)
    next
      case (Cons c cs')
      with Setup w show ?thesis using main_setup_step [OF inv lib mb, of c cs']
        by (simp add: thread_step_def) metis
    qed
  next
    case (Finish cs)
    then have "mbox_inv owns pad mb (pr_goto 0 Joining p) g"
      by (intro move) (simp_all add: present_def)
    then show ?thesis using Finish w by (auto simp: thread_step_def)
  next
    case Joining
    then have "mbox_inv owns pad mb (pr_goto 0 (Closing [T_Mail (Call_Destroy (mb 0))]) p) g"
      by (intro move) (simp_all add: present_def code)
    then show ?thesis using Joining inv code by (auto simp: thread_step_def)
  next
    case (Closing cs)
    with w code consider "cs = [T_Mail (Call_Destroy (mb 0))]" | "cs = []" by (auto simp: suffix_Cons)
    then show ?thesis
    proof cases
      case 1
      then show ?thesis using box_destroy [OF inv lib mb, of 0] Closing
        by (simp add: thread_step_def) metis
    next
      case 2
      then have "mbox_inv owns pad mb (pr_goto 0 Returned p) g"
        using Closing by (intro move) (simp_all add: present_def)
      then show ?thesis using Closing 2 by (auto simp: thread_step_def)
    qed
  next
    case Returned
    then show ?thesis using inv by (auto simp: thread_step_def)
  qed (use w in simp_all)
qed

lemma mbox_step:
  assumes "mbox_inv owns pad mb p g" and "mailbox_lib (pl_lib pf) owns" and "inj mb"
  shows "\<exists>p' g'. prog_step pf (mbox_codes pad mb) (Run i) p = Inr p' \<and> mbox_inv owns pad mb p' g'"
proof -
  consider "i = 0" | "i \<in> workers" | "4 \<le> i" by (force simp: workers_def)
  then show ?thesis
    using main_step [OF assms] worker_step [OF assms, of i] assms(1)
    by cases (auto simp: workers_def)
qed

end
