(* ===== verification/MboxLive.thy ===== *)
theory MboxLive
  imports MboxInv
begin

text \<open>
  Why the threads of \<^verbatim>\<open>example/mbox.cpp\<close> come to their end: the signal \<^verbatim>\<open>Exit\<close> reaches every thread
  that is registered when \<^verbatim>\<open>main\<close> sends it, and every move brings the program nearer to its end.
\<close>

section \<open>The labels in a mailbox\<close>

lemma workers_pos [simp]: "i \<in> workers \<Longrightarrow> 0 < i"
  by (auto simp: workers_def)

definition qlabels :: "'r sys \<Rightarrow> mbox \<Rightarrow> label list" where
  "qlabels s m = (case w_queues (s_world s) m of None \<Rightarrow> [] | Some q \<Rightarrow> map m_label (q_queue q))"

lemma qlabels_inbox: "qlabels s m = map fst (inbox (abstract s) m)"
  by (simp add: qlabels_def inbox_def abstract_def view_def view_msg_def o_def split: option.split)

lemma qlabels_keep:
  "sys_exec lib c s = Inr (r, s') \<Longrightarrow>
     (\<exists>k l. c = Call_Unregister k l) \<or> (\<exists>i. c = Call_Release i) \<or> (\<exists>k. c = Call_Destroy k \<and> k \<noteq> m) \<Longrightarrow>
     qlabels s' m = qlabels s m"
  by (auto simp: qlabels_def and_then_eq_Inr Mailbox_UnregisterForLabel_def on_data_def
      Mailbox_ReleaseMessage_def Mailbox_destroy_def split: if_splits)

lemma map_Cons_hd_tl: "xs \<noteq> [] \<Longrightarrow> f (hd xs) # map f (tl xs) = map f xs"
  by (cases xs) simp_all

lemma qlabels_receive:
  assumes "sys_exec lib (Call_Receive k) s = Inr (r, s')"
  shows "if r then qlabels s k = m_label (last (s_held s')) # qlabels s' k \<and>
      (\<forall>m. m \<noteq> k \<longrightarrow> qlabels s' m = qlabels s m)
    else qlabels s k = []"
  using assms
  by (auto simp: qlabels_def and_then_eq_Inr Mailbox_Receive_def Queue_pop_def map_Cons_hd_tl
      split: option.splits prod.splits if_splits)

section \<open>Progress\<close>

fun rank :: "thread_pc \<Rightarrow> nat" where
  "rank (Setup cs) = 12 + length cs"
| "rank Loop = 8"
| "rank (Handling msg acts brk) = 9 + length acts"
| "rank (Finish cs) = 4 + length cs"
| "rank Joining = 3"
| "rank (Closing cs) = 1 + length cs"
| "rank Returned = 0"

text \<open>A thread is set up, and breaks or will break out of its loop.\<close>

definition due :: "(nat \<Rightarrow> mbox) \<Rightarrow> ('r, 'k, 'e) prog \<Rightarrow> nat \<Rightarrow> bool" where
  "due mb p i \<longleftrightarrow> (\<forall>cs. pr_pcs p i \<noteq> Setup cs) \<and>
     (over (pr_pcs p i) \<or> to_send (pr_pcs p 0) \<noteq> [] \<or> Exit \<in> set (qlabels (t_sys (pr_sys p)) (mb i)))"

definition weight :: "(nat \<Rightarrow> mbox) \<Rightarrow> ('r, 'k, 'e) prog \<Rightarrow> nat \<Rightarrow> nat" where
  "weight mb p i = rank (pr_pcs p i) + 4 * length (qlabels (t_sys (pr_sys p)) (mb i))"

lemma worker_finish_length: "i \<in> workers \<Longrightarrow> length (th_finish (mbox_codes pad mb ! i)) = 3"
  by (erule workers_cases) (simp_all add: thread1_def thread2_def thread3_def)

text \<open>What a move of thread \<open>i\<close> that gets somewhere does.\<close>

definition advances :: "(nat \<Rightarrow> mbox) \<Rightarrow> nat \<Rightarrow> ('r, 'k, 'e) prog \<Rightarrow> ('r, 'k, 'e) prog \<Rightarrow> bool" where
  "advances mb i p p' \<longleftrightarrow>
     (\<forall>j. j \<noteq> i \<longrightarrow> pr_pcs p' j = pr_pcs p j \<and>
        (j \<in> workers \<longrightarrow> qlabels (t_sys (pr_sys p')) (mb j) = qlabels (t_sys (pr_sys p)) (mb j))) \<and>
     due mb p' i \<and> weight mb p' i < weight mb p i"

lemma pr_call_labels:
  assumes "pr_call pf i (T_Mail c) pc p = Inr p'"
  shows "\<exists>r. sys_exec (pl_lib pf) c (t_sys (pr_sys p)) = Inr (r, t_sys (pr_sys p')) \<and>
    pr_pcs p' = (pr_pcs p)(i := pc)"
  using assms by (auto simp: pr_call_def pl_exec_mail split: sum.splits prod.splits)

lemma move_advances:
  "due mb p i \<Longrightarrow> rank pc < rank (pr_pcs p i) \<Longrightarrow> over pc = over (pr_pcs p i) \<Longrightarrow>
     (\<And>cs. pc \<noteq> Setup cs) \<Longrightarrow> i \<noteq> 0 \<Longrightarrow> advances mb i p (pr_goto i pc p)"
  by (simp add: advances_def due_def weight_def)

lemma quiet_advances:
  assumes "pr_call pf i (T_Mail c) pc p = Inr p'"
    and "(\<exists>k l. c = Call_Unregister k l) \<or> (\<exists>k. c = Call_Release k)"
    and "due mb p i" and "rank pc < rank (pr_pcs p i)" and "over pc = over (pr_pcs p i)"
    and "\<And>cs. pc \<noteq> Setup cs" and "i \<noteq> 0"
  shows "advances mb i p p'"
proof -
  from pr_call_labels [OF assms(1)] obtain r where r:
      "sys_exec (pl_lib pf) c (t_sys (pr_sys p)) = Inr (r, t_sys (pr_sys p'))"
      "pr_pcs p' = (pr_pcs p)(i := pc)" by blast
  have "qlabels (t_sys (pr_sys p')) m = qlabels (t_sys (pr_sys p)) m" for m
    using qlabels_keep [OF r(1)] assms(2) by blast
  then show ?thesis using r(2) assms(3-7) by (simp add: advances_def due_def weight_def)
qed

lemma destroy_advances:
  assumes "pr_call pf i (T_Mail (Call_Destroy (mb i))) (Closing []) p = Inr p'" and "inj mb"
    and "pr_pcs p i = Closing [T_Mail (Call_Destroy (mb i))]"
  shows "advances mb i p p'"
proof -
  from pr_call_labels [OF assms(1)] obtain r where r:
      "sys_exec (pl_lib pf) (Call_Destroy (mb i)) (t_sys (pr_sys p)) = Inr (r, t_sys (pr_sys p'))"
      "pr_pcs p' = (pr_pcs p)(i := Closing [])" by blast
  have "qlabels (t_sys (pr_sys p')) (mb j) = qlabels (t_sys (pr_sys p)) (mb j)" if "j \<noteq> i" for j
    using qlabels_keep [OF r(1)] mb_other [OF assms(2)] that by metis
  moreover have "qlabels (t_sys (pr_sys p')) (mb i) = []"
    using r(1) by (auto simp: qlabels_def Mailbox_destroy_def dest!: sym [of _ "t_sys (pr_sys p')"])
  ultimately show ?thesis using r(2) assms(3) by (simp add: advances_def due_def weight_def)
qed

lemma receive_advances:
  assumes "thread_step pf code i p = Inr p'" and "pr_pcs p i = Loop" and "inj mb"
    and "th_mbox code = mb i" and "th_handle code = show_loop" and "due mb p i" and "i \<noteq> 0"
  shows "advances mb i p p' \<or> p' = p \<and> qlabels (t_sys (pr_sys p)) (mb i) = []"
proof -
  let ?s = "t_sys (pr_sys p)"
  from assms(1,2,4) obtain r s' where r: "sys_exec (pl_lib pf) (Call_Receive (mb i)) ?s = Inr (r, s')"
    by (auto simp: thread_step_def pl_exec_mail split: sum.splits prod.splits simp del: sys_exec.simps)
  note q = qlabels_receive [OF r]
  show ?thesis
  proof (cases r)
    case False
    then show ?thesis using assms(1,2,4) r q
      by (simp add: thread_step_def pl_exec_mail del: sys_exec.simps)
  next
    case True
    let ?msg = "last (s_held s')"
    have p': "t_sys (pr_sys p') = s'"
        "pr_pcs p' = (pr_pcs p)(i := Handling ?msg [Show, Release] (m_label ?msg = Exit))"
      using assms(1,2,4,5) r True
      by (auto simp: thread_step_def pl_exec_mail show_loop_def Let_def simp del: sys_exec.simps)
    have "qlabels s' (mb j) = qlabels ?s (mb j)" if "j \<noteq> i" for j
      using q True mb_other [OF assms(3) that] by simp
    then show ?thesis using p' q True assms(2,6,7)
      by (auto simp: advances_def due_def weight_def)
  qed
qed

lemma worker_advances:
  assumes inv: "mbox_inv owns pad mb p g" and lib: "mailbox_lib (pl_lib pf) owns" and mb: "inj mb"
    and i: "i \<in> workers" and due: "due mb p i"
    and step: "thread_step pf (mbox_codes pad mb ! i) i p = Inr p'"
  shows "advances mb i p p' \<or>
    p' = p \<and> (pr_pcs p i = Returned \<or> pr_pcs p i = Loop \<and> qlabels (t_sys (pr_sys p)) (mb i) = [])"
proof -
  note code = worker_code [OF i, where pad = pad and mb = mb]
  have w: "worker_pc (mbox_codes pad mb ! i) (pr_pcs p i)"
    using mbox_invD(7) [OF inv] i by (simp add: pcs_inv_def)
  have i0: "i \<noteq> 0" using i by (auto simp: workers_def)
  show ?thesis
  proof (cases "pr_pcs p i" rule: thread_pc_cases)
    case looping
    then show ?thesis using receive_advances [OF step _ mb code(1,3) due i0] by blast
  next
    case (handling msg acts brk)
    with w consider "acts = [Show, Release]" | "acts = [Release]" | "acts = []" by auto
    then show ?thesis
    proof cases
      case 1
      then show ?thesis using step handling i0 due
        by (auto simp: thread_step_def advances_def due_def weight_def)
    next
      case 2
      then have c: "action_step pf (mbox_codes pad mb ! i) i msg Release (Handling msg [] brk) p = Inr p'"
        using step handling by (simp add: thread_step_def)
      show ?thesis
        by (rule disjI1, rule quiet_advances [OF c [unfolded action_step.simps]])
          (use 2 handling i0 due in auto)
    next
      case 3
      then show ?thesis
        using step handling i0 due worker_finish_length [OF i, where pad = pad and mb = mb]
        by (cases brk) (auto simp: thread_step_def intro!: move_advances)
    qed
  next
    case (finishing c cs)
    from worker_finish [OF i, of c cs pad mb] w finishing obtain l where
        "c = T_Mail (Call_Unregister (mb i) l)" by auto
    then show ?thesis using step finishing i0 due
      by (intro disjI1 quiet_advances) (auto simp: thread_step_def)
  next
    case (closing c cs)
    then have "c = T_Mail (Call_Destroy (mb i)) \<and> cs = []" using w code(6) by (auto simp: suffix_Cons)
    then show ?thesis using step closing destroy_advances [OF _ mb] by (simp add: thread_step_def)
  next
    case finished
    then have "p' = pr_goto i Joining p" using step by (simp add: thread_step_def)
    then show ?thesis using finished move_advances [OF due, of Joining] i0 by simp
  next
    case joining
    then have "p' = pr_goto i (Closing [T_Mail (Call_Destroy (mb i))]) p"
      using step code(5,6) by (simp add: thread_step_def)
    then show ?thesis
      using joining move_advances [OF due, of "Closing [T_Mail (Call_Destroy (mb i))]"] i0 by simp
  next
    case closed
    then have "p' = pr_goto i Returned p" using step by (simp add: thread_step_def)
    then show ?thesis using closed move_advances [OF due, of Returned] i0 by simp
  next
    case returned
    then show ?thesis using step by (simp add: thread_step_def)
  qed (use due in \<open>simp_all add: due_def\<close>)
qed


section \<open>Progress of main\<close>

text \<open>The last thing \<^verbatim>\<open>main\<close> sends is \<^verbatim>\<open>Exit\<close>, and there is room for it in every queue.\<close>

lemma sent_length: "length (filter P (sent pad pc)) \<le> 6"
proof -
  have "length (filter P (sent pad pc)) \<le> length (sent pad pc)" by (rule length_filter_le)
  also have "\<dots> \<le> 6" by (simp add: sent_def all_sent_def)
  finally show ?thesis .
qed

lemma traffic_length: "traffic i (sent pad pc) log h q \<Longrightarrow> length q \<le> 6"
proof -
  assume "traffic i (sent pad pc) log h q"
  then obtain r where "subseq (r @ h @ q) (filter (\<lambda>x. fst x \<in> labels_of i) (sent pad pc))"
    unfolding traffic_def by blast
  from list_emb_length [OF this] show ?thesis using sent_length [of _ pad pc]
    by (metis (no_types, lifting) add_leE dual_order.trans length_append)
qed

lemma signal_arrives:
  assumes "pubsub_step a (Call_SendSignal l) r b" and "distinct (targets (a_slots a l))"
    and "m \<in> set (targets (a_slots a l))" and "a_queues a m = Some v" and "a_caps a m = Some QUEUE_SIZE"
    and "length v < 256"
  shows "(l, None) \<in> set (inbox b m)"
proof -
  have "b = a\<lparr>a_queues := offer (a_caps a) (targets (a_slots a l)) (l, None) (a_queues a)\<rparr>"
    using assms(1) by (auto elim!: pubsub_signalE)
  then show ?thesis using assms(3-6) by (simp add: inbox_def offer_at [OF assms(2)] QUEUE_SIZE_def)
qed


definition main_advances :: "(nat \<Rightarrow> mbox) \<Rightarrow> ('r, 'k, 'e) prog \<Rightarrow> ('r, 'k, 'e) prog \<Rightarrow> bool" where
  "main_advances mb p p' \<longleftrightarrow> rank (pr_pcs p' 0) < rank (pr_pcs p 0) \<and>
     (\<forall>j. j \<noteq> 0 \<longrightarrow> pr_pcs p' j = pr_pcs p j) \<and> (\<forall>i \<in> workers. due mb p i \<longrightarrow> due mb p' i)"

lemma exit_is_last:
  assumes "suffix (c # cs) (th_setup (mbox_main pad m))" and "payloads cs = []"
  shows "c = T_Mail (Call_SendSignal Exit)"
  using assms by (auto simp: mbox_main_def suffix_Cons)

lemma exit_reaches:
  assumes inv: "mbox_inv owns pad mb p g" and lib: "mailbox_lib (pl_lib pf) owns"
    and pc: "pr_pcs p 0 = Setup (T_Mail (Call_SendSignal Exit) # cs)"
    and step: "pr_call pf 0 (T_Mail (Call_SendSignal Exit)) pc p = Inr p'"
    and i: "i \<in> workers" "due mb p i" "\<not> over (pr_pcs p i)"
  shows "Exit \<in> set (qlabels (t_sys (pr_sys p')) (mb i))"
proof -
  note I = mbox_invD [OF inv]
  let ?a = "abstract g" and ?s' = "t_sys (pr_sys p')"
  from I(1) obtain lost S G where g: "sys_inv owns g lost S G" by blast
  have "over (pr_pcs p 3) \<longrightarrow> to_send (pr_pcs p 0) = []"
    using I(6) by (simp add: traffic_inv_def workers_def)
  moreover have "gone q \<Longrightarrow> over q" for q by (cases q) auto
  ultimately have "t_sys (pr_sys p) = g" using I(3) pc by auto
  with pr_call_labels [OF step] obtain r where
      r: "sys_exec (pl_lib pf) (Call_SendSignal Exit) g = Inr (r, ?s')" by auto
  have "call_ok (Call_SendSignal Exit) g" using I(2) by simp
  from mailbox_lib.exec_good [OF lib g this] r have step':
      "pubsub_step ?a (Call_SendSignal Exit) r (abstract ?s')"
    by (auto simp: good_step_def)
  have "Exit \<in> labels_of i" using i(1) by (auto simp: workers_def labels_of_def)
  then have "registered i (mb i) (pr_pcs p i) Exit" "present i (mb i) (pr_pcs p i)"
    using i(2,3) by (cases "pr_pcs p i"; simp add: due_def present_def)+
  then have seat: "mb i \<in> set (targets (a_slots ?a Exit))" "distinct (targets (a_slots ?a Exit))"
      and box: "a_queues ?a (mb i) \<noteq> None"
    using I(4,5) i(1) by (auto simp: seats_inv_def boxes_inv_def)
  from box obtain v where v: "a_queues ?a (mb i) = Some v" by blast
  have "a_caps ?a (mb i) = Some QUEUE_SIZE"
  proof -
    from v obtain c where "a_caps ?a (mb i) = Some c" by (auto simp: abstract_def view_def caps_def)
    then show ?thesis using I(5) by (auto simp: boxes_inv_def)
  qed
  moreover have "length v \<le> 6"
    using I(6) i(1) v traffic_length [of i pad] by (auto simp: traffic_inv_def inbox_def)
  ultimately show ?thesis
    using signal_arrives [OF step' seat(2,1) v] by (force simp: qlabels_inbox)
qed

lemma main_moves:
  assumes inv: "mbox_inv owns pad mb p g" and lib: "mailbox_lib (pl_lib pf) owns" and mb: "inj mb"
    and step: "thread_step pf (mbox_codes pad mb ! 0) 0 p = Inr p'"
  shows "main_advances mb p p' \<or> p' = p \<and> (pr_pcs p 0 = Returned \<or>
    pr_pcs p 0 = Joining \<and> \<not> (\<forall>i \<in> workers. pr_pcs p i = Returned))"
proof -
  note I = mbox_invD [OF inv] and code = mbox_main_code
  have w: "main_pc (mbox_main pad (mb 0)) (pr_pcs p 0)" using I(7) by (simp add: pcs_inv_def)
  have quiet: "main_advances mb p (pr_goto 0 pc p)"
    if "rank pc < rank (pr_pcs p 0)" "to_send pc = to_send (pr_pcs p 0)" for pc
    using that by (auto simp: main_advances_def due_def)
  show ?thesis
  proof (cases "pr_pcs p 0" rule: thread_pc_cases)
    case ready
    then have "p' = pr_goto 0 (Finish []) p" using step code by (simp add: thread_step_def)
    then show ?thesis using ready quiet [of "Finish []"] by simp
  next
    case (starting c cs)
    have suf: "suffix (c # cs) (th_setup (mbox_main pad (mb 0)))" using w starting by simp
    then obtain m where c: "c = T_Mail m" by (cases rule: main_setup)
    have call: "pr_call pf 0 c (Setup cs) p = Inr p'" using step starting by (simp add: thread_step_def)
    note p' = pr_call_labels [OF call [unfolded c]]
    have "due mb p' i" if "i \<in> workers" "due mb p i" for i
    proof (cases "over (pr_pcs p i) \<or> payloads cs \<noteq> []")
      case True
      then show ?thesis using that p' by (auto simp: due_def)
    next
      case False
      then have "c = T_Mail (Call_SendSignal Exit)" using exit_is_last [OF suf] by simp
      then have "Exit \<in> set (qlabels (t_sys (pr_sys p')) (mb i))"
        using exit_reaches [OF inv lib _ _ that] starting call False by simp
      then show ?thesis using that p' by (auto simp: due_def)
    qed
    then show ?thesis using p' starting by (auto simp: main_advances_def)
  next
    case finished
    then have "p' = pr_goto 0 Joining p" using step by (simp add: thread_step_def)
    then show ?thesis using finished quiet [of Joining] by simp
  next
    case joining
    then show ?thesis using step code quiet [of "Closing [T_Mail (Call_Destroy (mb 0))]"]
      by (auto simp: thread_step_def workers_def split: if_splits)
  next
    case (closing c cs)
    then have cs: "c = T_Mail (Call_Destroy (mb 0))" "cs = []" using w code by (auto simp: suffix_Cons)
    have "pr_call pf 0 (T_Mail (Call_Destroy (mb 0))) (Closing []) p = Inr p'"
      using step closing cs by (simp add: thread_step_def)
    from pr_call_labels [OF this] obtain r where r:
        "sys_exec (pl_lib pf) (Call_Destroy (mb 0)) (t_sys (pr_sys p)) = Inr (r, t_sys (pr_sys p'))"
        "pr_pcs p' = (pr_pcs p)(0 := Closing [])" by blast
    have "qlabels (t_sys (pr_sys p')) (mb i) = qlabels (t_sys (pr_sys p)) (mb i)" if "i \<in> workers" for i
      using qlabels_keep [OF r(1)] mb_other [OF mb, of i 0] that by (metis workers_simps(3))
    then show ?thesis using r(2) closing by (auto simp: main_advances_def due_def workers_def)
  next
    case closed
    then have "p' = pr_goto 0 Returned p" using step by (simp add: thread_step_def)
    then show ?thesis using closed quiet [of Returned] by simp
  next
    case returned
    then show ?thesis using step by (simp add: thread_step_def)
  qed (use w in simp_all)
qed

section \<open>The end\<close>

lemma due_step:
  assumes inv: "mbox_inv owns pad mb p g" and lib: "mailbox_lib (pl_lib pf) owns" and mb: "inj mb"
    and due: "\<forall>i \<in> workers. due mb p i"
  obtains q h where "prog_step pf (mbox_codes pad mb) (Run j) p = Inr q" "mbox_inv owns pad mb q h"
    "\<forall>i \<in> workers. due mb q i"
    "q = p \<or> rank (pr_pcs q 0) < rank (pr_pcs p 0) \<or> pr_pcs q 0 = pr_pcs p 0 \<and>
       (\<Sum>i \<in> workers. weight mb q i) < (\<Sum>i \<in> workers. weight mb p i)"
    "q = p \<longrightarrow> j \<in> workers \<longrightarrow> pr_pcs p j = Returned \<or>
       pr_pcs p j = Loop \<and> qlabels (t_sys (pr_sys p)) (mb j) = []"
    "q = p \<longrightarrow> j = 0 \<longrightarrow> pr_pcs p 0 = Returned \<or>
       pr_pcs p 0 = Joining \<and> \<not> (\<forall>i \<in> workers. pr_pcs p i = Returned)"
proof -
  from mbox_step [OF inv lib mb] obtain q h where q:
      "prog_step pf (mbox_codes pad mb) (Run j) p = Inr q" "mbox_inv owns pad mb q h" by blast
  consider "j = 0" | "j \<in> workers" | "4 \<le> j" by (force simp: workers_def)
  then show thesis
  proof cases
    case 1
    have "thread_step pf (mbox_codes pad mb ! 0) 0 p = Inr q" using q(1) 1 by simp
    from main_moves [OF inv lib mb this] show thesis
      using q due 1 by (intro that [OF q]) (auto simp: main_advances_def)
  next
    case 2
    have "thread_step pf (mbox_codes pad mb ! j) j p = Inr q" using q(1) 2 by (auto simp: workers_def)
    from worker_advances [OF inv lib mb 2 _ this] due 2 consider "advances mb j p q" |
        "q = p" "pr_pcs p j = Returned \<or> pr_pcs p j = Loop \<and> qlabels (t_sys (pr_sys p)) (mb j) = []"
      by blast
    then show thesis
    proof cases
      case 1
      have j0: "j \<noteq> 0" using 2 by (auto simp: workers_def)
      have "(\<Sum>i \<in> workers. weight mb q i) < (\<Sum>i \<in> workers. weight mb p i)"
        by (rule sum_strict_mono_ex1)
          (use 1 2 in \<open>auto simp: advances_def weight_def intro: order.strict_implies_order\<close>)
      moreover have "due mb q i" if "i \<in> workers" for i
        using 1 due that j0 by (cases "i = j") (auto simp: advances_def due_def)
      ultimately show thesis using that [OF q] 1 2 j0 by (auto simp: advances_def)
    next
      case 2
      moreover have "j \<noteq> 0" using \<open>j \<in> workers\<close> by (auto simp: workers_def)
      ultimately show thesis using that [OF q] due by auto
    qed
  next
    case 3
    then show thesis using that [OF q] q(1) due by (simp add: workers_def)
  qed
qed

end
