(* ===== verification/MboxProps.thy ===== *)
theory MboxProps
  imports MboxLive
begin

text \<open>
  The properties of \<^verbatim>\<open>example/mbox.cpp\<close>: no schedule ends in a fault and the threads show what
  \<^verbatim>\<open>main\<close> sent; the program can always come to its end if the threads were registered in time;
  and thread 3 leaves the address of its destroyed mailbox behind.
\<close>

section \<open>The start\<close>

lemma mbox_init:
  assumes lib: "mailbox_lib (pl_lib pf) owns" and "unat c < 65536"
    and "mbox_main_init pf fresh a b c d m (process_new mem k) = Inr (True, s)"
  shows "(\<exists>lost S G. sys_inv owns (t_sys s) lost S G) \<and> md_initialized (w_data (s_world (t_sys s))) \<and>
    s_held (t_sys s) = [] \<and> a_slots (abstract (t_sys s)) = (\<lambda>_. [None, None, None]) \<and>
    a_queues (abstract (t_sys s)) = [m \<mapsto> []] \<and> a_caps (abstract (t_sys s)) = [m \<mapsto> QUEUE_SIZE]"
proof -
  let ?s0 = "sys_new mem :: 'a sys"
  define s1 where "s1 = ?s0\<lparr>s_world := Mailbox_new m QUEUE_SIZE (s_world ?s0)\<rparr>"
  have "call_ok (Call_New m QUEUE_SIZE) ?s0" by (simp add: sys_new_def world_new_def)
  from mailbox_lib.exec_good [OF lib sys_inv_new this] obtain lost1 S1 G1 where 1:
      "sys_inv owns s1 lost1 S1 G1"
    by (auto simp: good_step_def s1_def)
  obtain r s2 where t: "TimerManager_Initialize (pl_posix pf) fresh
      (set_world (Mailbox_default m (s_world ?s0)) (process_new mem k :: ('a, 'b) tsys)) = (r, s2)" by fastforce
  note tm = TimerManager_Initialize_cases [OF t]
  have w: "s_world (t_sys s2) = s_world s1" "s_held (t_sys s2) = []"
    using tm by (simp_all add: set_world_def s1_def Mailbox_default_def Mailbox_new_def process_new_def sys_new_def)
  from assms(3) t w obtain w' where 2: "Mailbox_Initialize (pl_lib pf) a b c d (s_world s1) = Inr (True, w')"
      "s = set_world w' s2"
    by (auto simp: mbox_main_init_def msglib_Initialize_def process_new_def and_then_eq_Inr)
  let ?s3 = "s1\<lparr>s_world := w'\<rparr>"
  have 3: "sys_exec (pl_lib pf) (Call_Initialize a b c d) s1 = Inr (True, ?s3)" using 2(1) by simp
  have ok: "call_ok (Call_Initialize a b c d) s1" using assms(2) by simp
  from mailbox_lib.exec_good [OF lib 1 ok] 3 obtain lost3 S3 G3 where 4: "sys_inv owns ?s3 lost3 S3 G3"
      "pubsub_step (abstract s1) (Call_Initialize a b c d) True (abstract ?s3)"
    by (auto simp: good_step_def)
  have same: "b = a" if "pubsub_step a (Call_Initialize x y z u) ok b" for a b x y z u ok
    using that by cases simp_all
  have s: "t_sys s = ?s3" using 2(2) w(2) by (simp add: set_world_def s1_def sys_new_def)
  have "abstract ?s3 = abstract s1" by (rule same [OF 4(2)])
  moreover have "md_initialized (w_data w')"
    using 2(1) Mailbox_Initialize_eq [of "s_world s1" "pl_lib pf" a b c d]
    by (auto simp: s1_def sys_new_def world_new_def Mailbox_new_def MailboxData_new_def split: option.splits)
  ultimately show ?thesis using 4(1)
    by (auto simp: s s1_def abstract_def sys_new_def world_new_def Mailbox_new_def MailboxData_new_def
        receivers_of_def view_def caps_def Queue_new_def fun_eq_iff)
qed

lemma mbox_start:
  assumes lib: "mailbox_lib (pl_lib pf) owns" and mb: "inj mb" and "unat c < 65536"
    and "mbox_main_init pf fresh a b c d (mb 0) (process_new mem k) = Inr (True, s)"
  shows "mbox_inv owns pad mb (prog_start (mbox_codes pad mb) s) (t_sys s)"
proof -
  let ?a = "abstract (t_sys s)" and ?pcs = "pr_pcs (prog_start (mbox_codes pad mb) s)"
  note i = mbox_init [OF lib assms(3,4)]
  have pcs: "?pcs 0 = Setup (th_setup (mbox_main pad (mb 0)))"
      "j \<in> workers \<Longrightarrow> ?pcs j = Setup (th_setup (mbox_codes pad mb ! j))" for j
    by (auto simp: prog_start_def workers_def)
  have absent: "j \<in> workers \<Longrightarrow> \<not> registered j (mb j) (?pcs j) l \<and> \<not> present j (mb j) (?pcs j)" for j l
    by (rule workers_cases)
      (auto simp: prog_start_def present_def labels_of_def thread1_def thread2_def thread3_def)
  have other: "j \<in> workers \<Longrightarrow> mb j \<noteq> mb 0" for j
    by (rule mb_other [OF mb]) (auto simp: workers_def)
  have "seats_inv mb ?a ?pcs" using i absent by (auto simp: seats_inv_def)
  moreover have "present 0 (mb 0) (?pcs 0)" by (simp add: pcs(1) present_def mbox_main_def)
  then have "boxes_inv mb ?a ?pcs"
    using i absent other unfolding boxes_inv_def by (auto split: if_splits)
  moreover have "traffic_inv pad mb ?a vw ?pcs (pr_log (prog_start (mbox_codes pad mb) s))" for vw
    using i pcs(2) by (auto simp: traffic_inv_def traffic_def inbox_def prog_start_def
        intro!: exI [of _ "[]"])
  moreover have "pcs_inv pad mb ?pcs" using pcs by (simp add: pcs_inv_def)
  moreover have "held_inv (s_held (t_sys s)) ?pcs"
    using i pcs(2) by (simp add: held_inv_def)
  moreover have "\<not> gone (?pcs 3)" using pcs(2) [of 3] by (simp add: workers_def)
  ultimately show ?thesis using i by (simp add: mbox_inv_def prog_start_def)
qed

definition mbox_run ::
  "('r, 'k) platform \<Rightarrow> byte \<times> byte \<times> byte \<Rightarrow> (nat \<Rightarrow> mbox) \<Rightarrow> nat list \<Rightarrow> ('r, 'k, shown) prog \<Rightarrow>
    fault + ('r, 'k, shown) prog" where
  "mbox_run pf pad mb is = prog_run pf (mbox_codes pad mb) (map Run is)"

lemma mbox_run_inv:
  assumes "mbox_inv owns pad mb p g" and "mailbox_lib (pl_lib pf) owns" and "inj mb"
  obtains q h where "mbox_run pf pad mb is p = Inr q" "mbox_inv owns pad mb q h"
proof -
  have "\<exists>q. mbox_run pf pad mb is p = Inr q \<and> (\<exists>h. mbox_inv owns pad mb q h)"
    unfolding mbox_run_def
    by (rule prog_run_induct [OF refl]) (use assms mbox_step in fastforce)+
  then show thesis using that by blast
qed

section \<open>What the threads show\<close>

definition shows_at_most :: "nat \<Rightarrow> shown list" where
  "shows_at_most i =
     (if i = 1 then [Got_Msg2 True, Got_Msg1 1 2 3 4 True, Got_Signal Exit]
      else if i = 2 then [Got_Msg3 1 2 3, Got_Msg1 1 2 3 4 True, Got_Signal Exit]
      else if i = 3 then [Got_Signal Msg4, Got_Signal Msg5, Got_Signal Exit] else [])"

lemma traffic_log:
  assumes "traffic i (sent pad pc) log h q" and "i \<in> workers"
  shows "subseq log (shows_at_most i)"
proof -
  let ?all = "filter (\<lambda>x. fst x \<in> labels_of i) (all_sent pad)"
  from assms(1) obtain r where r: "log = List.map_filter shown_of r"
      "subseq (r @ h @ q) (filter (\<lambda>x. fst x \<in> labels_of i) (sent pad pc))"
    unfolding traffic_def by blast
  have "subseq (sent pad pc) (all_sent pad)"
    unfolding sent_def by (intro prefix_imp_subseq take_is_prefix)
  then have "subseq (filter (\<lambda>x. fst x \<in> labels_of i) (sent pad pc)) ?all" by (rule subseq_filter)
  with r(2) have "subseq (r @ h @ q) ?all" by (rule subseq_order.trans)
  then have "subseq r ?all"
    by (rule subseq_order.trans [rotated]) (simp add: subseq_rev_drop_many)
  then have "subseq log (List.map_filter shown_of ?all)"
    unfolding r(1) map_filter_def by (intro subseq_map subseq_filter)
  also have "List.map_filter shown_of ?all = shows_at_most i"
    by (rule workers_cases [OF assms(2)])
      (simp_all add: shows_at_most_def all_sent_def labels_of_def map_filter_def del: shown_of.simps(2))
  finally show ?thesis .
qed

text \<open>
  C34. The program \<^verbatim>\<open>example/mbox.cpp\<close>: no schedule of its four threads ends in a fault, and what
  each of its three threads shows is, in order, some of what \<^verbatim>\<open>main\<close> sent with the labels of the
  thread, with the numbers and truth values \<^verbatim>\<open>main\<close> put in: three threads taking, showing and
  releasing messages at the same time never see each other's bytes.
\<close>
theorem mbox_example_correct:
  fixes k :: 'k
  assumes "mailbox_lib (pl_lib pf) owns" and "inj mb" and "unat largeSize < 65536"
    and "mbox_main_init pf fresh smallSize smallCap largeSize largeCap (mb 0) (process_new mem k) =
      Inr (True, s)"
  shows "\<exists>p. mbox_run pf pad mb is (prog_start (mbox_codes pad mb) s) = Inr p \<and>
    (\<forall>i \<in> {1, 2, 3}. subseq (pr_log p i) (shows_at_most i))"
proof -
  from mbox_run_inv [OF mbox_start [OF assms] assms(1,2)] obtain p g where p:
      "mbox_run pf pad mb is (prog_start (mbox_codes pad mb) s) = Inr p" "mbox_inv owns pad mb p g" .
  have "subseq (pr_log p i) (shows_at_most i)" if "i \<in> workers" for i
    using mbox_invD(6) [OF p(2)] that unfolding traffic_inv_def by (blast intro: traffic_log)
  with p(1) show ?thesis by (auto simp: workers_def)
qed

section \<open>What thread 3 leaves behind\<close>

text \<open>
  Thread 3 registers for the labels 4 and 5 and unregisters from 1 and 3: once it has returned,
  the receivers of 4 and 5 still hold the address of its mailbox, which is gone, and the next
  signal with one of them is an access to it. (\<^verbatim>\<open>main\<close> sends none after \<^verbatim>\<open>Exit\<close>.)
\<close>
lemma thread3_left_behind:
  fixes k :: 'k
  assumes "mailbox_lib (pl_lib pf) owns" and "inj mb" and "unat largeSize < 65536"
    and "mbox_main_init pf fresh smallSize smallCap largeSize largeCap (mb 0) (process_new mem k) =
      Inr (True, s)"
    and "mbox_run pf pad mb is (prog_start (mbox_codes pad mb) s) = Inr p"
    and "pr_pcs p 3 = Returned" and "l = Msg4 \<or> l = Msg5"
  shows "Some (mb 3) \<in> set (receivers_of (w_data (s_world (t_sys (pr_sys p)))) l) \<and>
    w_queues (s_world (t_sys (pr_sys p))) (mb 3) = None \<and>
    Mailbox_SendSignal l (s_world (t_sys (pr_sys p))) = Inl Dangling_Mailbox"
proof -
  from mbox_run_inv [OF mbox_start [OF assms(1-4)] assms(1,2)] assms(5) obtain g where
      "mbox_inv owns pad mb p g" by (metis Inr_inject)
  note I = mbox_invD [OF this]
  have sys: "t_sys (pr_sys p) = without (mb 3) g" using I(3) assms(6) by simp
  have "registered 3 (mb 3) (pr_pcs p 3) l" using assms(6,7) by (auto simp: labels_of_def)
  then have "mb 3 \<in> set (targets (a_slots (abstract g) l))"
    using I(4) by (auto simp: seats_inv_def workers_def)
  then have "Some (mb 3) \<in> set (receivers_of (w_data (s_world g)) l)"
    by (simp add: set_targets abstract_def)
  moreover have "\<not> md_locked (w_data (s_world g))" using I(1) by (auto simp: sys_inv_def)
  ultimately show ?thesis using signal_dangles [of "s_world (without (mb 3) g)"] by (simp add: sys)
qed

section \<open>The end of the program\<close>

lemma can_finish:
  fixes p :: "('r, 'k, shown) prog"
  assumes lib: "mailbox_lib (pl_lib pf) owns" and mb: "inj mb"
    and "mbox_inv owns pad mb p g" and "\<forall>i \<in> workers. due mb p i"
  shows "\<exists>ks r. mbox_run pf pad mb ks p = Inr r \<and> (\<forall>i \<in> insert 0 workers. pr_pcs r i = Returned)"
proof -
  let ?m = "\<lambda>p :: ('r, 'k, shown) prog. (rank (pr_pcs p 0), \<Sum>i \<in> workers. weight mb p i)"
  have "wf (inv_image (less_than <*lex*> less_than) ?m)" by (intro wf_inv_image wf_lex_prod wf_less_than)
  from this assms(3,4) show ?thesis
  proof (induction p arbitrary: g rule: wf_induct_rule)
    case (less p)
    show ?case
    proof (cases "\<forall>i \<in> insert 0 workers. pr_pcs p i = Returned")
      case True
      then show ?thesis by (intro exI [of _ "[]"]) (simp add: mbox_run_def)
    next
      case False
      let ?stuck = "pr_pcs p 0 = Returned \<or> pr_pcs p 0 = Joining \<and> \<not> (\<forall>i \<in> workers. pr_pcs p i = Returned)"
      obtain j where j: "if ?stuck then j \<in> workers \<and> pr_pcs p j \<noteq> Returned else j = 0"
        using False by (cases ?stuck) auto
      from due_step [OF less(2) lib mb less(3), of j] obtain q h where q:
          "prog_step pf (mbox_codes pad mb) (Run j) p = Inr q" "mbox_inv owns pad mb q h"
          "\<forall>i \<in> workers. due mb q i"
          "q = p \<or> rank (pr_pcs q 0) < rank (pr_pcs p 0) \<or> pr_pcs q 0 = pr_pcs p 0 \<and>
             (\<Sum>i \<in> workers. weight mb q i) < (\<Sum>i \<in> workers. weight mb p i)"
          "q = p \<longrightarrow> j \<in> workers \<longrightarrow> pr_pcs p j = Returned \<or>
             pr_pcs p j = Loop \<and> qlabels (t_sys (pr_sys p)) (mb j) = []"
          "q = p \<longrightarrow> j = 0 \<longrightarrow> pr_pcs p 0 = Returned \<or>
             pr_pcs p 0 = Joining \<and> \<not> (\<forall>i \<in> workers. pr_pcs p i = Returned)" .
      have "q \<noteq> p"
      proof
        assume "q = p"
        with q(6) j have "j \<in> workers \<and> pr_pcs p j \<noteq> Returned" "to_send (pr_pcs p 0) = []"
          by (auto split: if_splits)
        with q(5) \<open>q = p\<close> less(3) show False by (auto simp: due_def)
      qed
      with q(4) have "(q, p) \<in> inv_image (less_than <*lex*> less_than) ?m" by auto
      from less(1) [OF this q(2,3)] obtain ks r where
          "mbox_run pf pad mb ks q = Inr r" "\<forall>i \<in> insert 0 workers. pr_pcs r i = Returned" by blast
      then show ?thesis using q(1)
        by (intro exI [of _ "j # ks"] exI [of _ r]) (simp add: mbox_run_def)
    qed
  qed
qed

text \<open>
  C35. If all three threads are set up when \<^verbatim>\<open>main\<close> still has its last signal to send, the program
  cannot get stuck: whatever happens from there on, there is a way for it to go on to its end, all
  threads and \<^verbatim>\<open>main\<close> having returned.
\<close>
theorem mbox_can_finish:
  fixes k :: 'k
  assumes "mailbox_lib (pl_lib pf) owns" and "inj mb" and "unat largeSize < 65536"
    and "mbox_main_init pf fresh smallSize smallCap largeSize largeCap (mb 0) (process_new mem k) =
      Inr (True, s)"
    and "mbox_run pf pad mb is (prog_start (mbox_codes pad mb) s) = Inr p"
    and "\<And>i cs. i \<in> {1, 2, 3} \<Longrightarrow> pr_pcs p i \<noteq> Setup cs"
    and "pr_pcs p 0 = Setup (c # cs)"
    and "mbox_run pf pad mb js p = Inr q"
  shows "\<exists>ks r. mbox_run pf pad mb ks q = Inr r \<and> (\<forall>i \<in> {0, 1, 2, 3}. pr_pcs r i = Returned)"
proof -
  from mbox_run_inv [OF mbox_start [OF assms(1-4)] assms(1,2)] assms(5) obtain g where
      p: "mbox_inv owns pad mb p g" by (metis Inr_inject)
  have "suffix (c # cs) (th_setup (mbox_main pad (mb 0)))"
    using mbox_invD(7) [OF p] assms(7) by (simp add: pcs_inv_def)
  then have "to_send (pr_pcs p 0) \<noteq> []" using assms(7) by (cases rule: main_setup) simp_all
  then have "\<forall>i \<in> workers. due mb p i" using assms(6) by (simp add: due_def workers_def)
  with p have "(\<exists>g. mbox_inv owns pad mb p g) \<and> (\<forall>i \<in> workers. due mb p i)" by blast
  note start = this
  let ?P = "\<lambda>p. (\<exists>g. mbox_inv owns pad mb p g) \<and> (\<forall>i \<in> workers. due mb p i)"
  have "\<exists>y'. prog_step pf (mbox_codes pad mb) e y = Inr y' \<and> ?P y'" if "e \<in> set (map Run js)" "?P y" for e y
  proof -
    from that obtain j g where "e = Run j" "mbox_inv owns pad mb y g" "\<forall>i \<in> workers. due mb y i" by auto
    with due_step [OF this(2) assms(1,2) this(3), of j] show ?thesis by metis
  qed
  from prog_run_induct [where P = ?P, OF assms(8) [unfolded mbox_run_def] start this]
  obtain g' where "mbox_inv owns pad mb q g'" "\<forall>i \<in> workers. due mb q i" by auto
  from can_finish [OF assms(1,2) this] show ?thesis by (simp add: workers_def)
qed

text \<open>A thread that is scheduled often enough at the start gets to its loop.\<close>

lemma set_up:
  assumes lib: "mailbox_lib (pl_lib pf) owns" and mb: "inj mb" and i: "i \<in> workers"
  shows "mbox_inv owns pad mb p g \<Longrightarrow> pr_pcs p i = Setup cs \<Longrightarrow>
    \<exists>q h. mbox_run pf pad mb (replicate (Suc (length cs)) i) p = Inr q \<and> mbox_inv owns pad mb q h \<and>
      pr_pcs q = (pr_pcs p)(i := Loop)"
proof (induction cs arbitrary: p g)
  case Nil
  from mbox_step [OF Nil(1) lib mb, of i] obtain q h where q:
      "prog_step pf (mbox_codes pad mb) (Run i) p = Inr q" "mbox_inv owns pad mb q h" by blast
  moreover have "q = pr_goto i Loop p"
    using q(1) Nil(2) worker_code(2) [OF i, where pad = pad and mb = mb] i
    by (auto simp: thread_step_def workers_def)
  ultimately show ?case by (auto simp: mbox_run_def)
next
  case (Cons c cs)
  from mbox_step [OF Cons(2) lib mb, of i] obtain q h where q:
      "prog_step pf (mbox_codes pad mb) (Run i) p = Inr q" "mbox_inv owns pad mb q h" by blast
  have "i < length (mbox_codes pad mb)" using i by (auto simp: workers_def)
  with q(1) Cons(3) have "pr_call pf i c (Setup cs) p = Inr q" by (simp add: thread_step_def)
  then have pcs: "pr_pcs q = (pr_pcs p)(i := Setup cs)"
    by (auto simp: pr_call_def split: prod.splits sum.splits)
  then have "pr_pcs q i = Setup cs" by simp
  from Cons.IH [OF q(2) this] obtain r h' where r:
      "mbox_run pf pad mb (replicate (Suc (length cs)) i) q = Inr r" "mbox_inv owns pad mb r h'"
      "pr_pcs r = (pr_pcs q)(i := Loop)" by blast
  have "mbox_run pf pad mb (replicate (Suc (length (c # cs))) i) p = Inr r"
    using q(1) r(1) by (simp add: mbox_run_def del: prog_step.simps)
  moreover have "pr_pcs r = (pr_pcs p)(i := Loop)" by (simp add: r(3) pcs)
  ultimately show ?case using r(2) by blast
qed

lemma all_set_up:
  assumes lib: "mailbox_lib (pl_lib pf) owns" and mb: "inj mb"
    and inv: "mbox_inv owns pad mb p g" and pc: "\<And>i. i \<in> workers \<Longrightarrow> \<exists>cs. pr_pcs p i = Setup cs"
  obtains "is" q h where "mbox_run pf pad mb is p = Inr q" "mbox_inv owns pad mb q h"
    "pr_pcs q = (pr_pcs p)(1 := Loop, 2 := Loop, 3 := Loop)"
proof -
  have w: "1 \<in> workers" "2 \<in> workers" "3 \<in> workers" by (simp_all add: workers_def)
  obtain cs1 cs2 cs3 where cs: "pr_pcs p 1 = Setup cs1" "pr_pcs p 2 = Setup cs2" "pr_pcs p 3 = Setup cs3"
    using pc [OF w(1)] pc [OF w(2)] pc [OF w(3)] by blast
  from set_up [OF lib mb w(1) inv cs(1)] obtain q1 h1 where 1:
      "mbox_run pf pad mb (replicate (Suc (length cs1)) 1) p = Inr q1" "mbox_inv owns pad mb q1 h1"
      "pr_pcs q1 = (pr_pcs p)(1 := Loop)" by blast
  then have "pr_pcs q1 2 = Setup cs2" using cs(2) by simp
  from set_up [OF lib mb w(2) 1(2) this] obtain q2 h2 where 2:
      "mbox_run pf pad mb (replicate (Suc (length cs2)) 2) q1 = Inr q2" "mbox_inv owns pad mb q2 h2"
      "pr_pcs q2 = (pr_pcs q1)(2 := Loop)" by blast
  then have "pr_pcs q2 3 = Setup cs3" using 1(3) cs(3) by simp
  from set_up [OF lib mb w(3) 2(2) this] obtain q3 h3 where 3:
      "mbox_run pf pad mb (replicate (Suc (length cs3)) 3) q2 = Inr q3" "mbox_inv owns pad mb q3 h3"
      "pr_pcs q3 = (pr_pcs q2)(3 := Loop)" by blast
  have "mbox_run pf pad mb (replicate (Suc (length cs1)) 1 @ replicate (Suc (length cs2)) 2 @
      replicate (Suc (length cs3)) 3) p = Inr q3"
    using 1(1) 2(1) 3(1) by (simp only: mbox_run_def map_append prog_run_append and_then_Inr)
  then show thesis using that 3(2,3) 2(3) 1(3) by simp
qed

section \<open>A run\<close>

definition demo_platform :: "(monotonic sync_pool, kernel) platform" where
  "demo_platform = \<lparr>pl_posix = kernel_posix True, pl_expire = kernel_expire, pl_lib = demo_lib\<rparr>"

definition demo_mb :: "nat \<Rightarrow> mbox" where "demo_mb i = 100 + i"

abbreviation demo_pad :: "byte \<times> byte \<times> byte" where "demo_pad \<equiv> (0, 0, 0)"

definition demo_ready :: "(monotonic sync_pool, kernel) tsys" where
  "demo_ready = snd (projr (mbox_main_init demo_platform (Some (4096, \<lambda>_. 0)) 256 4 2048 2 (demo_mb 0)
     (process_new (\<lambda>_. 0) (kernel_new 10))))"

lemma demo_init:
  "mbox_main_init demo_platform (Some (4096, \<lambda>_. 0)) 256 4 2048 2 (demo_mb 0)
     (process_new (\<lambda>_. 0) (kernel_new 10)) = Inr (True, demo_ready)"
  by (simp add: demo_ready_def mbox_main_init_def demo_platform_def process_new_def msglib_Initialize_def
      TimerManager_Initialize_def Mailbox_default_def set_world_def timer_run_defs mailbox_run_defs)

lemma demo_platform_ok: "mailbox_lib (pl_lib demo_platform) std_owns" "inj demo_mb"
  using demo_lib_ok by (simp_all add: demo_platform_def demo_mb_def inj_def)

definition demo_start :: "(monotonic sync_pool, kernel, shown) prog" where
  "demo_start = prog_start (mbox_codes demo_pad demo_mb) demo_ready"

lemma demo_start_inv: "mbox_inv std_owns demo_pad demo_mb demo_start (t_sys demo_ready)"
  unfolding demo_start_def by (rule mbox_start [OF demo_platform_ok _ demo_init]) simp

lemma demo_all_set_up:
  obtains "is" p g where "mbox_run demo_platform demo_pad demo_mb is demo_start = Inr p"
    "mbox_inv std_owns demo_pad demo_mb p g" "pr_pcs p 1 = Loop" "pr_pcs p 2 = Loop" "pr_pcs p 3 = Loop"
    "pr_pcs p 0 = Setup (th_setup (mbox_main demo_pad (demo_mb 0)))"
proof -
  have "\<exists>cs. pr_pcs demo_start i = Setup cs" if "i \<in> workers" for i
    using that by (auto simp: demo_start_def prog_start_def workers_def)
  from all_set_up [OF demo_platform_ok demo_start_inv this] obtain "is" q h where
      "mbox_run demo_platform demo_pad demo_mb is demo_start = Inr q"
      "mbox_inv std_owns demo_pad demo_mb q h"
      "pr_pcs q = (pr_pcs demo_start)(1 := Loop, 2 := Loop, 3 := Loop)" by metis
  then show thesis using that by (simp add: demo_start_def prog_start_def)
qed

theorem mbox_example_correct_witness:
  "\<exists>p. mbox_run demo_platform demo_pad demo_mb [1, 2, 3, 0, 1] demo_start = Inr p \<and>
     subseq (pr_log p 1) [Got_Msg2 True, Got_Msg1 1 2 3 4 True, Got_Signal Exit]"
proof -
  have "unat (2048 :: size_t) < 65536" by simp
  from mbox_example_correct [OF demo_platform_ok this demo_init, of demo_pad "[1, 2, 3, 0, 1]"]
  show ?thesis unfolding demo_start_def by (fastforce simp: shows_at_most_def)
qed

theorem mbox_can_finish_witness:
  "\<exists>is p r ks. mbox_run demo_platform demo_pad demo_mb is demo_start = Inr p \<and> pr_pcs p 1 = Loop \<and>
     mbox_run demo_platform demo_pad demo_mb ks p = Inr r \<and> pr_pcs r 0 = Returned \<and> pr_pcs r 1 = Returned"
proof -
  obtain "is" p g where p: "mbox_run demo_platform demo_pad demo_mb is demo_start = Inr p"
      "pr_pcs p 1 = Loop" "pr_pcs p 2 = Loop" "pr_pcs p 3 = Loop"
      "pr_pcs p 0 = Setup (th_setup (mbox_main demo_pad (demo_mb 0)))"
    using demo_all_set_up by metis
  have u: "unat (2048 :: size_t) < 65536" by simp
  have "\<exists>c cs. th_setup (mbox_main demo_pad (demo_mb 0)) = c # cs" by (simp add: mbox_main_def)
  then obtain c cs where c: "pr_pcs p 0 = Setup (c # cs)" using p(5) by auto
  have set_up: "i \<in> {1, 2, 3} \<Longrightarrow> pr_pcs p i \<noteq> Setup cs" for i cs using p(2-4) by auto
  have "mbox_run demo_platform demo_pad demo_mb [] p = Inr p" by (simp add: mbox_run_def)
  from mbox_can_finish [OF demo_platform_ok u demo_init p(1) [unfolded demo_start_def] set_up c this] p(1,2)
  show ?thesis by auto
qed

lemma thread3_left_behind_demo:
  "\<exists>is p. mbox_run demo_platform demo_pad demo_mb is demo_start = Inr p \<and> pr_pcs p 3 = Returned \<and>
     Mailbox_SendSignal Msg4 (s_world (t_sys (pr_sys p))) = Inl Dangling_Mailbox"
proof -
  obtain "is" p g where p: "mbox_run demo_platform demo_pad demo_mb is demo_start = Inr p"
      "mbox_inv std_owns demo_pad demo_mb p g" "pr_pcs p 1 = Loop" "pr_pcs p 2 = Loop" "pr_pcs p 3 = Loop"
      "pr_pcs p 0 = Setup (th_setup (mbox_main demo_pad (demo_mb 0)))"
    using demo_all_set_up by metis
  have u: "unat (2048 :: size_t) < 65536" by simp
  have "\<forall>i \<in> workers. due demo_mb p i" using p(3-6) by (simp add: due_def workers_def mbox_main_def)
  from can_finish [OF demo_platform_ok p(2) this] obtain ks r where r:
      "mbox_run demo_platform demo_pad demo_mb ks p = Inr r" "pr_pcs r 3 = Returned"
    by (auto simp: workers_def)
  have "mbox_run demo_platform demo_pad demo_mb (is @ ks) demo_start = Inr r"
    using p(1) r(1) by (simp add: mbox_run_def prog_run_append)
  moreover from thread3_left_behind [OF demo_platform_ok u demo_init this [unfolded demo_start_def] r(2), of Msg4]
  have "Mailbox_SendSignal Msg4 (s_world (t_sys (pr_sys r))) = Inl Dangling_Mailbox" by simp
  ultimately show ?thesis using r(2) by blast
qed

end
