(* ===== verification/TimerExample.thy ===== *)
theory TimerExample
  imports Programs TimerProps
begin

text \<open>
  The program \<^verbatim>\<open>example/timer.cpp\<close>: \<^verbatim>\<open>main\<close> starts a recurring timer and 42 one-shot timers, two
  threads receive their signals, and the last of the one-shot timers makes the program end.
\<close>

section \<open>The threads\<close>

definition RECURRING_TIMER :: label where "RECURRING_TIMER = 1"
definition ONE_SHOT_TIMER :: label where "ONE_SHOT_TIMER = 2"
definition DONE :: label where "DONE = 3"
definition EXIT_THREAD :: label where "EXIT_THREAD = 4"

lemmas timer_labels = RECURRING_TIMER_def ONE_SHOT_TIMER_def DONE_def EXIT_THREAD_def

text \<open>The threads print the labels they receive.\<close>

definition show_label :: "mem \<Rightarrow> Message \<Rightarrow> label option" where
  "show_label mem msg = Some (m_label msg)"

definition timer_loop1 :: "label \<Rightarrow> action list \<times> bool" where
  "timer_loop1 l =
     (if l = RECURRING_TIMER then ([Show, Release], False)
      else if l = EXIT_THREAD then ([Show, Release], True)
      else ([], False))"

definition timer_thread1 :: "mbox \<Rightarrow> label thread_code" where
  "timer_thread1 mb =
     \<lparr>th_mbox = mb,
      th_setup = [T_Mail (Call_New mb QUEUE_SIZE), T_Mail (Call_Register mb RECURRING_TIMER),
        T_Mail (Call_Register mb EXIT_THREAD)],
      th_loops = True, th_handle = timer_loop1, th_show = show_label,
      th_finish = [T_Mail (Call_Unregister mb RECURRING_TIMER), T_Mail (Call_Unregister mb EXIT_THREAD)],
      th_joins = [], th_close = [T_Mail (Call_Destroy mb)]\<rparr>"

definition timer_loop2 :: "label \<Rightarrow> action list \<times> bool" where
  "timer_loop2 l =
     (if l = ONE_SHOT_TIMER then ([Show, Release], False)
      else if 5 \<le> l \<and> l \<le> 45 then
        ([Show, Release] @ (if l = 45 then [Act (T_Mail (Call_SendSignal DONE))] else []), False)
      else if l = EXIT_THREAD then ([Show, Release], True)
      else ([], False))"

text \<open>The loops over the labels 5 to 45; the second one registers where it should unregister.\<close>

definition labels_from_5 :: "nat \<Rightarrow> label list" where
  "labels_from_5 n = map of_nat [5..<n]"

definition timer_thread2 :: "mbox \<Rightarrow> label thread_code" where
  "timer_thread2 mb =
     \<lparr>th_mbox = mb,
      th_setup = [T_Mail (Call_New mb QUEUE_SIZE), T_Mail (Call_Register mb ONE_SHOT_TIMER)] @
        map (\<lambda>l. T_Mail (Call_Register mb l)) (labels_from_5 46) @
        [T_Mail (Call_Register mb EXIT_THREAD)],
      th_loops = True, th_handle = timer_loop2, th_show = show_label,
      th_finish = [T_Mail (Call_Unregister mb ONE_SHOT_TIMER)] @
        map (\<lambda>l. T_Mail (Call_Register mb l)) (labels_from_5 45) @
        [T_Mail (Call_Unregister mb EXIT_THREAD)],
      th_joins = [], th_close = [T_Mail (Call_Destroy mb)]\<rparr>"

section \<open>main\<close>

text \<open>A duration in milliseconds, as \<^verbatim>\<open>StartTimer\<close> converts it.\<close>

definition msec :: "int \<Rightarrow> timespec" where
  "msec n = the (Chrono2Timespec 1000 n)"

definition timer_main_loop :: "label \<Rightarrow> action list \<times> bool" where
  "timer_main_loop l =
     (if l = DONE then ([Act (T_Cancel RECURRING_TIMER), Release], True) else ([Release], False))"

definition timer_main_init ::
  "('r, 'k) platform \<Rightarrow> (addr \<times> (label \<Rightarrow> addr)) option \<Rightarrow> mbox \<Rightarrow> ('r, 'k) tsys \<Rightarrow>
    fault + (bool \<times> ('r, 'k) tsys)" where
  "timer_main_init pf fresh mb s =
     msglib_Initialize_default (pl_posix pf) fresh (pl_lib pf)
       (set_world (Mailbox_default mb (s_world (t_sys s))) s)"

definition timer_main :: "mbox \<Rightarrow> label thread_code" where
  "timer_main mb =
     \<lparr>th_mbox = mb,
      th_setup = [T_Start RECURRING_TIMER \<lparr>tv_sec = 0, tv_nsec = 750 * 1000000\<rparr> PERIODIC] @
        map (\<lambda>x. T_Start x (msec 100) ONE_SHOT) (labels_from_5 46) @
        [T_Start ONE_SHOT_TIMER (msec 900) ONE_SHOT, T_Mail (Call_Register mb DONE)],
      th_loops = True, th_handle = timer_main_loop, th_show = show_label,
      th_finish = [T_Mail (Call_SendSignal EXIT_THREAD)],
      th_joins = [1, 2], th_close = [T_Mail (Call_Destroy mb)]\<rparr>"

definition timer_codes :: "(nat \<Rightarrow> mbox) \<Rightarrow> label thread_code list" where
  "timer_codes mb = [timer_main (mb 0), timer_thread1 (mb 1), timer_thread2 (mb 2)]"

text \<open>The times are what the program writes, and the calls are those of the overload it uses.\<close>

lemma msec_eq:
  assumes "0 \<le> n" and "n < 1000"
  shows "Chrono2Timespec 1000 n = Some (msec n)" and "msec n = \<lparr>tv_sec = 0, tv_nsec = n * 1000000\<rparr>"
proof -
  have "gcd NANO 1000 = 1000" by (simp add: NANO_def gcd_proj2_iff)
  then have "Chrono2Timespec 1000 n = Some \<lparr>tv_sec = 0, tv_nsec = n * 1000000\<rparr>"
    using assms by (simp add: Chrono2Timespec_def cast_seconds_def cast_nanoseconds_def sdiv_nonneg
        int64_def in_int64_def NANO_def)
  then show "Chrono2Timespec 1000 n = Some (msec n)" "msec n = \<lparr>tv_sec = 0, tv_nsec = n * 1000000\<rparr>"
    by (simp_all add: msec_def)
qed

lemma start_msec:
  "0 \<le> n \<Longrightarrow> n < 1000 \<Longrightarrow> TimerManager_StartTimer_duration px l 1000 n type s =
     Some (tsys_exec px expire lib (T_Start l (msec n) type) s)"
  by (simp add: TimerManager_StartTimer_duration_def msec_eq(1) TimerManager_StartTimer_timespec_def)

end
