(* ===== verification/TimerInv.thy ===== *)
theory TimerInv
  imports TimerExample ProgramInv
begin

text \<open>
  The invariant of \<^verbatim>\<open>example/timer.cpp\<close> over all schedules: who can be registered for what, which
  mailboxes exist, which messages are held. The mailboxes that \<^verbatim>\<open>main\<close> and thread 2 destroy while
  they are registered stay in a ghost state.
\<close>

section \<open>Labels\<close>

definition threads :: "nat set" where "threads = {0, 1, 2}"

lemma threads_cases: "i \<in> threads \<Longrightarrow> (i = 0 \<Longrightarrow> P) \<Longrightarrow> (i = 1 \<Longrightarrow> P) \<Longrightarrow> (i = 2 \<Longrightarrow> P) \<Longrightarrow> P"
  by (auto simp: threads_def)

lemma threads_simps [simp]: "finite threads" "0 \<in> threads" "Suc 0 \<in> threads" "2 \<in> threads"
  by (simp_all add: threads_def)

text \<open>The labels a thread never unregisters from, and those it does.\<close>

definition keeps :: "nat \<Rightarrow> label \<Rightarrow> bool" where
  "keeps i l \<longleftrightarrow> i = 0 \<and> l = DONE \<or> i = 2 \<and> 5 \<le> l \<and> l \<le> 45"

definition leaves :: "nat \<Rightarrow> label \<Rightarrow> bool" where
  "leaves i l \<longleftrightarrow> i = 1 \<and> l = RECURRING_TIMER \<or> i = 2 \<and> l = ONE_SHOT_TIMER \<or>
     (i = 1 \<or> i = 2) \<and> l = EXIT_THREAD"

text \<open>Whether it has unregistered, and whether it has yet to register.\<close>

fun released :: "mbox \<Rightarrow> label \<Rightarrow> thread_pc \<Rightarrow> bool" where
  "released m l (Setup cs) \<longleftrightarrow> False"
| "released m l Loop \<longleftrightarrow> False"
| "released m l (Handling msg acts brk) \<longleftrightarrow> False"
| "released m l (Finish cs) \<longleftrightarrow> T_Mail (Call_Unregister m l) \<notin> set cs"
| "released m l pc \<longleftrightarrow> True"

fun awaits :: "mbox \<Rightarrow> label \<Rightarrow> thread_pc \<Rightarrow> bool" where
  "awaits m l (Setup cs) \<longleftrightarrow> T_Mail (Call_Register m l) \<in> set cs"
| "awaits m l pc \<longleftrightarrow> False"

lemma keeps_unique: "keeps i l \<Longrightarrow> keeps j l \<or> leaves j l \<Longrightarrow> j = i"
  by (auto simp: keeps_def leaves_def timer_labels word_le_nat_alt)

section \<open>The code of the threads\<close>

lemma timer_codes_simps [simp]:
  "timer_codes mb ! 0 = timer_main (mb 0)" "timer_codes mb ! Suc 0 = timer_thread1 (mb 1)"
  "timer_codes mb ! 2 = timer_thread2 (mb 2)" "length (timer_codes mb) = 3"
  by (simp_all add: timer_codes_def eval_nat_numeral)

lemma labels_from_5_keeps: "l \<in> set (labels_from_5 n) \<Longrightarrow> n \<le> 46 \<Longrightarrow> 5 \<le> l \<and> l \<le> 45"
proof -
  assume "l \<in> set (labels_from_5 n)" "n \<le> 46"
  then obtain k where "l = of_nat k" "5 \<le> k" "k \<le> 45" by (auto simp: labels_from_5_def)
  then show ?thesis by (auto simp: word_le_nat_alt unat_of_nat)
qed

lemma labels_from_5_bound: "l \<in> set (labels_from_5 n) \<Longrightarrow> n \<le> 46 \<Longrightarrow> unat l < n"
proof -
  assume "l \<in> set (labels_from_5 n)" "n \<le> 46"
  then obtain k where "l = of_nat k" "k < n" "k < 46" by (auto simp: labels_from_5_def)
  then show ?thesis by (simp add: unat_of_nat)
qed

lemma labels_from_5_last: "l \<in> set (labels_from_5 45) \<Longrightarrow> l \<noteq> 45"
  using labels_from_5_bound [of l 45] by auto

lemma labels_from_5_all: "5 \<le> l \<Longrightarrow> l \<le> 45 \<Longrightarrow> l \<in> set (labels_from_5 46)"
proof -
  assume "5 \<le> l" and "l \<le> 45"
  then have "5 \<le> unat l" "unat l < 46" by (simp_all add: word_le_nat_alt)
  then have "unat l \<in> set [5..<46]" unfolding set_upt by (intro atLeastLessThan_iff [THEN iffD2] conjI)
  then have "of_nat (unat l) \<in> set (labels_from_5 46)"
    unfolding labels_from_5_def set_map by (rule imageI)
  then show ?thesis by simp
qed

lemma thread_code:
  assumes "i \<in> threads"
  shows "th_mbox (timer_codes mb ! i) = mb i" "th_loops (timer_codes mb ! i)"
    "th_close (timer_codes mb ! i) = [T_Mail (Call_Destroy (mb i))]"
    "th_joins (timer_codes mb ! i) = (if i = 0 then [1, 2] else [])"
  by (rule threads_cases [OF assms]; simp add: timer_main_def timer_thread1_def timer_thread2_def)+

lemma suffix_set: "suffix (c # cs) xs \<Longrightarrow> c \<in> set xs \<and> set cs \<subseteq> set xs"
  by (auto simp: suffix_def)

lemma valid_msec: "0 \<le> n \<Longrightarrow> n < 1000 \<Longrightarrow> valid_timespec (msec n)"
  by (simp add: msec_eq valid_timespec_def NANO_def)

lemma setup_call:
  assumes i: "i \<in> threads" and c: "suffix (c # cs) (th_setup (timer_codes mb ! i))"
  obtains (new) "i \<noteq> 0" "c = T_Mail (Call_New (mb i) QUEUE_SIZE)" "alive (mb i) (Setup cs)"
    | (register) l where "c = T_Mail (Call_Register (mb i) l)" "keeps i l \<or> leaves i l"
      "alive (mb i) (Setup (c # cs))"
    | (start) l time type where "i = 0" "c = T_Start l time type" "valid_timespec time"
      "l \<noteq> DONE" "l = 45 \<longrightarrow> type = ONE_SHOT"
proof (cases "i = 0")
  case True
  have *: "c = T_Start l time type \<Longrightarrow> thesis"
    if "valid_timespec time" "l \<noteq> DONE" "l = 45 \<longrightarrow> type = ONE_SHOT" for l time type
    using start [OF True _ that] .
  have small: "l \<noteq> DONE" if "l \<in> set (labels_from_5 46)" for l
    using labels_from_5_keeps [OF that] by (auto simp: timer_labels word_le_nat_alt)
  have "valid_timespec \<lparr>tv_sec = 0, tv_nsec = 750 * 1000000\<rparr>"
    by (simp add: valid_timespec_def NANO_def)
  moreover have "T_Mail (Call_New (mb 0) QUEUE_SIZE) \<notin> set (c # cs)"
    using suffix_set [OF c] True by (auto simp: timer_main_def)
  ultimately show thesis
    using suffix_set [OF c] True register * valid_msec [of 100] valid_msec [of 900] small
    by (auto simp: timer_main_def keeps_def timer_labels)
next
  case False
  let ?rest = "tl (th_setup (timer_codes mb ! i))"
  have s: "th_setup (timer_codes mb ! i) = T_Mail (Call_New (mb i) QUEUE_SIZE) # ?rest"
    "\<And>x. x \<in> set ?rest \<Longrightarrow> \<exists>l. x = T_Mail (Call_Register (mb i) l) \<and> (keeps i l \<or> leaves i l)"
    using False i labels_from_5_keeps [of _ 46]
    by (auto simp: threads_def timer_thread1_def timer_thread2_def keeps_def leaves_def)
  from c have "c # cs = T_Mail (Call_New (mb i) QUEUE_SIZE) # ?rest \<or> suffix (c # cs) ?rest"
    by (subst (asm) s(1)) (simp add: suffix_Cons)
  then show thesis
  proof
    assume "c # cs = T_Mail (Call_New (mb i) QUEUE_SIZE) # ?rest"
    then show thesis using new False s(2) by fastforce
  next
    assume "suffix (c # cs) ?rest"
    from suffix_set [OF this] show thesis using register s(2) by fastforce
  qed
qed

lemma finish_call:
  assumes "i \<in> threads" and "suffix (c # cs) (th_finish (timer_codes mb ! i))"
  obtains (signal) "i = 0" "c = T_Mail (Call_SendSignal EXIT_THREAD)"
    | (unregister) l where "i \<noteq> 0" "c = T_Mail (Call_Unregister (mb i) l)" "leaves i l"
    | (register) l where "i = 2" "c = T_Mail (Call_Register (mb i) l)" "keeps i l" "l \<noteq> 45"
  using assms suffix_set [OF assms(2)] labels_from_5_keeps [of _ 45] labels_from_5_last that
  by (auto simp: threads_def timer_main_def timer_thread1_def timer_thread2_def leaves_def keeps_def)

lemma finish_start:
  "i \<in> threads \<Longrightarrow> leaves i l \<Longrightarrow> \<not> released (mb i) l (Finish (th_finish (timer_codes mb ! i)))"
  by (auto simp: threads_def leaves_def timer_thread1_def timer_thread2_def)

lemma handle_call:
  assumes "i \<in> threads" and "suffix (a # acts) (fst (th_handle (timer_codes mb ! i) l))"
  obtains (shown) "a = Show"
    | (release) "a = Release" "Release \<notin> set acts"
    | (cancel) "i = 0" "a = Act (T_Cancel RECURRING_TIMER)"
    | (signal) "i = 2" "a = Act (T_Mail (Call_SendSignal DONE))" "acts = []"
  using assms that
  by (auto simp: threads_def timer_main_def timer_thread1_def timer_thread2_def timer_main_loop_def
      timer_loop1_def timer_loop2_def suffix_Cons split: if_splits)

section \<open>The invariant\<close>

text \<open>Whoever is registered for a label keeps it, or has not released it yet; who keeps it is there.\<close>

definition seats ::
  "(nat \<Rightarrow> mbox) \<Rightarrow> (label \<Rightarrow> mbox option list) \<Rightarrow> (nat \<Rightarrow> thread_pc) \<Rightarrow> bool" where
  "seats mb slots pcs \<longleftrightarrow> (\<forall>l. slots l \<noteq> [] \<and>
     (\<forall>m. Some m \<in> set (slots l) \<longrightarrow>
        (\<exists>i \<in> threads. m = mb i \<and> (keeps i l \<or> leaves i l \<and> \<not> released m l (pcs i)))) \<and>
     (\<forall>i \<in> threads. keeps i l \<and> \<not> awaits (mb i) l (pcs i) \<longrightarrow> Some (mb i) \<in> set (slots l)))"

text \<open>The mailboxes of \<^verbatim>\<open>main\<close> and thread 2 are destroyed while they are registered.\<close>

definition left_behind :: "(nat \<Rightarrow> mbox) \<Rightarrow> (nat \<Rightarrow> thread_pc) \<Rightarrow> mbox set" where
  "left_behind mb pcs = mb ` {i \<in> {0, 2}. gone (pcs i)}"

definition boxes ::
  "(nat \<Rightarrow> mbox) \<Rightarrow> (mbox \<Rightarrow> payload list option) \<Rightarrow> (nat \<Rightarrow> thread_pc) \<Rightarrow> bool" where
  "boxes mb V pcs \<longleftrightarrow>
     (\<forall>i \<in> threads. V (mb i) \<noteq> None \<longleftrightarrow> alive (mb i) (pcs i) \<or> i \<noteq> 1 \<and> gone (pcs i))"

fun past_join :: "thread_pc \<Rightarrow> bool" where
  "past_join (Closing cs) \<longleftrightarrow> True"
| "past_join Returned \<longleftrightarrow> True"
| "past_join pc \<longleftrightarrow> False"

definition joined :: "(nat \<Rightarrow> thread_pc) \<Rightarrow> bool" where
  "joined pcs \<longleftrightarrow> (past_join (pcs 0) \<longrightarrow> pcs 1 = Returned \<and> pcs 2 = Returned)"

definition in_hands :: "(nat \<Rightarrow> thread_pc) \<Rightarrow> Message multiset" where
  "in_hands pcs = (\<Sum>i \<in> threads. holds (pcs i))"

definition timer_demo_inv ::
  "('r \<Rightarrow> blocks \<Rightarrow> bool) \<Rightarrow> ('k \<Rightarrow> nat \<Rightarrow> addr option) \<Rightarrow> ('k \<Rightarrow> nat \<Rightarrow> itimerspec option) \<Rightarrow>
    ('k \<Rightarrow> (nat \<times> addr) list) \<Rightarrow> (nat \<Rightarrow> mbox) \<Rightarrow> ('r, 'k, label) prog \<Rightarrow> ('r, 'k) tsys \<Rightarrow> bool" where
  "timer_demo_inv owns live armed pending mb p gs \<longleftrightarrow>
     tsys_inv owns live armed pending gs \<and> pr_sys p = over_hidden (left_behind mb (pr_pcs p)) gs \<and>
     seats mb (a_slots (abstract (t_sys gs))) (pr_pcs p) \<and>
     boxes mb (a_queues (abstract (t_sys gs))) (pr_pcs p) \<and>
     (\<forall>i \<in> threads. code_pc (timer_codes mb ! i) (pr_pcs p i)) \<and>
     in_hands (pr_pcs p) \<subseteq># mset (s_held (t_sys gs)) \<and> joined (pr_pcs p)"

lemma timer_demo_invD:
  assumes "timer_demo_inv owns live armed pending mb p gs"
  shows "tsys_inv owns live armed pending gs" "pr_sys p = over_hidden (left_behind mb (pr_pcs p)) gs"
    "seats mb (a_slots (abstract (t_sys gs))) (pr_pcs p)"
    "boxes mb (a_queues (abstract (t_sys gs))) (pr_pcs p)"
    "i \<in> threads \<Longrightarrow> code_pc (timer_codes mb ! i) (pr_pcs p i)"
    "in_hands (pr_pcs p) \<subseteq># mset (s_held (t_sys gs))" "joined (pr_pcs p)"
  using assms by (simp_all add: timer_demo_inv_def)

lemma timer_demo_next:
  assumes "timer_demo_inv owns live armed pending mb p gs" and "tsys_inv owns live armed pending gs'"
    and "s' = over_hidden (left_behind mb ((pr_pcs p)(i := pc))) gs'"
    and "seats mb (a_slots (abstract (t_sys gs'))) ((pr_pcs p)(i := pc))"
    and "boxes mb (a_queues (abstract (t_sys gs'))) ((pr_pcs p)(i := pc))"
    and "code_pc (timer_codes mb ! i) pc"
    and "in_hands ((pr_pcs p)(i := pc)) \<subseteq># mset (s_held (t_sys gs'))"
    and "joined ((pr_pcs p)(i := pc))"
  shows "timer_demo_inv owns live armed pending mb (pr_goto i pc (p\<lparr>pr_sys := s'\<rparr>)) gs'"
  using assms by (simp add: timer_demo_inv_def)

section \<open>What the moves do to the parts of the invariant\<close>

text \<open>Thread \<open>i\<close> moves to \<open>pc\<close>; the slots lose entries of its mailbox only, or gain one it may have.\<close>

lemma seats_update:
  assumes inv: "seats mb slots pcs" and ne: "\<And>l. slots' l \<noteq> []"
    and up: "\<And>l m. Some m \<in> set (slots' l) \<Longrightarrow> m \<noteq> mb i \<Longrightarrow> Some m \<in> set (slots l)"
    and mine: "\<And>l. Some (mb i) \<in> set (slots' l) \<Longrightarrow> i \<in> threads \<and> (keeps i l \<or> leaves i l \<and> \<not> released (mb i) l pc)"
    and low: "\<And>l m. Some m \<in> set (slots l) \<Longrightarrow> m \<noteq> mb i \<Longrightarrow> Some m \<in> set (slots' l)"
    and stay: "\<And>l. i \<in> threads \<Longrightarrow> keeps i l \<Longrightarrow> \<not> awaits (mb i) l pc \<Longrightarrow> Some (mb i) \<in> set (slots' l)"
    and mb: "inj mb"
  shows "seats mb slots' (pcs(i := pc))"
  unfolding seats_def
proof (intro allI conjI ballI impI)
  fix l m assume m: "Some m \<in> set (slots' l)"
  show "\<exists>j \<in> threads. m = mb j \<and> (keeps j l \<or> leaves j l \<and> \<not> released m l ((pcs(i := pc)) j))"
  proof (cases "m = mb i")
    case True
    then show ?thesis using mine m by (intro bexI [of _ i]) auto
  next
    case False
    then have "Some m \<in> set (slots l)" by (rule up [OF m])
    then obtain j where "j \<in> threads" "m = mb j" "keeps j l \<or> leaves j l \<and> \<not> released m l (pcs j)"
      using inv unfolding seats_def by blast
    then show ?thesis using False by (intro bexI [of _ j]) auto
  qed
next
  fix l j assume j: "j \<in> threads" "keeps j l \<and> \<not> awaits (mb j) l ((pcs(i := pc)) j)"
  show "Some (mb j) \<in> set (slots' l)"
  proof (cases "j = i")
    case True
    then show ?thesis using stay j by simp
  next
    case False
    then have "Some (mb j) \<in> set (slots l)" using inv j by (simp add: seats_def)
    then show ?thesis using False mb by (intro low) (auto dest: injD)
  qed
qed (rule ne)

lemma seats_mine:
  "seats mb slots pcs \<Longrightarrow> inj mb \<Longrightarrow> Some (mb i) \<in> set (slots l) \<Longrightarrow>
     i \<in> threads \<and> (keeps i l \<or> leaves i l \<and> \<not> released (mb i) l (pcs i))"
  unfolding seats_def by (metis injD)

lemma seats_kept:
  "seats mb slots pcs \<Longrightarrow> i \<in> threads \<Longrightarrow> keeps i l \<Longrightarrow> \<not> awaits (mb i) l (pcs i) \<Longrightarrow>
     Some (mb i) \<in> set (slots l)"
  by (simp add: seats_def)

lemma tseats_goto:
  assumes inv: "seats mb slots pcs" and mb: "inj mb"
    and "\<And>l. leaves i l \<Longrightarrow> released (mb i) l pc \<Longrightarrow> released (mb i) l (pcs i)"
    and "\<And>l. keeps i l \<Longrightarrow> awaits (mb i) l (pcs i) \<Longrightarrow> awaits (mb i) l pc"
  shows "seats mb slots (pcs(i := pc))"
proof (rule seats_update [OF inv _ _ _ _ _ mb])
  show "i \<in> threads \<and> (keeps i l \<or> leaves i l \<and> \<not> released (mb i) l pc)"
    if "Some (mb i) \<in> set (slots l)" for l
    using seats_mine [OF inv mb that] assms(3) by blast
  show "Some (mb i) \<in> set (slots l)" if "i \<in> threads" "keeps i l" "\<not> awaits (mb i) l pc" for l
    using seats_kept [OF inv that(1,2)] assms(4) that by blast
qed (use inv in \<open>simp_all add: seats_def\<close>)

lemma tseats_register:
  assumes inv: "seats mb slots pcs" and mb: "inj mb" and i: "i \<in> threads"
    and add: "add_loop (Some (mb i)) (slots l) = (ok, rs)"
    and "keeps i l \<or> leaves i l \<and> \<not> released (mb i) l pc"
    and "\<And>k. leaves i k \<Longrightarrow> released (mb i) k pc \<Longrightarrow> released (mb i) k (pcs i)"
    and "\<And>k. keeps i k \<Longrightarrow> k \<noteq> l \<Longrightarrow> awaits (mb i) k (pcs i) \<Longrightarrow> awaits (mb i) k pc"
  shows "seats mb (slots(l := rs)) (pcs(i := pc))"
proof (rule seats_update [OF inv _ _ _ _ _ mb])
  have rs: "rs \<noteq> []" "set rs \<subseteq> insert (Some (mb i)) (set (slots l))"
      "\<And>m. Some m \<in> set (slots l) \<Longrightarrow> Some m \<in> set rs"
      "None \<in> set (slots l) \<Longrightarrow> Some (mb i) \<in> set rs" "None \<notin> set (slots l) \<Longrightarrow> rs = slots l"
    using add inv by (cases rule: add_loop_cases [of "slots l" "Some (mb i)"]; auto simp: seats_def)+
  show "(slots(l := rs)) k \<noteq> []" for k using rs(1) inv by (simp add: seats_def)
  show "Some m \<in> set (slots k)" if "Some m \<in> set ((slots(l := rs)) k)" "m \<noteq> mb i" for k m
    using that rs(2) by (auto split: if_splits)
  show "Some m \<in> set ((slots(l := rs)) k)" if "Some m \<in> set (slots k)" for k m
    using that rs(3) by auto
  show "i \<in> threads \<and> (keeps i k \<or> leaves i k \<and> \<not> released (mb i) k pc)"
    if "Some (mb i) \<in> set ((slots(l := rs)) k)" for k
    using that i assms(5,6) seats_mine [OF inv mb, of i k] by (auto split: if_splits)
  show "Some (mb i) \<in> set ((slots(l := rs)) k)" if k: "keeps i k" "\<not> awaits (mb i) k pc" for k
  proof (cases "k = l")
    case False
    then show ?thesis using seats_kept [OF inv i k(1)] assms(7) k by auto
  next
    case True
    have "Some (mb i) \<in> set rs"
    proof (cases "None \<in> set (slots l)")
      case False
      have "hd (slots l) \<in> set (slots l)" using inv by (simp add: seats_def)
      with False obtain m where m: "Some m \<in> set (slots l)" by (cases "hd (slots l)") auto
      then obtain j where "m = mb j" "keeps j l \<or> leaves j l" using inv unfolding seats_def by blast
      then show ?thesis using keeps_unique [of i l j] k(1) True m rs(3) by blast
    qed (rule rs(4))
    then show ?thesis using True by simp
  qed
qed

lemma tseats_unregister:
  assumes inv: "seats mb slots pcs" and mb: "inj mb" and l: "leaves i l"
    and "\<And>k. awaits (mb i) k pc = awaits (mb i) k (pcs i)"
    and "\<And>k. leaves i k \<Longrightarrow> k \<noteq> l \<Longrightarrow> released (mb i) k pc \<Longrightarrow> released (mb i) k (pcs i)"
  shows "seats mb (slots(l := map (\<lambda>r. if r = Some (mb i) then None else r) (slots l))) (pcs(i := pc))"
proof (rule seats_update [OF inv _ _ _ _ _ mb])
  let ?slots = "slots(l := map (\<lambda>r. if r = Some (mb i) then None else r) (slots l))"
  show "?slots k \<noteq> []" for k using inv by (simp add: seats_def)
  show "i \<in> threads \<and> (keeps i k \<or> leaves i k \<and> \<not> released (mb i) k pc)"
    if "Some (mb i) \<in> set (?slots k)" for k
    using that seats_mine [OF inv mb, of i k] assms(5) by (auto split: if_splits)
  show "Some (mb i) \<in> set (?slots k)" if "i \<in> threads" "keeps i k" "\<not> awaits (mb i) k pc" for k
  proof -
    have "\<not> keeps i l" using l by (auto simp: leaves_def keeps_def timer_labels word_le_nat_alt)
    then show ?thesis using seats_kept [OF inv that(1,2)] that assms(4) by auto
  qed
qed (auto split: if_splits)

lemma tboxes_goto:
  assumes "boxes mb V pcs" and "\<And>m. (V' m = None) = (V m = None)" and "alive (mb i) pc = alive (mb i) (pcs i)"
    and "gone pc = gone (pcs i)"
  shows "boxes mb V' (pcs(i := pc))"
  using assms by (auto simp: boxes_def)

lemma left_goto: "(i \<noteq> 1 \<Longrightarrow> gone pc = gone (pcs i)) \<Longrightarrow> left_behind mb (pcs(i := pc)) = left_behind mb pcs"
  by (auto simp: left_behind_def)

lemma in_hands_update: "i \<in> threads \<Longrightarrow> in_hands (pcs(i := pc)) + holds (pcs i) = in_hands pcs + holds pc"
proof -
  assume i: "i \<in> threads"
  have "(\<Sum>j \<in> threads - {i}. holds ((pcs(i := pc)) j)) = (\<Sum>j \<in> threads - {i}. holds (pcs j))"
    by (rule sum.cong) auto
  then show ?thesis using i by (simp add: in_hands_def sum.remove [of threads i])
qed

lemma in_hands_goto: "i \<in> threads \<Longrightarrow> holds pc = holds (pcs i) \<Longrightarrow> in_hands (pcs(i := pc)) = in_hands pcs"
  using in_hands_update [of i pcs pc] by simp

lemma joined_goto:
  "joined pcs \<Longrightarrow> i \<in> threads \<Longrightarrow> pcs i \<noteq> Returned \<Longrightarrow>
     (i = 0 \<Longrightarrow> past_join pc \<Longrightarrow> past_join (pcs 0) \<or> pcs 1 = Returned \<and> pcs 2 = Returned) \<Longrightarrow>
     joined (pcs(i := pc))"
  by (auto simp: joined_def threads_def)

section \<open>Steps\<close>

definition good_platform ::
  "('r, 'k) platform \<Rightarrow> ('r \<Rightarrow> blocks \<Rightarrow> bool) \<Rightarrow> ('k \<Rightarrow> nat \<Rightarrow> addr option) \<Rightarrow>
    ('k \<Rightarrow> nat \<Rightarrow> itimerspec option) \<Rightarrow> ('k \<Rightarrow> (nat \<times> addr) list) \<Rightarrow> bool" where
  "good_platform pf owns live armed pending \<longleftrightarrow> mailbox_lib (pl_lib pf) owns \<and>
     posix_timers (pl_posix pf) (pl_expire pf) live armed pending"

text \<open>A move without a call, and one with a call that neither receives nor releases.\<close>

lemma demo_move:
  assumes inv: "timer_demo_inv owns live armed pending mb p gs" and mb: "inj mb" and i: "i \<in> threads"
    and "pr_pcs p i \<noteq> Returned" and "gone pc = gone (pr_pcs p i)" and "alive (mb i) pc = alive (mb i) (pr_pcs p i)"
    and "code_pc (timer_codes mb ! i) pc" and "holds pc = holds (pr_pcs p i)"
    and "i = 0 \<Longrightarrow> past_join pc \<Longrightarrow>
      past_join (pr_pcs p 0) \<or> pr_pcs p 1 = Returned \<and> pr_pcs p 2 = Returned"
    and "\<And>l. leaves i l \<Longrightarrow> released (mb i) l pc \<Longrightarrow> released (mb i) l (pr_pcs p i)"
    and "\<And>l. keeps i l \<Longrightarrow> awaits (mb i) l (pr_pcs p i) \<Longrightarrow> awaits (mb i) l pc"
  shows "timer_demo_inv owns live armed pending mb (pr_goto i pc p) gs"
proof -
  note I = timer_demo_invD [OF inv]
  have "timer_demo_inv owns live armed pending mb (pr_goto i pc (p\<lparr>pr_sys := pr_sys p\<rparr>)) gs"
    by (rule timer_demo_next [OF inv I(1)])
      (use assms I(2,6) in \<open>simp_all add: left_goto in_hands_goto tseats_goto [OF I(3)]
        tboxes_goto [OF I(4)] joined_goto [OF I(7)]\<close>)
  then show ?thesis by simp
qed

lemma demo_mail:
  assumes inv: "timer_demo_inv owns live armed pending mb p gs"
    and pf: "good_platform pf owns live armed pending" and i: "i \<in> threads"
    and "pr_pcs p i \<noteq> Returned" and ok: "call_ok c (t_sys gs)"
    and un: "unaware (left_behind mb (pr_pcs p)) c (t_sys gs)"
    and c: "\<And>m. c \<noteq> Call_Receive m" "\<And>k. c \<noteq> Call_Release k"
    and "i \<noteq> 1 \<Longrightarrow> gone pc = gone (pr_pcs p i)" and "code_pc (timer_codes mb ! i) pc"
    and "holds pc = holds (pr_pcs p i)" and "i = 0 \<Longrightarrow> past_join pc \<Longrightarrow> past_join (pr_pcs p 0)"
    and eff: "\<And>r b. pubsub_step (abstract (t_sys gs)) c r b \<Longrightarrow>
      seats mb (a_slots b) ((pr_pcs p)(i := pc)) \<and> boxes mb (a_queues b) ((pr_pcs p)(i := pc))"
  obtains p' gs' where "pr_call pf i (T_Mail c) pc p = Inr p'" "timer_demo_inv owns live armed pending mb p' gs'"
proof -
  note I = timer_demo_invD [OF inv]
  from pf have lib: "mailbox_lib (pl_lib pf) owns"
      and px: "posix_timers (pl_posix pf) (pl_expire pf) live armed pending"
    by (simp_all add: good_platform_def)
  from mail_step [OF lib px I(1) ok un] obtain r g' where 1:
      "pl_exec pf (T_Mail c) (over_hidden (left_behind mb (pr_pcs p)) gs) =
        (Inr r, over_hidden (left_behind mb (pr_pcs p)) (gs\<lparr>t_sys := g'\<rparr>))"
      "sys_exec (pl_lib pf) c (t_sys gs) = Inr (r, g')"
      "pubsub_step (abstract (t_sys gs)) c r (abstract g')"
      "tsys_inv owns live armed pending (gs\<lparr>t_sys := g'\<rparr>)" .
  have "timer_demo_inv owns live armed pending mb
      (pr_goto i pc (p\<lparr>pr_sys := over_hidden (left_behind mb (pr_pcs p)) (gs\<lparr>t_sys := g'\<rparr>)\<rparr>)) (gs\<lparr>t_sys := g'\<rparr>)"
    by (rule timer_demo_next [OF inv 1(4)])
      (use assms I(6) eff [OF 1(3)] exec_held [OF 1(2) c] in
        \<open>simp_all add: left_goto in_hands_goto joined_goto [OF I(7)]\<close>)
  then show thesis using that 1(1) I(2) by (simp add: pr_call_def)
qed

lemma left_other: "inj mb \<Longrightarrow> \<not> gone (pcs i) \<Longrightarrow> mb i \<notin> left_behind mb pcs"
  by (auto simp: left_behind_def dest: injD)

lemma demo_initialized:
  "timer_demo_inv owns live armed pending mb p gs \<Longrightarrow> md_initialized (w_data (s_world (t_sys gs)))"
  by (auto simp: timer_demo_inv_def tsys_inv_def)

lemma demo_box:
  assumes "timer_demo_inv owns live armed pending mb p gs" and "i \<in> threads" and "\<not> gone (pr_pcs p i)"
  shows "w_queues (s_world (t_sys gs)) (mb i) \<noteq> None \<longleftrightarrow> alive (mb i) (pr_pcs p i)"
  using timer_demo_invD(4) [OF assms(1)] assms(2,3) by (auto simp: boxes_def abstract_def view_def)

lemma demo_new:
  assumes inv: "timer_demo_inv owns live armed pending mb p gs" and mb: "inj mb"
    and pf: "good_platform pf owns live armed pending" and i: "i \<in> threads" "i \<noteq> 0"
    and pc: "pr_pcs p i = Setup (T_Mail (Call_New (mb i) QUEUE_SIZE) # cs)"
    and suf: "suffix cs (th_setup (timer_codes mb ! i))" and new: "alive (mb i) (Setup cs)"
  obtains p' gs' where "pr_call pf i (T_Mail (Call_New (mb i) QUEUE_SIZE)) (Setup cs) p = Inr p'"
    "timer_demo_inv owns live armed pending mb p' gs'"
proof (rule demo_mail [OF inv pf i(1)])
  note I = timer_demo_invD [OF inv]
  show "call_ok (Call_New (mb i) QUEUE_SIZE) (t_sys gs)"
    using demo_box [OF inv i(1)] pc by simp
  show "unaware (left_behind mb (pr_pcs p)) (Call_New (mb i) QUEUE_SIZE) (t_sys gs)"
    using left_other [OF mb, of "pr_pcs p" i] pc by (auto simp: unaware_def)
  fix r b assume "pubsub_step (abstract (t_sys gs)) (Call_New (mb i) QUEUE_SIZE) r b"
  then have b: "a_slots b = a_slots (abstract (t_sys gs))"
      "a_queues b = (a_queues (abstract (t_sys gs)))(mb i \<mapsto> [])"
    by (auto elim!: pubsub_newE)
  show "seats mb (a_slots b) ((pr_pcs p)(i := Setup cs)) \<and> boxes mb (a_queues b) ((pr_pcs p)(i := Setup cs))"
    using tseats_goto [OF I(3) mb, of i "Setup cs"] I(4) pc new mb
    by (auto simp: b boxes_def dest: injD)
qed (use pc suf that in simp_all)

lemma demo_register:
  assumes inv: "timer_demo_inv owns live armed pending mb p gs" and mb: "inj mb"
    and pf: "good_platform pf owns live armed pending" and i: "i \<in> threads"
    and pc: "\<not> gone (pr_pcs p i)" "alive (mb i) (pr_pcs p i)" "alive (mb i) pc" "\<not> gone pc"
      "code_pc (timer_codes mb ! i) pc" "holds pc = holds (pr_pcs p i)" "\<not> past_join pc"
    and l: "keeps i l \<or> leaves i l \<and> \<not> released (mb i) l pc"
      "\<And>k. leaves i k \<Longrightarrow> released (mb i) k pc \<Longrightarrow> released (mb i) k (pr_pcs p i)"
      "\<And>k. keeps i k \<Longrightarrow> k \<noteq> l \<Longrightarrow> awaits (mb i) k (pr_pcs p i) \<Longrightarrow> awaits (mb i) k pc"
  obtains p' gs' where "pr_call pf i (T_Mail (Call_Register (mb i) l)) pc p = Inr p'"
    "timer_demo_inv owns live armed pending mb p' gs'"
proof (rule demo_mail [OF inv pf i])
  note I = timer_demo_invD [OF inv]
  show "call_ok (Call_Register (mb i) l) (t_sys gs)"
    using demo_box [OF inv i pc(1)] demo_initialized [OF inv] pc(2) by simp
  fix r b assume "pubsub_step (abstract (t_sys gs)) (Call_Register (mb i) l) r b"
  then obtain rs where b: "add_loop (Some (mb i)) (a_slots (abstract (t_sys gs)) l) = (r, rs)"
      "a_slots b = (a_slots (abstract (t_sys gs)))(l := rs)" "a_queues b = a_queues (abstract (t_sys gs))"
    by (auto elim!: pubsub_registerE)
  show "seats mb (a_slots b) ((pr_pcs p)(i := pc)) \<and> boxes mb (a_queues b) ((pr_pcs p)(i := pc))"
    using tseats_register [OF I(3) mb i b(1) l] tboxes_goto [OF I(4), of "a_queues b" i pc] pc by (simp add: b)
qed (use pc that in \<open>auto simp: unaware_def\<close>)

lemma demo_unregister:
  assumes inv: "timer_demo_inv owns live armed pending mb p gs" and mb: "inj mb"
    and pf: "good_platform pf owns live armed pending" and i: "i \<in> threads"
    and pc: "pr_pcs p i = Finish (T_Mail (Call_Unregister (mb i) l) # cs)"
    and suf: "suffix cs (th_finish (timer_codes mb ! i))" and l: "leaves i l"
  obtains p' gs' where "pr_call pf i (T_Mail (Call_Unregister (mb i) l)) (Finish cs) p = Inr p'"
    "timer_demo_inv owns live armed pending mb p' gs'"
proof (rule demo_mail [OF inv pf i])
  note I = timer_demo_invD [OF inv]
  show "call_ok (Call_Unregister (mb i) l) (t_sys gs)" using demo_initialized [OF inv] by simp
  fix r b assume "pubsub_step (abstract (t_sys gs)) (Call_Unregister (mb i) l) r b"
  then have b: "a_slots b = (a_slots (abstract (t_sys gs)))(l := map (\<lambda>r. if r = Some (mb i)
      then None else r) (a_slots (abstract (t_sys gs)) l))" "a_queues b = a_queues (abstract (t_sys gs))"
    by (auto elim!: pubsub_unregisterE)
  show "seats mb (a_slots b) ((pr_pcs p)(i := Finish cs)) \<and> boxes mb (a_queues b) ((pr_pcs p)(i := Finish cs))"
    using tseats_unregister [OF I(3) mb l, of "Finish cs"] tboxes_goto [OF I(4), of "a_queues b" i "Finish cs"] pc
    by (simp add: b)
qed (use pc suf that in \<open>auto simp: unaware_def\<close>)

lemma seats_signal:
  "pubsub_step a (Call_SendSignal l) r b \<Longrightarrow> a_slots b = a_slots a \<and> (\<forall>m. (a_queues b m = None) = (a_queues a m = None))"
  by (auto elim!: pubsub_signalE)

lemma seats_receive:
  "pubsub_step a (Call_Receive k) r b \<Longrightarrow> a_slots b = a_slots a \<and> (\<forall>m. (a_queues b m = None) = (a_queues a m = None))"
  by (auto elim!: pubsub_receiveE split: if_splits)

lemma seats_release: "pubsub_step a (Call_Release k) r b \<Longrightarrow> a_slots b = a_slots a \<and> a_queues b = a_queues a"
  by (auto elim!: pubsub_releaseE)

text \<open>A signal of a thread does not meet a mailbox that is gone.\<close>

lemma slots_left:
  assumes inv: "timer_demo_inv owns live armed pending mb p gs" and mb: "inj mb"
    and m: "m \<in> left_behind mb (pr_pcs p)" "Some m \<in> set (receivers_of (w_data (s_world (t_sys gs))) l)"
  shows "\<exists>j \<in> {0, 2}. m = mb j \<and> gone (pr_pcs p j) \<and> keeps j l"
proof -
  from m(1) obtain j where j: "j \<in> {0, 2}" "m = mb j" "gone (pr_pcs p j)" by (auto simp: left_behind_def)
  have "released (mb j) l (pr_pcs p j)" using j(3) by (cases "pr_pcs p j") auto
  moreover have "Some (mb j) \<in> set (a_slots (abstract (t_sys gs)) l)" using m(2) j(2) by (simp add: abstract_def)
  ultimately have "keeps j l" using seats_mine [OF timer_demo_invD(3) [OF inv] mb, of j l] by blast
  with j show ?thesis by blast
qed

lemma demo_signal:
  assumes inv: "timer_demo_inv owns live armed pending mb p gs" and mb: "inj mb"
    and pf: "good_platform pf owns live armed pending" and i: "i \<in> threads" "pr_pcs p i \<noteq> Returned"
    and pc: "gone pc = gone (pr_pcs p i)" "alive (mb i) pc = alive (mb i) (pr_pcs p i)"
      "code_pc (timer_codes mb ! i) pc" "holds pc = holds (pr_pcs p i)"
      "past_join pc = past_join (pr_pcs p i)"
      "\<And>l. leaves i l \<Longrightarrow> released (mb i) l pc = released (mb i) l (pr_pcs p i)"
      "\<And>l. awaits (mb i) l pc = awaits (mb i) l (pr_pcs p i)"
    and l: "\<And>j. j \<in> {0, 2} \<Longrightarrow> gone (pr_pcs p j) \<Longrightarrow> \<not> keeps j l"
  obtains p' gs' where "pr_call pf i (T_Mail (Call_SendSignal l)) pc p = Inr p'"
    "timer_demo_inv owns live armed pending mb p' gs'"
proof (rule demo_mail [OF inv pf i])
  note I = timer_demo_invD [OF inv]
  show "call_ok (Call_SendSignal l) (t_sys gs)" using demo_initialized [OF inv] by simp
  show "unaware (left_behind mb (pr_pcs p)) (Call_SendSignal l) (t_sys gs)"
    using slots_left [OF inv mb] l unfolding unaware_def by blast
  fix r b assume "pubsub_step (abstract (t_sys gs)) (Call_SendSignal l) r b"
  from seats_signal [OF this]
  show "seats mb (a_slots b) ((pr_pcs p)(i := pc)) \<and> boxes mb (a_queues b) ((pr_pcs p)(i := pc))"
    using tseats_goto [OF I(3) mb, of i pc] tboxes_goto [OF I(4), of "a_queues b" i pc] pc by simp
qed (use pc that in auto)

lemma demo_receive:
  assumes inv: "timer_demo_inv owns live armed pending mb p gs" and mb: "inj mb"
    and pf: "good_platform pf owns live armed pending" and i: "i \<in> threads" and pc: "pr_pcs p i = Loop"
  obtains p' gs' where "thread_step pf (timer_codes mb ! i) i p = Inr p'"
    "timer_demo_inv owns live armed pending mb p' gs'"
proof -
  note I = timer_demo_invD [OF inv]
  let ?M = "left_behind mb (pr_pcs p)" and ?code = "timer_codes mb ! i"
  from pf have lib: "mailbox_lib (pl_lib pf) owns"
      and px: "posix_timers (pl_posix pf) (pl_expire pf) live armed pending"
    by (simp_all add: good_platform_def)
  have ok: "call_ok (Call_Receive (mb i)) (t_sys gs)" using demo_box [OF inv i] pc by simp
  have un: "unaware ?M (Call_Receive (mb i)) (t_sys gs)"
    using left_other [OF mb, of "pr_pcs p" i] pc by (auto simp: unaware_def)
  from mail_step [OF lib px I(1) ok un] obtain r g' where 1:
      "pl_exec pf (T_Mail (Call_Receive (mb i))) (over_hidden ?M gs) = (Inr r, over_hidden ?M (gs\<lparr>t_sys := g'\<rparr>))"
      "sys_exec (pl_lib pf) (Call_Receive (mb i)) (t_sys gs) = Inr (r, g')"
      "pubsub_step (abstract (t_sys gs)) (Call_Receive (mb i)) r (abstract g')"
      "tsys_inv owns live armed pending (gs\<lparr>t_sys := g'\<rparr>)" .
  show thesis
  proof (cases r)
    case False
    then have "thread_step pf ?code i p = Inr p"
      using 1(1) I(2) pc by (simp add: thread_step_def thread_code [OF i])
    then show thesis using that inv by blast
  next
    case True
    then obtain msg where msg: "s_held g' = s_held (t_sys gs) @ [msg]"
      using 1(2) by (auto simp: and_then_eq_Inr split: option.splits)
    obtain acts brk where h: "th_handle ?code (m_label msg) = (acts, brk)" by fastforce
    let ?pc = "Handling msg acts brk"
    have b: "a_slots (abstract g') = a_slots (abstract (t_sys gs))"
        "\<And>m. (a_queues (abstract g') m = None) = (a_queues (abstract (t_sys gs)) m = None)"
      using seats_receive [OF 1(3)] by simp_all
    have "in_hands ((pr_pcs p)(i := ?pc)) = in_hands (pr_pcs p) + holds ?pc"
      using in_hands_update [OF i, of "pr_pcs p" ?pc] pc by simp
    also have "\<dots> \<subseteq># mset (s_held (t_sys gs)) + {#msg#}"
      by (rule subset_mset.add_mono [OF I(6)]) simp
    finally have "in_hands ((pr_pcs p)(i := ?pc)) \<subseteq># mset (s_held g')" by (simp add: msg)
    moreover have "joined ((pr_pcs p)(i := ?pc))" by (rule joined_goto [OF I(7) i]) (simp_all add: pc)
    moreover have "seats mb (a_slots (abstract (t_sys gs))) ((pr_pcs p)(i := ?pc))"
      by (rule tseats_goto [OF I(3) mb]) (simp_all add: pc)
    ultimately have "timer_demo_inv owns live armed pending mb
        (pr_goto i ?pc (p\<lparr>pr_sys := over_hidden ?M (gs\<lparr>t_sys := g'\<rparr>)\<rparr>)) (gs\<lparr>t_sys := g'\<rparr>)"
      using I(4) pc h thread_code(2) [OF i]
      by (intro timer_demo_next [OF inv 1(4)])
        (simp_all add: left_goto b tboxes_goto [OF I(4)])
    moreover have "thread_step pf ?code i p =
        Inr (pr_goto i ?pc (p\<lparr>pr_sys := over_hidden ?M (gs\<lparr>t_sys := g'\<rparr>)\<rparr>))"
      using 1(1) I(2) pc True msg h by (simp add: thread_step_def thread_code [OF i])
    ultimately show thesis using that by blast
  qed
qed

lemma demo_release:
  assumes inv: "timer_demo_inv owns live armed pending mb p gs" and mb: "inj mb"
    and pf: "good_platform pf owns live armed pending" and i: "i \<in> threads"
    and pc: "pr_pcs p i = Handling msg (Release # acts) brk" and acts: "Release \<notin> set acts"
  obtains p' gs' where
    "pr_call pf i (T_Mail (Call_Release (position msg (s_held (t_sys (pr_sys p)))))) (Handling msg acts brk) p = Inr p'"
    "timer_demo_inv owns live armed pending mb p' gs'"
proof -
  note I = timer_demo_invD [OF inv]
  let ?M = "left_behind mb (pr_pcs p)" and ?held = "s_held (t_sys gs)" and ?pc = "Handling msg acts brk"
  let ?k = "position msg ?held"
  from pf have lib: "mailbox_lib (pl_lib pf) owns"
      and px: "posix_timers (pl_posix pf) (pl_expire pf) live armed pending"
    by (simp_all add: good_platform_def)
  have hands: "in_hands (pr_pcs p) = add_mset msg (in_hands ((pr_pcs p)(i := ?pc)))"
    using in_hands_update [OF i, of "pr_pcs p" ?pc] pc acts by simp
  then have "msg \<in> set ?held" using I(6) by (metis insert_subset_eq_iff set_mset_mset)
  note k = position_nth [OF this]
  have ok: "call_ok (Call_Release ?k) (t_sys gs)" using k by simp
  have un: "unaware ?M (Call_Release ?k) (t_sys gs)" by (simp add: unaware_def)
  from mail_step [OF lib px I(1) ok un] obtain r g' where 1:
      "pl_exec pf (T_Mail (Call_Release ?k)) (over_hidden ?M gs) = (Inr r, over_hidden ?M (gs\<lparr>t_sys := g'\<rparr>))"
      "sys_exec (pl_lib pf) (Call_Release ?k) (t_sys gs) = Inr (r, g')"
      "pubsub_step (abstract (t_sys gs)) (Call_Release ?k) r (abstract g')"
      "tsys_inv owns live armed pending (gs\<lparr>t_sys := g'\<rparr>)" .
  have held: "s_held g' = take ?k ?held @ drop (Suc ?k) ?held" using 1(2) k by auto
  have "mset ?held = add_mset msg (mset (s_held g'))"
    unfolding held using id_take_nth_drop [of ?k ?held] k by (metis mset.simps(2) mset_append union_mset_add_mset_right)
  then have "in_hands ((pr_pcs p)(i := ?pc)) \<subseteq># mset (s_held g')" using I(6) hands by simp
  moreover have b: "a_slots (abstract g') = a_slots (abstract (t_sys gs))"
      "a_queues (abstract g') = a_queues (abstract (t_sys gs))"
    using seats_release [OF 1(3)] by simp_all
  moreover have "code_pc (timer_codes mb ! i) ?pc"
    using I(5) [OF i] pc by (auto dest: suffix_ConsD)
  moreover have "joined ((pr_pcs p)(i := ?pc))" by (rule joined_goto [OF I(7) i]) (simp_all add: pc)
  moreover have "seats mb (a_slots (abstract (t_sys gs))) ((pr_pcs p)(i := ?pc))"
    by (rule tseats_goto [OF I(3) mb]) (simp_all add: pc)
  ultimately have "timer_demo_inv owns live armed pending mb
      (pr_goto i ?pc (p\<lparr>pr_sys := over_hidden ?M (gs\<lparr>t_sys := g'\<rparr>)\<rparr>)) (gs\<lparr>t_sys := g'\<rparr>)"
    using I(4) pc
    by (intro timer_demo_next [OF inv 1(4)])
      (simp_all add: left_goto b tboxes_goto [OF I(4)])
  then show thesis using that 1(1) I(2) by (simp add: pr_call_def)
qed

lemma demo_timer:
  assumes inv: "timer_demo_inv owns live armed pending mb p gs" and mb: "inj mb" and i: "i \<in> threads"
    and call: "pl_exec pf c (over_hidden (left_behind mb (pr_pcs p)) gs) =
        (Inr b, over_hidden (left_behind mb (pr_pcs p)) gs')"
      "tsys_inv owns live armed pending gs'" "t_sys gs' = t_sys gs"
    and pc: "pr_pcs p i \<noteq> Returned" "gone pc = gone (pr_pcs p i)" "alive (mb i) pc = alive (mb i) (pr_pcs p i)"
      "code_pc (timer_codes mb ! i) pc" "holds pc = holds (pr_pcs p i)"
      "\<not> past_join pc" "\<And>l. \<not> released (mb i) l pc" "\<And>l. awaits (mb i) l (pr_pcs p i) \<Longrightarrow> awaits (mb i) l pc"
  obtains p' where "pr_call pf i c pc p = Inr p'" "timer_demo_inv owns live armed pending mb p' gs'"
proof -
  let ?M = "left_behind mb (pr_pcs p)"
  note I = timer_demo_invD [OF inv]
  have "joined ((pr_pcs p)(i := pc))" by (rule joined_goto [OF I(7) i pc(1)]) (use pc(6) in blast)
  moreover have "seats mb (a_slots (abstract (t_sys gs))) ((pr_pcs p)(i := pc))"
    by (rule tseats_goto [OF I(3) mb]) (use pc(7,8) in blast)+
  ultimately have "timer_demo_inv owns live armed pending mb (pr_goto i pc (p\<lparr>pr_sys := over_hidden ?M gs'\<rparr>)) gs'"
    using pc I(6) i
    by (intro timer_demo_next [OF inv call(2)])
      (simp_all add: call(3) left_goto in_hands_goto tboxes_goto [OF I(4)])
  then show thesis using that call(1) I(2) by (simp add: pr_call_def)
qed

text \<open>Thread 1 has unregistered from its labels when it leaves; \<^verbatim>\<open>main\<close> and thread 2 have not.\<close>

lemma demo_destroy1:
  assumes inv: "timer_demo_inv owns live armed pending mb p gs" and mb: "inj mb"
    and pf: "good_platform pf owns live armed pending"
    and pc: "pr_pcs p 1 = Closing [T_Mail (Call_Destroy (mb 1))]"
  obtains p' gs' where "pr_call pf 1 (T_Mail (Call_Destroy (mb 1))) (Closing []) p = Inr p'"
    "timer_demo_inv owns live armed pending mb p' gs'"
proof (rule demo_mail [OF inv pf, of 1])
  note I = timer_demo_invD [OF inv]
  have "Some (mb 1) \<notin> set (a_slots (abstract (t_sys gs)) l)" for l
    using seats_mine [OF I(3) mb, of 1 l] pc by (auto simp: keeps_def)
  then show "call_ok (Call_Destroy (mb 1)) (t_sys gs)"
    using demo_box [OF inv, of 1] pc by (simp add: abstract_def)
  have "mb 1 \<notin> left_behind mb (pr_pcs p)" by (auto simp: left_behind_def inj_eq [OF mb])
  then show "unaware (left_behind mb (pr_pcs p)) (Call_Destroy (mb 1)) (t_sys gs)"
    by (auto simp: unaware_def)
  fix r b assume "pubsub_step (abstract (t_sys gs)) (Call_Destroy (mb 1)) r b"
  then have b: "a_slots b = a_slots (abstract (t_sys gs))"
      "a_queues b = (a_queues (abstract (t_sys gs)))(mb 1 := None)"
    by (auto elim!: pubsub_destroyE)
  have "seats mb (a_slots b) ((pr_pcs p)(1 := Closing []))"
    unfolding b by (rule tseats_goto [OF I(3) mb]) (use pc in simp_all)
  moreover have "boxes mb (a_queues b) ((pr_pcs p)(1 := Closing []))"
    using I(4) by (simp add: b boxes_def inj_eq [OF mb])
  ultimately show "seats mb (a_slots b) ((pr_pcs p)(1 := Closing [])) \<and>
      boxes mb (a_queues b) ((pr_pcs p)(1 := Closing []))" ..
qed (use pc that in \<open>simp_all add: timer_thread1_def\<close>)

lemma demo_destroy:
  assumes inv: "timer_demo_inv owns live armed pending mb p gs" and mb: "inj mb" and i: "i = 0 \<or> i = 2"
    and pc: "pr_pcs p i = Closing [T_Mail (Call_Destroy (mb i))]"
  obtains p' where "pr_call pf i (T_Mail (Call_Destroy (mb i))) (Closing []) p = Inr p'"
    "timer_demo_inv owns live armed pending mb p' gs"
proof -
  let ?M = "left_behind mb (pr_pcs p)" and ?pcs = "(pr_pcs p)(i := Closing [])"
  note I = timer_demo_invD [OF inv]
  have t: "i \<in> threads" using i by (auto simp: threads_def)
  have left: "left_behind mb ?pcs = insert (mb i) ?M"
    using i by (auto simp: left_behind_def)
  have "sys_exec (pl_lib pf) (Call_Destroy (mb i)) (t_sys (over_hidden ?M gs)) =
      Inr (True, hide (insert (mb i) ?M) (t_sys gs))"
    by (simp add: hide_destroy)
  then have "pl_exec pf (T_Mail (Call_Destroy (mb i))) (over_hidden ?M gs) =
      (Inr True, over_hidden (insert (mb i) ?M) gs)"
    by (simp add: pl_exec_mail) (simp add: over_hidden_def)?
  then have "pr_call pf i (T_Mail (Call_Destroy (mb i))) (Closing []) p =
      Inr (pr_goto i (Closing []) (p\<lparr>pr_sys := over_hidden (insert (mb i) ?M) gs\<rparr>))"
    using I(2) by (simp add: pr_call_def)
  moreover have "boxes mb (a_queues (abstract (t_sys gs))) ?pcs"
    using I(4) pc i by (auto simp: boxes_def)
  moreover have "joined ?pcs" by (rule joined_goto [OF I(7) t]) (use pc in auto)
  moreover have "seats mb (a_slots (abstract (t_sys gs))) ?pcs"
    by (rule tseats_goto [OF I(3) mb]) (simp_all add: pc)
  moreover have "in_hands ?pcs \<subseteq># mset (s_held (t_sys gs))"
    using in_hands_goto [OF t, of "Closing []" "pr_pcs p"] I(6) pc by simp
  ultimately show thesis
    using that timer_demo_next [OF inv I(1), of _ i "Closing []"] by (simp add: left)
qed

text \<open>The next step of a thread, by its program counter.\<close>

lemma demo_setup_step:
  assumes inv: "timer_demo_inv owns live armed pending mb p gs" and mb: "inj mb"
    and pf: "good_platform pf owns live armed pending" and i: "i \<in> threads" and pc: "pr_pcs p i = Setup (c # cs)"
  obtains (moved) p' gs' where "pr_call pf i c (Setup cs) p = Inr p'"
      "timer_demo_inv owns live armed pending mb p' gs'"
    | (failed) e l time type where "i = 0" "c = T_Start l time type" "pr_call pf i c (Setup cs) p = Inl e"
      "out_of_timers e"
proof -
  note I = timer_demo_invD [OF inv]
  from I(5) [OF i] pc have suf: "suffix (c # cs) (th_setup (timer_codes mb ! i))" by simp
  then have suf': "suffix cs (th_setup (timer_codes mb ! i))" by (rule suffix_ConsD)
  from i suf show thesis
  proof (cases rule: setup_call)
    case new
    then show thesis using demo_new [OF inv mb pf i _ _ suf'] pc moved by blast
  next
    case (register l)
    show thesis
    proof (rule demo_register [OF inv mb pf i])
      fix p' gs' assume "pr_call pf i (T_Mail (Call_Register (mb i) l)) (Setup cs) p = Inr p'"
        "timer_demo_inv owns live armed pending mb p' gs'"
      then show thesis using moved register(1) by blast
    qed (use register pc suf' in auto)
  next
    case (start l time type)
    let ?M = "left_behind mb (pr_pcs p)"
    from pf have lib: "mailbox_lib (pl_lib pf) owns"
        and px: "posix_timers (pl_posix pf) (pl_expire pf) live armed pending"
      by (simp_all add: good_platform_def)
    from lib px I(1) start(3) show thesis
    proof (cases rule: start_step [where l = l and type = type and M = ?M])
      case (started b gs')
      show thesis
      proof (rule demo_timer [OF inv mb i started])
        fix p' assume "pr_call pf i (T_Start l time type) (Setup cs) p = Inr p'"
          "timer_demo_inv owns live armed pending mb p' gs'"
        then show thesis using moved start(2) by blast
      qed (use pc suf' start in auto)
    next
      case (failed e x)
      then show thesis using that(2) start I(2) by (simp add: pr_call_def)
    qed
  qed
qed

lemma demo_handling_step:
  assumes inv: "timer_demo_inv owns live armed pending mb p gs" and mb: "inj mb"
    and pf: "good_platform pf owns live armed pending" and i: "i \<in> threads"
    and pc: "pr_pcs p i = Handling msg (a # acts) brk"
  obtains p' gs' where "action_step pf (timer_codes mb ! i) i msg a (Handling msg acts brk) p = Inr p'"
    "timer_demo_inv owns live armed pending mb p' gs'"
proof -
  note I = timer_demo_invD [OF inv]
  let ?pc = "Handling msg acts brk"
  from I(5) [OF i] pc have suf: "suffix (a # acts) (fst (th_handle (timer_codes mb ! i) (m_label msg)))" by simp
  have code: "code_pc (timer_codes mb ! i) ?pc" using I(5) [OF i] pc by (auto dest: suffix_ConsD)
  from i suf show thesis
  proof (cases rule: handle_call)
    case shown
    have "timer_demo_inv owns live armed pending mb (pr_goto i ?pc p) gs"
      by (rule demo_move [OF inv mb i]) (use pc code shown in simp_all)
    then have "timer_demo_inv owns live armed pending mb
        (pr_goto i ?pc (pr_show (timer_codes mb ! i) i msg p)) gs"
      by (simp add: timer_demo_inv_def)
    then show thesis using that shown by simp
  next
    case release
    then show thesis using demo_release [OF inv mb pf i, of msg acts brk] pc that by auto
  next
    case cancel
    from pf have lib: "mailbox_lib (pl_lib pf) owns"
        and px: "posix_timers (pl_posix pf) (pl_expire pf) live armed pending"
      by (simp_all add: good_platform_def)
    from cancel_step [OF lib px I(1)] obtain b gs' where c:
        "pl_exec pf (T_Cancel RECURRING_TIMER) (over_hidden (left_behind mb (pr_pcs p)) gs) =
          (Inr b, over_hidden (left_behind mb (pr_pcs p)) gs')"
        "tsys_inv owns live armed pending gs'" "t_sys gs' = t_sys gs" .
    show thesis
    proof (rule demo_timer [OF inv mb i c])
      fix p' assume "pr_call pf i (T_Cancel RECURRING_TIMER) ?pc p = Inr p'"
        "timer_demo_inv owns live armed pending mb p' gs'"
      then show thesis using that cancel(2) by simp
    qed (use pc code cancel in simp_all)
  next
    case signal
    have "\<not> gone (pr_pcs p 0)"
      using I(7) pc signal by (cases "pr_pcs p 0") (auto simp: joined_def)
    then have left: "j \<in> {0, 2} \<Longrightarrow> \<not> gone (pr_pcs p j)" for j using pc signal by auto
    show thesis
    proof (rule demo_signal [OF inv mb pf i])
      fix p' gs' assume "pr_call pf i (T_Mail (Call_SendSignal DONE)) ?pc p = Inr p'"
        "timer_demo_inv owns live armed pending mb p' gs'"
      then show thesis using that signal(2) by simp
    qed (use pc code signal left in simp_all)
  qed
qed

lemma demo_finish_step:
  assumes inv: "timer_demo_inv owns live armed pending mb p gs" and mb: "inj mb"
    and pf: "good_platform pf owns live armed pending" and i: "i \<in> threads" and pc: "pr_pcs p i = Finish (c # cs)"
  obtains p' gs' where "pr_call pf i c (Finish cs) p = Inr p'" "timer_demo_inv owns live armed pending mb p' gs'"
proof -
  note I = timer_demo_invD [OF inv]
  from I(5) [OF i] pc have suf: "suffix (c # cs) (th_finish (timer_codes mb ! i))" by simp
  then have suf': "suffix cs (th_finish (timer_codes mb ! i))" by (rule suffix_ConsD)
  from i suf show thesis
  proof (cases rule: finish_call)
    case signal
    have "\<not> keeps j EXIT_THREAD" for j by (auto simp: keeps_def timer_labels word_le_nat_alt)
    note keep = this
    show thesis
    proof (rule demo_signal [OF inv mb pf i])
      fix p' gs' assume "pr_call pf i (T_Mail (Call_SendSignal EXIT_THREAD)) (Finish cs) p = Inr p'"
        "timer_demo_inv owns live armed pending mb p' gs'"
      then show thesis using that signal(2) by simp
    qed (use pc suf' signal keep in \<open>simp_all add: leaves_def\<close>)
  next
    case (unregister l)
    then show thesis using demo_unregister [OF inv mb pf i _ suf', of l] pc that by blast
  next
    case (register l)
    show thesis
    proof (rule demo_register [OF inv mb pf i])
      fix p' gs' assume "pr_call pf i (T_Mail (Call_Register (mb i) l)) (Finish cs) p = Inr p'"
        "timer_demo_inv owns live armed pending mb p' gs'"
      then show thesis using that register(2) by simp
    qed (use pc suf' register in simp_all)
  qed
qed

lemma demo_close_step:
  assumes inv: "timer_demo_inv owns live armed pending mb p gs" and mb: "inj mb"
    and pf: "good_platform pf owns live armed pending" and i: "i \<in> threads" and pc: "pr_pcs p i = Closing (c # cs)"
  obtains p' gs' where "pr_call pf i c (Closing cs) p = Inr p'" "timer_demo_inv owns live armed pending mb p' gs'"
proof -
  from timer_demo_invD(5) [OF inv i] pc have c: "c = T_Mail (Call_Destroy (mb i))" "cs = []"
    by (auto simp: thread_code [OF i] suffix_Cons)
  show thesis
  proof (cases "i = 1")
    case True
    then show thesis using demo_destroy1 [OF inv mb pf] pc c that by auto
  next
    case False
    then have "i = 0 \<or> i = 2" using i by (auto simp: threads_def)
    from demo_destroy [OF inv mb this] show thesis using pc c that by blast
  qed
qed

end
