(* ===== verification/TimerDemo.thy ===== *)
theory TimerDemo
  imports TimerInv MboxProps
begin

text \<open>
  The properties of \<^verbatim>\<open>example/timer.cpp\<close>: which steps of which schedules can end in a fault, and
  which labels lead to a destroyed mailbox.
\<close>

section \<open>Every step\<close>

lemma demo_step:
  assumes inv: "timer_demo_inv owns live armed pending mb p gs" and mb: "inj mb"
    and pf: "good_platform pf owns live armed pending" and i: "i \<in> threads"
  obtains (moved) p' gs' where "thread_step pf (timer_codes mb ! i) i p = Inr p'"
      "timer_demo_inv owns live armed pending mb p' gs'"
    | (failed) e l time type cs where "i = 0" "pr_pcs p 0 = Setup (T_Start l time type # cs)"
      "thread_step pf (timer_codes mb ! i) i p = Inl e" "out_of_timers e"
proof (cases "pr_pcs p i" rule: thread_pc_cases)
  note I = timer_demo_invD [OF inv]
  case ready
  have "timer_demo_inv owns live armed pending mb (pr_goto i Loop p) gs"
    by (rule demo_move [OF inv mb i]) (use ready thread_code [OF i] in \<open>simp_all\<close>)
  then show thesis using moved ready thread_code [OF i] by (simp add: thread_step_def)
next
  case (starting c cs)
  from inv mb pf i starting show thesis
    by (cases rule: demo_setup_step) (use moved failed starting in \<open>auto simp: thread_step_def\<close>)
next
  case looping
  from inv mb pf i looping show thesis by (rule demo_receive) (rule moved)
next
  case (handling msg acts brk)
  show thesis
  proof (cases acts)
    case Nil
    have "timer_demo_inv owns live armed pending mb
        (pr_goto i (if brk then Finish (th_finish (timer_codes mb ! i)) else Loop) p) gs"
      by (rule demo_move [OF inv mb i])
        (use handling Nil thread_code [OF i] finish_start [OF i] in \<open>auto split: if_splits\<close>)
    then show thesis using moved handling Nil by (simp add: thread_step_def)
  next
    case (Cons a as)
    from handling Cons have "pr_pcs p i = Handling msg (a # as) brk" by simp
    from inv mb pf i this show thesis
      by (rule demo_handling_step) (use moved handling Cons in \<open>simp add: thread_step_def\<close>)
  qed
next
  case finished
  have "timer_demo_inv owns live armed pending mb (pr_goto i Joining p) gs"
    by (rule demo_move [OF inv mb i]) (use finished in simp_all)
  then show thesis using moved finished by (simp add: thread_step_def)
next
  case (finishing c cs)
  from inv mb pf i finishing show thesis
    by (rule demo_finish_step) (use moved finishing in \<open>simp add: thread_step_def\<close>)
next
  case joining
  show thesis
  proof (cases "list_all (\<lambda>j. pr_pcs p j = Returned) (th_joins (timer_codes mb ! i))")
    case True
    have "timer_demo_inv owns live armed pending mb (pr_goto i (Closing (th_close (timer_codes mb ! i))) p) gs"
      by (rule demo_move [OF inv mb i]) (use joining True thread_code [OF i] in simp_all)
    then show thesis using moved joining True by (simp add: thread_step_def)
  next
    case False
    then show thesis using moved inv joining by (simp add: thread_step_def)
  qed
next
  case closed
  have "timer_demo_inv owns live armed pending mb (pr_goto i Returned p) gs"
    by (rule demo_move [OF inv mb i]) (use closed in auto)
  then show thesis using moved closed by (simp add: thread_step_def)
next
  case (closing c cs)
  from inv mb pf i closing show thesis
    by (rule demo_close_step) (use moved closing in \<open>simp add: thread_step_def\<close>)
next
  case returned
  then show thesis using moved inv by (simp add: thread_step_def)
qed

text \<open>The faults a schedule can end in, and where.\<close>

definition timer_fault :: "event \<Rightarrow> ('r, 'k, label) prog \<Rightarrow> fault \<Rightarrow> bool" where
  "timer_fault ev p e \<longleftrightarrow>
     ev = Run 0 \<and> (\<exists>l time type cs. pr_pcs p 0 = Setup (T_Start l time type # cs)) \<and> out_of_timers e \<or>
     ev = Signal_Thread \<and> gone (pr_pcs p 2) \<and> e = Dangling_Mailbox \<or>
     ev = Signal_Thread \<and> (\<exists>q. t_taken (pr_sys p) = Some q \<and> t_objs (pr_sys p) q = None) \<and> e = Dangling_Timer"

lemma demo_keep:
  assumes inv: "timer_demo_inv owns live armed pending mb p gs" and "tsys_inv owns live armed pending gs'"
    and "a_slots (abstract (t_sys gs')) = a_slots (abstract (t_sys gs))"
    and "\<And>m. (a_queues (abstract (t_sys gs')) m = None) = (a_queues (abstract (t_sys gs)) m = None)"
    and "s_held (t_sys gs') = s_held (t_sys gs)"
  shows "timer_demo_inv owns live armed pending mb
    (p\<lparr>pr_sys := over_hidden (left_behind mb (pr_pcs p)) gs'\<rparr>) gs'"
  using assms by (simp add: timer_demo_inv_def boxes_def)

lemma demo_event:
  assumes inv: "timer_demo_inv owns live armed pending mb p gs" and mb: "inj mb"
    and pf: "good_platform pf owns live armed pending"
  obtains (moved) p' gs' where "prog_step pf (timer_codes mb) ev p = Inr p'"
      "timer_demo_inv owns live armed pending mb p' gs'"
    | (failed) e where "prog_step pf (timer_codes mb) ev p = Inl e" "timer_fault ev p e"
proof (cases ev)
  note I = timer_demo_invD [OF inv]
  from pf have lib: "mailbox_lib (pl_lib pf) owns"
      and px: "posix_timers (pl_posix pf) (pl_expire pf) live armed pending"
    by (simp_all add: good_platform_def)
  let ?M = "left_behind mb (pr_pcs p)"
  {
    case (Run i)
    show thesis
    proof (cases "i \<in> threads")
      case True
      then have "i < 3" by (auto simp: threads_def)
      with inv mb pf True show thesis
        by (cases rule: demo_step) (use moved failed Run in \<open>auto simp: timer_fault_def\<close>)
    next
      case False
      then have "\<not> i < 3" by (auto simp: threads_def)
      then show thesis using moved inv Run by simp
    qed
  next
    case (Tick n)
    from expire_step [OF lib px I(1)] obtain gs' where e:
        "pl_exec pf (T_Expire n) (over_hidden ?M gs) = (Inr True, over_hidden ?M gs')"
        "tsys_inv owns live armed pending gs'" "t_sys gs' = t_sys gs" .
    then show thesis using moved demo_keep [OF inv e(2)] Tick I(2) by simp
  next
    case Signal_Thread
    from lib px I(1) show thesis
    proof (cases rule: signal_step [where M = ?M])
      case (quiet gs')
      then show thesis using moved demo_keep [OF inv quiet(2)] Signal_Thread I(2) by simp
    next
      case (sent gs' l)
      have "s_held (t_sys gs') = s_held (t_sys gs)" by (rule exec_held [OF sent(4)]) simp_all
      then show thesis
        using moved demo_keep [OF inv sent(2)] seats_signal [OF sent(5)] sent(1) Signal_Thread I(2) by simp
    next
      case (dangling x l m)
      from slots_left [OF inv mb dangling(2,3)] obtain j where "j \<in> {0, 2}" "gone (pr_pcs p j)" by blast
      moreover have "gone (pr_pcs p 2)" if "gone (pr_pcs p 0)"
        using that I(7) by (cases "pr_pcs p 0") (auto simp: joined_def)
      ultimately have "gone (pr_pcs p 2)" by auto
      then show thesis using failed dangling(1) Signal_Thread I(2) by (simp add: timer_fault_def)
    next
      case (cancelled x q)
      then show thesis using failed Signal_Thread I(2) by (simp add: timer_fault_def)
    qed
  }
qed

text \<open>
  A signal, pending or taken, points to a destroyed timer only if \<^verbatim>\<open>main\<close> has cancelled it: it has come
  past its call of \<^verbatim>\<open>CancelTimer\<close>.
\<close>

fun past_cancel :: "thread_pc \<Rightarrow> bool" where
  "past_cancel (Setup cs) \<longleftrightarrow> False"
| "past_cancel Loop \<longleftrightarrow> False"
| "past_cancel (Handling msg acts brk) \<longleftrightarrow> brk \<and> Act (T_Cancel RECURRING_TIMER) \<notin> set acts"
| "past_cancel pc \<longleftrightarrow> True"

definition alive_or_past :: "('k \<Rightarrow> (nat \<times> addr) list) \<Rightarrow> ('r, 'k, label) prog \<Rightarrow> bool" where
  "alive_or_past pending p \<longleftrightarrow> stale pending (pr_sys p) = {} \<or> past_cancel (pr_pcs p 0)"

lemma past_cancel_step:
  assumes "thread_step pf code i p = Inr p'" and "past_cancel (pr_pcs p j)"
  shows "past_cancel (pr_pcs p' j)"
proof (cases "j = i")
  case True
  show ?thesis
  proof (cases "pr_pcs p i" rule: thread_pc_cases)
    case (handling msg acts brk)
    then show ?thesis using assms True
      by (cases acts) (auto simp: thread_step_def dest: action_pcs)
  qed (use assms True in \<open>auto simp: thread_step_def call_eq\<close>)
next
  case False
  with thread_other [OF assms(1), of j] assms(2) show ?thesis by simp
qed

lemma demo_calls:
  assumes inv: "timer_demo_inv owns live armed pending mb p gs" and i: "i \<in> threads"
    and c: "next_call (pr_pcs p i) = Some c" "c = T_Signal \<or> (\<exists>l. c = T_Cancel l)"
  shows "i = 0 \<and> (\<exists>msg acts. pr_pcs p 0 = Handling msg (Act (T_Cancel RECURRING_TIMER) # acts) True \<and>
    Act (T_Cancel RECURRING_TIMER) \<notin> set acts)"
  using c(1)
proof (cases "pr_pcs p i" rule: next_call.cases)
  note code = timer_demo_invD(5) [OF inv i]
  {
    case (1 d cs)
    then show ?thesis using c code by (auto elim: setup_call [OF i])
  next
    case (2 msg d acts brk)
    then have suf: "suffix (Act c # acts) (fst (th_handle (timer_codes mb ! i) (m_label msg)))"
        "brk = snd (th_handle (timer_codes mb ! i) (m_label msg))"
      using c code by auto
    from i this show ?thesis using 2 c
      by (auto simp: threads_def timer_main_def timer_thread1_def timer_thread2_def timer_main_loop_def
          timer_loop1_def timer_loop2_def suffix_Cons split: if_splits)
  next
    case (3 d cs)
    then show ?thesis using c code by (auto elim: finish_call [OF i])
  next
    case (4 d cs)
    then show ?thesis using c code by (auto simp: thread_code [OF i] suffix_Cons)
  }
qed auto

lemma demo_next_call:
  assumes inv: "timer_demo_inv owns live armed pending mb p gs" and i: "i \<in> threads"
    and c: "next_call (pr_pcs p i) = Some c"
  shows "(\<exists>m. c = T_Mail m) \<or> (\<exists>l time type. c = T_Start l time type \<and> valid_timespec time) \<or>
    c = T_Signal \<or> (\<exists>l. c = T_Cancel l)"
  using c
proof (cases "pr_pcs p i" rule: next_call.cases)
  note code = timer_demo_invD(5) [OF inv i]
  {
    case (1 d cs)
    then show ?thesis using c code by (auto elim: setup_call [OF i])
  next
    case (2 msg d acts brk)
    then have "suffix (Act c # acts) (fst (th_handle (timer_codes mb ! i) (m_label msg)))" using c code by auto
    from i this show ?thesis by (cases rule: handle_call) auto
  next
    case (3 d cs)
    then show ?thesis using c code by (auto elim: finish_call [OF i])
  next
    case (4 d cs)
    then show ?thesis using c code by (auto simp: thread_code [OF i] suffix_Cons)
  }
qed auto

lemma demo_alive:
  assumes inv: "timer_demo_inv owns live armed pending mb p gs" and pf: "good_platform pf owns live armed pending"
    and alive: "alive_or_past pending p" and step: "prog_step pf (timer_codes mb) ev p = Inr p'"
  shows "alive_or_past pending p'"
proof -
  note I = timer_demo_invD [OF inv]
  from pf have lib: "mailbox_lib (pl_lib pf) owns"
      and px: "posix_timers (pl_posix pf) (pl_expire pf) live armed pending"
    by (simp_all add: good_platform_def)
  note other = stale_exec [OF lib px I(1), where M = "left_behind mb (pr_pcs p)", folded I(2)]
  have same: "stale pending (pr_sys p) = stale pending gs" by (simp add: I(2))
  show ?thesis
  proof (cases ev)
    case (Run i)
    show ?thesis
    proof (cases "i \<in> threads")
      case True
      then have run: "thread_step pf (timer_codes mb ! i) i p = Inr p'"
        using step Run by (simp add: threads_def split: if_splits)
      show ?thesis
      proof (cases "\<exists>c. next_call (pr_pcs p i) = Some c \<and> (c = T_Signal \<or> (\<exists>l. c = T_Cancel l))")
        case True
        with demo_calls [OF inv \<open>i \<in> threads\<close>] have "past_cancel (pr_pcs p' 0)"
          using run by (auto simp: thread_step_def call_eq)
        then show ?thesis by (simp add: alive_or_past_def)
      next
        case False
        have "stale pending s' = {}" if "stale pending (pr_sys p) = {}" "pl_exec pf c (pr_sys p) = (Inr ok, s')"
            "(\<exists>m. c = T_Mail m) \<or> next_call (pr_pcs p i) = Some c" for c ok s'
          using that stale_mail [of pf _ "pr_sys p" ok s' pending] False
            other [OF _ that(2)] demo_next_call [OF inv \<open>i \<in> threads\<close>, of c] same by auto
        then show ?thesis
          using alive thread_keeps [OF run, of "\<lambda>s. stale pending s = {}"] past_cancel_step [OF run, of 0]
          by (auto simp: alive_or_past_def)
      qed
    next
      case False
      then have "\<not> i < 3" by (auto simp: threads_def)
      then show ?thesis using alive Run step by simp
    qed
  next
    case (Tick n)
    then obtain r s' where r: "pl_exec pf (T_Expire n) (pr_sys p) = (Inr r, s')" "p' = p\<lparr>pr_sys := s'\<rparr>"
      using step by (auto split: prod.splits sum.splits)
    with other [OF _ r(1)] alive same show ?thesis by (auto simp: alive_or_past_def)
  next
    case Signal_Thread
    from lib px I(1) show ?thesis
      by (cases rule: signal_step [where M = "left_behind mb (pr_pcs p)"])
        (use step Signal_Thread I(2) alive same in \<open>auto simp: alive_or_past_def\<close>)
  qed
qed

section \<open>The start\<close>

lemma timer_main_init_eq:
  "timer_main_init pf fresh m s = mbox_main_init pf fresh SMALL_SIZE SMALL_CAP LARGE_SIZE LARGE_CAP m s"
proof -
  have "MailboxData_Initialize_default lib = MailboxData_Initialize lib SMALL_SIZE SMALL_CAP LARGE_SIZE LARGE_CAP"
    for lib :: "'a lib"
    by (simp add: fun_eq_iff MailboxData_Initialize_default_def MailboxData_Initialize_def)
  then show ?thesis
    by (simp add: timer_main_init_def mbox_main_init_def msglib_Initialize_default_def msglib_Initialize_def
        Mailbox_Initialize_default_def Mailbox_Initialize_def)
qed

text \<open>
  The state in which the threads start: \<^verbatim>\<open>Initialize\<close> has returned true, the array of timers happens
  to be zero, the kernel has no timers of this process.
\<close>

definition timer_ready ::
  "('r, 'k) platform \<Rightarrow> ('k \<Rightarrow> nat \<Rightarrow> addr option) \<Rightarrow> ('k \<Rightarrow> nat \<Rightarrow> itimerspec option) \<Rightarrow>
    ('k \<Rightarrow> (nat \<times> addr) list) \<Rightarrow> mbox \<Rightarrow> ('r, 'k) tsys \<Rightarrow> bool" where
  "timer_ready pf live armed pending m s \<longleftrightarrow>
     (\<exists>base mem k. 0 < base \<and>
        timer_main_init pf (Some (base, \<lambda>_. nullptr)) m (process_new mem k) = Inr (True, s)) \<and>
     live (t_kernel s) = Map.empty \<and> armed (t_kernel s) = Map.empty \<and> pending (t_kernel s) = []"

lemma timer_init_timers:
  assumes "timer_main_init pf (Some (base, \<lambda>_. nullptr)) m (process_new mem k) = Inr (True, s)"
  shows "td_resources (t_data s) = Some (TimerResources_new base (\<lambda>_. nullptr))" "t_objs s = Map.empty"
    "t_taken s = None"
  using assms
  by (auto simp: timer_main_init_def msglib_Initialize_default_def set_world_def process_new_def
      TimerManager_Initialize_def TimerManagerData_Initialize_def TimerManagerData_new_def
      and_then_eq_Inr split: prod.splits bool.splits)

lemma timer_ready_inv:
  assumes pf: "good_platform pf owns live armed pending" and s: "timer_ready pf live armed pending m s"
  shows "tsys_inv owns live armed pending s" "a_slots (abstract (t_sys s)) = (\<lambda>_. [None, None, None])"
    "a_queues (abstract (t_sys s)) = [m \<mapsto> []]" "s_held (t_sys s) = []"
proof -
  from pf have lib: "mailbox_lib (pl_lib pf) owns" by (simp add: good_platform_def)
  from s obtain base mem k where b: "0 < base"
      "timer_main_init pf (Some (base, \<lambda>_. nullptr)) m (process_new mem k) = Inr (True, s)"
    by (auto simp: timer_ready_def)
  have "unat LARGE_SIZE < 65536" by (simp add: LARGE_SIZE_def)
  note i = mbox_init [OF lib this b(2) [unfolded timer_main_init_eq]]
  then show "a_slots (abstract (t_sys s)) = (\<lambda>_. [None, None, None])"
      "a_queues (abstract (t_sys s)) = [m \<mapsto> []]" "s_held (t_sys s) = []"
    by simp_all
  note t = timer_init_timers [OF b(2)]
  have "timer_inv live armed pending (TimerResources_new base (\<lambda>_. nullptr)) (t_objs s) (t_kernel s)"
    using s b(1) by (intro timer_invI) (simp_all add: t timer_ready_def TimerResources_new_def monotonic_new_def)
  moreover have "once_inv armed pending (TimerResources_new base (\<lambda>_. nullptr)) (t_objs s) (t_kernel s) (t_taken s)"
    by (rule once_invI) (simp_all add: t)
  ultimately show "tsys_inv owns live armed pending s" using i t(1) by (auto intro: tsys_invI)
qed

definition timer_start :: "(nat \<Rightarrow> mbox) \<Rightarrow> ('r, 'k) tsys \<Rightarrow> ('r, 'k, label) prog" where
  "timer_start mb s = prog_start (timer_codes mb) s"

lemma timer_start_inv:
  assumes pf: "good_platform pf owns live armed pending" and mb: "inj mb"
    and s: "timer_ready pf live armed pending (mb 0) s"
  shows "timer_demo_inv owns live armed pending mb (timer_start mb s) s"
proof -
  let ?p = "timer_start mb s"
  note r = timer_ready_inv [OF pf s]
  have pcs: "i \<in> threads \<Longrightarrow> pr_pcs ?p i = Setup (th_setup (timer_codes mb ! i))" for i
    by (auto simp: timer_start_def prog_start_def threads_def)
  have keeps: "awaits (mb i) l (pr_pcs ?p i)" if "i \<in> threads" "keeps i l" for i l
    using that pcs labels_from_5_all [of l]
    by (auto simp: keeps_def timer_main_def timer_thread2_def)
  have "seats mb (a_slots (abstract (t_sys s))) (pr_pcs ?p)"
    using keeps by (auto simp: r(2) seats_def)
  moreover have "boxes mb (a_queues (abstract (t_sys s))) (pr_pcs ?p)"
    unfolding boxes_def
  proof
    fix i assume "i \<in> threads"
    then show "(a_queues (abstract (t_sys s)) (mb i) \<noteq> None) =
        (alive (mb i) (pr_pcs ?p i) \<or> i \<noteq> 1 \<and> gone (pr_pcs ?p i))"
      using pcs by (elim threads_cases)
        (auto simp: r(3) inj_eq [OF mb] timer_main_def timer_thread1_def timer_thread2_def)
  qed
  moreover have "in_hands (pr_pcs ?p) = {#}" by (simp add: in_hands_def pcs)
  moreover have "\<not> gone (pr_pcs ?p i)" if "i \<in> {0, 2}" for i using that pcs by auto
  then have "left_behind mb (pr_pcs ?p) = {}" unfolding left_behind_def by blast
  moreover have "pr_sys ?p = s" by (simp add: timer_start_def prog_start_def)
  ultimately show ?thesis using r(1) pcs by (simp add: timer_demo_inv_def joined_def)
qed

section \<open>Every schedule\<close>

definition timer_run ::
  "('r, 'k) platform \<Rightarrow> (nat \<Rightarrow> mbox) \<Rightarrow> event list \<Rightarrow> ('r, 'k, label) prog \<Rightarrow> fault + ('r, 'k, label) prog" where
  "timer_run pf mb = prog_run pf (timer_codes mb)"

lemma timer_run_inv:
  assumes "timer_demo_inv owns live armed pending mb p gs" and mb: "inj mb"
    and pf: "good_platform pf owns live armed pending"
  shows "(\<exists>q hs. timer_run pf mb es p = Inr q \<and> timer_demo_inv owns live armed pending mb q hs) \<or>
    (\<exists>fs ev gs q e. es = fs @ ev # gs \<and> timer_run pf mb fs p = Inr q \<and> timer_run pf mb es p = Inl e \<and>
       timer_fault ev q e)"
  using assms(1)
proof (induction es arbitrary: p gs)
  case (Cons ev es)
  from Cons.prems mb pf show ?case
  proof (cases rule: demo_event [where ev = ev])
    case (moved p' gs')
    from Cons.IH [OF moved(2)] show ?thesis
    proof (elim disjE exE conjE)
      fix q hs
      assume "timer_run pf mb es p' = Inr q" "timer_demo_inv owns live armed pending mb q hs"
      then show ?thesis using moved(1)
        by (intro disjI1 exI [of _ q] exI [of _ hs]) (simp add: timer_run_def)
    next
      fix fs ev' hs q e
      assume "es = fs @ ev' # hs" "timer_run pf mb fs p' = Inr q" "timer_run pf mb es p' = Inl e"
        "timer_fault ev' q e"
      then show ?thesis using moved(1)
        by (intro disjI2 exI [of _ "ev # fs"] exI [of _ ev'] exI [of _ hs] exI [of _ q] exI [of _ e])
          (simp add: timer_run_def)
    qed
  next
    case (failed e)
    then show ?thesis
      by (intro disjI2 exI [of _ "[]"] exI [of _ ev] exI [of _ es] exI [of _ p] exI [of _ e])
        (simp add: timer_run_def)
  qed
qed (auto simp: timer_run_def)

lemma alive_run:
  assumes "timer_demo_inv owns live armed pending mb p gs" and mb: "inj mb"
    and pf: "good_platform pf owns live armed pending" and "alive_or_past pending p" and "timer_run pf mb es p = Inr q"
  shows "alive_or_past pending q"
  using assms(1,4,5)
proof (induction es arbitrary: p gs)
  case (Cons ev es)
  then obtain p' where p': "prog_step pf (timer_codes mb) ev p = Inr p'" "timer_run pf mb es p' = Inr q"
    by (auto simp: timer_run_def and_then_eq_Inr)
  from Cons.prems(1) mb pf obtain gs' where "timer_demo_inv owns live armed pending mb p' gs'"
    by (cases rule: demo_event [where ev = ev]) (use p'(1) in auto)
  from Cons.IH [OF this demo_alive [OF Cons.prems(1) pf Cons.prems(2) p'(1)] p'(2)] show ?case .
qed (simp add: timer_run_def)

lemma timer_fault_start:
  assumes "good_platform pf owns live armed pending" and "inj mb"
    and s: "timer_ready pf live armed pending (mb 0) s"
    and "timer_run pf mb fs (timer_start mb s) = Inr p" and fault: "timer_fault ev p e"
  shows "ev = Run 0 \<and> (\<exists>l time type cs. pr_pcs p 0 = Setup (T_Start l time type # cs)) \<and> out_of_timers e \<or>
    ev = Signal_Thread \<and> gone (pr_pcs p 2) \<and> e = Dangling_Mailbox \<or>
    ev = Signal_Thread \<and> past_cancel (pr_pcs p 0) \<and> (\<exists>q. t_taken (pr_sys p) = Some q \<and> t_objs (pr_sys p) q = None) \<and>
      e = Dangling_Timer"
proof -
  have "t_taken s = None" "pending (t_kernel s) = []" using s timer_init_timers(3) by (auto simp: timer_ready_def)
  then have "alive_or_past pending (timer_start mb s)"
    by (auto simp: alive_or_past_def stale_iff timer_start_def prog_start_def)
  from alive_run [OF timer_start_inv [OF assms(1-3)] assms(2,1) this assms(4)] fault show ?thesis
    by (auto simp: timer_fault_def alive_or_past_def set_eq_iff stale_iff)
qed

text \<open>A platform for runs: the one of MboxProps, whose kernel allows the process 100 timers.\<close>

definition timer_demo_ready :: "(monotonic sync_pool, kernel) tsys" where
  "timer_demo_ready = snd (projr (timer_main_init demo_platform (Some (4096, \<lambda>_. nullptr)) (demo_mb 0)
     (process_new (\<lambda>_. 0) (kernel_new 100))))"

lemma timer_demo_platform: "good_platform demo_platform std_owns kernel_live kernel_armed sk_pending"
  using demo_lib_ok purging.posix_timers_axioms by (simp add: good_platform_def demo_platform_def)

lemma timer_demo_init:
  "timer_main_init demo_platform (Some (4096, \<lambda>_. nullptr)) (demo_mb 0) (process_new (\<lambda>_. 0) (kernel_new 100)) =
     Inr (True, timer_demo_ready)"
  "t_kernel timer_demo_ready = kernel_new 100"
proof -
  let ?init = "timer_main_init demo_platform (Some (4096, \<lambda>_. nullptr)) (demo_mb 0)
     (process_new (\<lambda>_. 0) (kernel_new 100))"
  have "\<exists>s. ?init = Inr (True, s) \<and> t_kernel s = kernel_new 100"
    by (simp add: timer_main_init_eq mbox_main_init_def demo_platform_def process_new_def msglib_Initialize_def
        TimerManager_Initialize_def Mailbox_default_def set_world_def timer_run_defs mailbox_run_defs
        SMALL_SIZE_def SMALL_CAP_def LARGE_SIZE_def LARGE_CAP_def)
  then show "?init = Inr (True, timer_demo_ready)" "t_kernel timer_demo_ready = kernel_new 100"
    by (auto simp: timer_demo_ready_def)
qed

lemma timer_demo_ready: "timer_ready demo_platform kernel_live kernel_armed sk_pending (demo_mb 0) timer_demo_ready"
  unfolding timer_ready_def using timer_demo_init
  by (intro conjI exI [of _ 4096] exI [of _ "\<lambda>_. 0"] exI [of _ "kernel_new 100"])
    (simp_all add: kernel_new_def kernel_live_def kernel_armed_def fun_eq_iff)

text \<open>
  C36. The program \<^verbatim>\<open>example/timer.cpp\<close>: whatever the schedule of its threads, of the signal thread and
  of the timers' expiries, it goes on unless a \<^verbatim>\<open>StartTimer\<close> of \<^verbatim>\<open>main\<close> ends in one of the exceptions
  for missing memory or missing timers, or the signal thread meets a destroyed mailbox after thread
  2 has left, or it has taken the signal of a timer that \<^verbatim>\<open>main\<close>, which has come past \<^verbatim>\<open>CancelTimer\<close>, has
  destroyed (POSIX leaves open whether a signal that was pending then comes at all); no
  call of the three threads uses a destroyed mailbox or timer.
\<close>
theorem timer_example_faults:
  assumes "good_platform pf owns live armed pending" and "inj mb"
    and "timer_ready pf live armed pending (mb 0) s"
  shows "(\<exists>p. timer_run pf mb es (timer_start mb s) = Inr p) \<or>
    (\<exists>fs ev gs p e. es = fs @ ev # gs \<and> timer_run pf mb fs (timer_start mb s) = Inr p \<and>
       timer_run pf mb es (timer_start mb s) = Inl e \<and>
       (ev = Run 0 \<and> (\<exists>l time type cs. pr_pcs p 0 = Setup (T_Start l time type # cs)) \<and> out_of_timers e \<or>
        ev = Signal_Thread \<and> gone (pr_pcs p 2) \<and> e = Dangling_Mailbox \<or>
        ev = Signal_Thread \<and> past_cancel (pr_pcs p 0) \<and>
          (\<exists>q. t_taken (pr_sys p) = Some q \<and> t_objs (pr_sys p) q = None) \<and> e = Dangling_Timer))"
proof -
  from timer_run_inv [OF timer_start_inv [OF assms] assms(2,1), of es] show ?thesis
  proof (elim disjE exE conjE)
    fix q hs assume "timer_run pf mb es (timer_start mb s) = Inr q"
    then show ?thesis by blast
  next
    fix fs ev gs p e
    assume "es = fs @ ev # gs" "timer_run pf mb fs (timer_start mb s) = Inr p"
      "timer_run pf mb es (timer_start mb s) = Inl e" "timer_fault ev p e"
    note run = this
    show ?thesis using timer_fault_start [OF assms run(2,4)] run(1-3)
      by (intro disjI2 exI [of _ fs] exI [of _ ev] exI [of _ gs] exI [of _ p] exI [of _ e]) (intro conjI)
  qed
qed

theorem timer_example_faults_witness:
  "(\<exists>p. timer_run demo_platform demo_mb [Run 2, Run 0, Tick 0, Signal_Thread, Run 1] (timer_start demo_mb timer_demo_ready) = Inr p) \<or>
   (\<exists>e. timer_run demo_platform demo_mb [Run 2, Run 0, Tick 0, Signal_Thread, Run 1] (timer_start demo_mb timer_demo_ready) = Inl e \<and>
     (out_of_timers e \<or> e = Dangling_Mailbox \<or> e = Dangling_Timer))"
  using timer_example_faults [OF timer_demo_platform demo_platform_ok(2) timer_demo_ready,
      of "[Run 2, Run 0, Tick 0, Signal_Thread, Run 1]"]
  by (elim disjE exE conjE) auto

text \<open>Whoever keeps a label and has left makes its signals fail.\<close>

lemma left_dangles:
  assumes inv: "timer_demo_inv owns live armed pending mb p gs"
    and j: "j = 0 \<or> j = 2" "gone (pr_pcs p j)" "keeps j l"
  shows "Mailbox_SendSignal l (s_world (t_sys (pr_sys p))) = Inl Dangling_Mailbox"
proof -
  note I = timer_demo_invD [OF inv]
  let ?M = "left_behind mb (pr_pcs p)" and ?w = "s_world (t_sys gs)"
  from I(1) have "\<not> md_locked (w_data ?w)" by (auto simp: tsys_inv_def sys_inv_def)
  moreover have "\<not> awaits (mb j) l (pr_pcs p j)" using j(2) by (cases "pr_pcs p j") auto
  then have "Some (mb j) \<in> set (receivers_of (w_data ?w) l)"
    using seats_kept [OF I(3) _ j(3)] j(1) by (auto simp: abstract_def)
  moreover have "mb j \<in> ?M" using j by (auto simp: left_behind_def)
  ultimately have "Mailbox_SendSignal l (hide_box ?M ?w) = Inl Dangling_Mailbox"
    by (intro signal_dangles [of _ "mb j"]) simp_all
  then show ?thesis using I(2) by (simp add: hide_def)
qed

text \<open>
  C38. In every state the program reaches, a signal with a label from 5 to 45 is an access to a
  destroyed mailbox from the moment thread 2 has left its scope, and so is \<^verbatim>\<open>DONE\<close> after \<^verbatim>\<open>main\<close> has:
  the loop that should unregister thread 2 registers it again. Every other signal succeeds.
\<close>
theorem timer_labels_left_behind:
  assumes "good_platform pf owns live armed pending" and "inj mb"
    and "timer_ready pf live armed pending (mb 0) s"
    and "timer_run pf mb es (timer_start mb s) = Inr p"
  shows "if gone (pr_pcs p 2) \<and> 5 \<le> l \<and> l \<le> 45 \<or> gone (pr_pcs p 0) \<and> l = DONE
    then Mailbox_SendSignal l (s_world (t_sys (pr_sys p))) = Inl Dangling_Mailbox
    else \<exists>w. Mailbox_SendSignal l (s_world (t_sys (pr_sys p))) = Inr (True, w)"
proof -
  from timer_run_inv [OF timer_start_inv [OF assms(1-3)] assms(2,1), of es] assms(4) obtain gs where
      inv: "timer_demo_inv owns live armed pending mb p gs" by auto
  note I = timer_demo_invD [OF inv]
  let ?M = "left_behind mb (pr_pcs p)" and ?w = "s_world (t_sys gs)"
  from I(1) obtain lost S G where g: "sys_inv owns (t_sys gs) lost S G" by (rule tsys_invE)
  from assms(1) have "mailbox_lib (pl_lib pf) owns" by (simp add: good_platform_def)
  from mailbox_lib.signal_sys [OF this g demo_initialized [OF inv]] obtain w where
      sent: "Mailbox_SendSignal l ?w = Inr (True, w)" by blast
  have world: "s_world (t_sys (pr_sys p)) = hide_box ?M ?w" using I(2) by (simp add: hide_def)
  have left: "m \<in> ?M \<Longrightarrow> Some m \<in> set (receivers_of (w_data ?w) l) \<Longrightarrow>
      gone (pr_pcs p 2) \<and> 5 \<le> l \<and> l \<le> 45 \<or> gone (pr_pcs p 0) \<and> l = DONE" for m
    using slots_left [OF inv assms(2), of m l] by (auto simp: keeps_def)
  show ?thesis
  proof (cases "gone (pr_pcs p 2) \<and> 5 \<le> l \<and> l \<le> 45 \<or> gone (pr_pcs p 0) \<and> l = DONE")
    case True
    then show ?thesis using left_dangles [OF inv, of 0] left_dangles [OF inv, of 2] by (auto simp: keeps_def)
  next
    case False
    have "Mailbox_SendSignal l (hide_box ?M ?w) = Inr (True, hide_box ?M w)"
      by (rule signal_hide [OF sent]) (use left False in blast)
    then show ?thesis using False world by simp
  qed
qed

theorem timer_labels_left_behind_witness:
  "\<exists>p w. timer_run demo_platform demo_mb [] (timer_start demo_mb timer_demo_ready) = Inr p \<and>
     Mailbox_SendSignal 5 (s_world (t_sys (pr_sys p))) = Inr (True, w)"
proof -
  let ?p = "timer_start demo_mb timer_demo_ready"
  have run: "timer_run demo_platform demo_mb [] ?p = Inr ?p" by (simp add: timer_run_def)
  have "\<not> gone (pr_pcs ?p 2)" "\<not> gone (pr_pcs ?p 0)" by (simp_all add: timer_start_def prog_start_def)
  with timer_labels_left_behind [OF timer_demo_platform demo_platform_ok(2) timer_demo_ready run, of 5]
  show ?thesis using run by auto
qed

end
