(* ===== verification/CallFrames.thy ===== *)
theory CallFrames
  imports ProgramInv
begin

text \<open>
  What a call that returned has changed, whatever the state it was made in: who is registered, the
  labels that wait in a mailbox, the slots of the timers and the timers that exist.
\<close>

section \<open>Mailbox calls\<close>

abbreviation registered_for :: "'r sys \<Rightarrow> label \<Rightarrow> mbox option list" where
  "registered_for s \<equiv> receivers_of (w_data (s_world s))"

definition waiting :: "'r sys \<Rightarrow> mbox \<Rightarrow> label list" where
  "waiting s m = (case w_queues (s_world s) m of None \<Rightarrow> [] | Some q \<Rightarrow> map m_label (q_queue q))"

lemma receivers_of_lock [simp]:
  "md_lock d = Inr d' \<Longrightarrow> receivers_of d' = receivers_of d" "receivers_of (md_unlock d) = receivers_of d"
  by (auto simp: md_lock_def md_unlock_def receivers_of_def fun_eq_iff split: if_splits option.splits)

lemma new_frame:
  "sys_exec lib (Call_New m n) s = Inr (ok, s') \<Longrightarrow>
     registered_for s' = registered_for s \<and> waiting s' = (waiting s)(m := [])"
  by (auto simp: Mailbox_new_def waiting_def Queue_new_def fun_eq_iff)

lemma destroy_frame:
  "sys_exec lib (Call_Destroy m) s = Inr (ok, s') \<Longrightarrow>
     registered_for s' = registered_for s \<and> waiting s' = (waiting s)(m := [])"
  by (auto simp: Mailbox_destroy_def waiting_def fun_eq_iff)

lemma register_frame:
  assumes "sys_exec lib (Call_Register m l) s = Inr (ok, s')"
  shows "registered_for s' = (registered_for s)(l := snd (add_loop (Some m) (registered_for s l))) \<and>
    waiting s' = waiting s"
proof -
  from assms obtain d where d: "MailboxData_RegisterForLabel lib l (Some m) (w_data (s_world s)) = Inr (ok, d)"
      "s' = s\<lparr>s_world := (s_world s)\<lparr>w_data := d\<rparr>\<rparr>"
    by (auto simp: Mailbox_RegisterForLabel_def on_data_def and_then_eq_Inr)
  have init: "md_initialized (w_data (s_world s))"
    using d(1) by (auto simp: MailboxData_RegisterForLabel_def md_lock_def ensure_initialized_def
        MailboxData_Initialize_default_def and_then_eq_Inr split: if_splits)
  then have "receivers_of d =
      (receivers_of (w_data (s_world s)))(l := snd (add_loop (Some m) (receivers_of (w_data (s_world s)) l)))"
    using d(1)
    by (auto simp: MailboxData_RegisterForLabel_def ensure_initialized_def md_lock_def md_unlock_def
        deref_resources_def Receivers_add_def receivers_of_def and_then_eq_Inr fun_eq_iff Let_def
        split: if_splits option.splits prod.splits)
  then show ?thesis by (simp add: d(2) waiting_def fun_eq_iff)
qed

lemma remove_loop_set: "set (snd (remove_loop mb i ok rs)) \<subseteq> insert None (set rs)"
proof (induction mb i ok rs rule: remove_loop.induct)
  case (1 mb i ok rs)
  show ?case
  proof (cases "i < MAX_RECEIVERS")
    case True
    have "set (rs[i := None]) \<subseteq> insert None (set rs)" by (rule set_update_subset_insert)
    with 1 [OF True refl] show ?thesis
      by (subst remove_loop.simps) (auto simp: True Let_def split: if_splits)
  qed (auto simp: remove_loop.simps)
qed

lemma unregister_frame:
  assumes "sys_exec lib (Call_Unregister m l) s = Inr (ok, s')"
  shows "waiting s' = waiting s \<and> (\<forall>k. k \<noteq> l \<longrightarrow> registered_for s' k = registered_for s k) \<and>
    set (registered_for s' l) \<subseteq> insert None (set (registered_for s l))"
proof -
  from assms obtain d where d: "MailboxData_UnregisterForLabel lib l (Some m) (w_data (s_world s)) = Inr (ok, d)"
      "s' = s\<lparr>s_world := (s_world s)\<lparr>w_data := d\<rparr>\<rparr>"
    by (auto simp: Mailbox_UnregisterForLabel_def on_data_def and_then_eq_Inr)
  have init: "md_initialized (w_data (s_world s))"
    using d(1) by (auto simp: MailboxData_UnregisterForLabel_def md_lock_def ensure_initialized_def
        MailboxData_Initialize_default_def and_then_eq_Inr split: if_splits)
  then have "receivers_of d = (receivers_of (w_data (s_world s)))(l :=
      snd (remove_loop (Some m) 0 True (receivers_of (w_data (s_world s)) l)))"
    using d(1)
    by (auto simp: MailboxData_UnregisterForLabel_def ensure_initialized_def md_lock_def md_unlock_def
        deref_resources_def Receivers_remove_def receivers_of_def and_then_eq_Inr fun_eq_iff Let_def
        split: if_splits option.splits prod.splits)
  then show ?thesis using remove_loop_set [of "Some m" 0 True "registered_for s l"]
    by (simp add: d(2) waiting_def fun_eq_iff)
qed

text \<open>A signal reaches a mailbox at most as often as it is registered.\<close>

lemma signal_loop_frame:
  "signal_loop l rs w = Inr w' \<Longrightarrow> w_data w' = w_data w \<and>
     (\<exists>k \<le> count_list rs (Some m). waiting \<lparr>s_world = w', s_held = h\<rparr> m =
        waiting \<lparr>s_world = w, s_held = h\<rparr> m @ replicate k l)"
proof (induction rs arbitrary: w)
  case (Cons r rs)
  from Cons.prems obtain w1 where 1: "signal_one l r w = Inr w1" "signal_loop l rs w1 = Inr w'"
    by (auto simp: and_then_eq_Inr)
  from Cons.IH [OF 1(2)] obtain k where k: "w_data w' = w_data w1" "k \<le> count_list rs (Some m)"
      "waiting \<lparr>s_world = w', s_held = h\<rparr> m = waiting \<lparr>s_world = w1, s_held = h\<rparr> m @ replicate k l"
    by blast
  have one: "\<exists>j \<le> Suc 0. [l] = replicate j l" by (intro exI [of _ "Suc 0"]) simp
  have "w_data w1 = w_data w \<and> (\<exists>j \<le> of_bool (r = Some m). waiting \<lparr>s_world = w1, s_held = h\<rparr> m =
      waiting \<lparr>s_world = w, s_held = h\<rparr> m @ replicate j l)"
    using 1(1) one by (auto simp: signal_one_def waiting_def Queue_emplace_def Message_signal_def
        split: option.splits prod.splits if_splits)
  then obtain j where j: "w_data w1 = w_data w" "j \<le> of_bool (r = Some m)"
      "waiting \<lparr>s_world = w1, s_held = h\<rparr> m = waiting \<lparr>s_world = w, s_held = h\<rparr> m @ replicate j l"
    by blast
  show ?case using k j by (intro conjI exI [of _ "j + k"]) (auto simp: replicate_add split: if_splits)
qed simp

lemma signal_frame:
  assumes "sys_exec lib (Call_SendSignal l) s = Inr (ok, s')"
  shows "registered_for s' = registered_for s \<and>
    (\<exists>k \<le> count_list (registered_for s l) (Some m). waiting s' m = waiting s m @ replicate k l)"
proof -
  from assms obtain d rs w where 1: "md_lock (w_data (s_world s)) = Inr d" "md_resources d = Some rs"
      "signal_loop l (m_receivers (rs_mailboxes rs l)) ((s_world s)\<lparr>w_data := d\<rparr>) = Inr w"
      "s' = s\<lparr>s_world := unlock_world w\<rparr>"
    by (auto simp: Mailbox_SendSignal_def MailboxData_GetReceivers_def deref_resources_def
        and_then_eq_Inr split: option.splits)
  have "md_resources (w_data (s_world s)) = Some rs" using 1(1,2) by (auto simp: md_lock_def split: if_splits)
  then have "registered_for s l = m_receivers (rs_mailboxes rs l)" by (simp add: receivers_of_def)
  with signal_loop_frame [OF 1(3), of m "s_held s"] 1(1) show ?thesis
    by (auto simp: 1(4) unlock_world_def waiting_def)
qed

text \<open>It does reach a mailbox that is registered and has room.\<close>

lemma signal_loop_stays:
  "signal_loop l rs w = Inr w' \<Longrightarrow> w_queues w m = Some q \<Longrightarrow> q_queue q \<noteq> [] \<Longrightarrow>
     \<exists>q'. w_queues w' m = Some q' \<and> q_queue q' \<noteq> []"
proof (induction rs arbitrary: w q)
  case (Cons r rs)
  from Cons.prems(1) obtain w1 where 1: "signal_one l r w = Inr w1" "signal_loop l rs w1 = Inr w'"
    by (auto simp: and_then_eq_Inr)
  have "\<exists>q1. w_queues w1 m = Some q1 \<and> q_queue q1 \<noteq> []"
    using 1(1) Cons.prems(2,3)
    by (auto simp: signal_one_def Queue_emplace_def split: option.splits prod.splits if_splits)
  then show ?case using Cons.IH [OF 1(2)] by blast
qed simp

lemma signal_loop_delivers:
  "signal_loop l rs w = Inr w' \<Longrightarrow> Some m \<in> set rs \<Longrightarrow> w_queues w m = Some q \<Longrightarrow>
     length (q_queue q) < unat (q_capacity q) \<Longrightarrow> \<exists>q'. w_queues w' m = Some q' \<and> q_queue q' \<noteq> []"
proof (induction rs arbitrary: w)
  case (Cons r rs)
  from Cons.prems(1) obtain w1 where 1: "signal_one l r w = Inr w1" "signal_loop l rs w1 = Inr w'"
    by (auto simp: and_then_eq_Inr)
  show ?case
  proof (cases "r = Some m")
    case True
    then have "\<exists>q1. w_queues w1 m = Some q1 \<and> q_queue q1 \<noteq> []"
      using 1(1) Cons.prems(3,4) by (auto simp: signal_one_def Queue_emplace_def)
    then show ?thesis using signal_loop_stays [OF 1(2)] by blast
  next
    case False
    then have "w_queues w1 m = w_queues w m"
      using 1(1) by (auto simp: signal_one_def split: option.splits prod.splits)
    then show ?thesis using Cons.IH [OF 1(2)] Cons.prems False by auto
  qed
qed simp

lemma signal_delivers:
  assumes sent: "sys_exec lib (Call_SendSignal l) s = Inr (ok, s')" and reg: "Some m \<in> set (registered_for s l)"
    and q: "w_queues (s_world s) m = Some q" "q_queue q = []" "0 < unat (q_capacity q)"
  obtains ls where "waiting s' m = l # ls"
proof -
  from sent obtain d rs w where 1: "md_lock (w_data (s_world s)) = Inr d" "md_resources d = Some rs"
      "signal_loop l (m_receivers (rs_mailboxes rs l)) ((s_world s)\<lparr>w_data := d\<rparr>) = Inr w"
      "s' = s\<lparr>s_world := unlock_world w\<rparr>"
    by (auto simp: Mailbox_SendSignal_def MailboxData_GetReceivers_def deref_resources_def
        and_then_eq_Inr split: option.splits)
  have "md_resources (w_data (s_world s)) = Some rs" using 1(1,2) by (auto simp: md_lock_def split: if_splits)
  then have "registered_for s l = m_receivers (rs_mailboxes rs l)" by (simp add: receivers_of_def)
  with signal_loop_delivers [OF 1(3), of m q] reg q obtain q' where "w_queues w m = Some q'" "q_queue q' \<noteq> []"
    by auto
  then have "waiting s' m \<noteq> []" by (simp add: 1(4) unlock_world_def waiting_def)
  moreover from signal_frame [OF sent, of m] obtain k where "waiting s' m = waiting s m @ replicate k l" by blast
  ultimately show thesis using that q by (cases k) (auto simp: waiting_def)
qed

lemma map_hd_tl: "xs \<noteq> [] \<Longrightarrow> map f xs = f (hd xs) # map f (tl xs)"
  by (cases xs) simp_all

lemma receive_frame:
  assumes "sys_exec lib (Call_Receive m) s = Inr (ok, s')"
  shows "if ok then registered_for s' = registered_for s \<and>
      waiting s m = m_label (last (s_held s')) # waiting s' m \<and> (\<forall>k. k \<noteq> m \<longrightarrow> waiting s' k = waiting s k)
    else s' = s \<and> waiting s m = []"
  using assms map_hd_tl
  by (auto simp: Mailbox_Receive_def Queue_pop_def waiting_def and_then_eq_Inr
      split: option.splits prod.splits if_splits list.splits)

lemma release_frame:
  "sys_exec lib (Call_Release i) s = Inr (ok, s') \<Longrightarrow>
     registered_for s' = registered_for s \<and> waiting s' = waiting s"
  by (auto simp: Mailbox_ReleaseMessage_def MailboxData_freeSmall_def MailboxData_freeLarge_def
      receivers_of_def waiting_def fun_eq_iff split: if_splits option.splits prod.splits)

section \<open>Timer calls\<close>

definition slot :: "('r, 'k) tsys \<Rightarrow> label \<Rightarrow> addr" where
  "slot s l = (case td_resources (t_data s) of None \<Rightarrow> nullptr | Some tr \<Rightarrow> tr_timers tr l)"

lemma mail_frame:
  "pl_exec pf (T_Mail c) s = (Inr ok, s') \<Longrightarrow>
     sys_exec (pl_lib pf) c (t_sys s) = Inr (ok, t_sys s') \<and> slot s' = slot s \<and> t_objs s' = t_objs s"
  by (auto simp: pl_exec_mail slot_def fun_eq_iff split: sum.splits prod.splits)

lemma Timer_new_frame: "Timer_new px q l time type k = (Inr tm, k') \<Longrightarrow> tm_label tm = l \<and> tm_type tm = type"
  by (auto simp: Timer_new_def Let_def split: prod.splits option.splits bool.splits)

lemma start_frame:
  assumes "pl_exec pf (T_Start l time type) s = (Inr ok, s')"
  shows "t_sys s' = t_sys s \<and> (\<forall>k. k \<noteq> l \<longrightarrow> slot s' k = slot s k) \<and>
    (\<forall>tm \<in> ran (t_objs s'). tm \<in> ran (t_objs s) \<or> tm_label tm = l \<and> tm_type tm = type)"
  using assms
  by (auto simp: pl_exec_def TimerManager_StartTimer_timespec_def TimerManagerData_startTimer_def
      slot_def set_resources_def ran_def Let_def dest: Timer_new_frame
      split: option.splits prod.splits sum.splits if_splits)

lemma cancel_timer_frame:
  "TimerManagerData_cancelTimer px l s = (Inr ok, s') \<Longrightarrow>
     t_sys s' = t_sys s \<and> (\<forall>k. k \<noteq> l \<longrightarrow> slot s' k = slot s k) \<and> slot s' l = nullptr \<and>
     ran (t_objs s') \<subseteq> ran (t_objs s)"
  by (auto simp: TimerManagerData_cancelTimer_def slot_def set_resources_def ran_def Let_def
      split: option.splits prod.splits if_splits)

lemma cancel_frame:
  "pl_exec pf (T_Cancel l) s = (Inr ok, s') \<Longrightarrow>
     t_sys s' = t_sys s \<and> (\<forall>k. k \<noteq> l \<longrightarrow> slot s' k = slot s k) \<and> slot s' l = nullptr \<and>
     ran (t_objs s') \<subseteq> ran (t_objs s)"
  by (rule cancel_timer_frame) (simp add: pl_exec_def TimerManager_CancelTimer_def)

lemma expire_frame:
  "pl_exec pf (T_Expire n) s = (Inr ok, s') \<Longrightarrow> t_sys s' = t_sys s \<and> slot s' = slot s \<and> t_objs s' = t_objs s"
  by (auto simp: pl_exec_def slot_def fun_eq_iff)

lemma event_frame:
  assumes "Timer_timerEvent px q s = (Inr (), s')"
  obtains tm where "t_objs s q = Some tm"
    "sys_exec lib (Call_SendSignal (tm_label tm)) (t_sys s) = Inr (True, t_sys s')"
    "\<forall>k. k \<noteq> tm_label tm \<longrightarrow> slot s' k = slot s k" "ran (t_objs s') \<subseteq> ran (t_objs s)"
    "tm_type tm = ONE_SHOT \<longrightarrow> slot s' (tm_label tm) = nullptr"
proof -
  from assms obtain tm b y where tm: "t_objs s q = Some tm" "Mailbox_SendSignal (tm_label tm) (s_world (t_sys s)) = Inr (b, y)"
      "(if tm_type tm = ONE_SHOT
        then \<exists>ok. TimerManagerData_cancelTimer px (tm_label tm) (s\<lparr>t_sys := (t_sys s)\<lparr>s_world := y\<rparr>\<rparr>) = (Inr ok, s')
        else s' = s\<lparr>t_sys := (t_sys s)\<lparr>s_world := y\<rparr>\<rparr>)"
    by (auto simp: Timer_timerEvent_def Let_def split: option.splits sum.splits prod.splits if_splits)
  have b: "b" using tm(2) by (auto simp: Mailbox_SendSignal_def and_then_eq_Inr)
  show thesis
  proof (cases "tm_type tm = ONE_SHOT")
    case True
    then obtain ok where "TimerManagerData_cancelTimer px (tm_label tm)
        (s\<lparr>t_sys := (t_sys s)\<lparr>s_world := y\<rparr>\<rparr>) = (Inr ok, s')"
      using tm(3) by auto
    from cancel_timer_frame [OF this] show thesis using that [OF tm(1)] tm(2) b by (simp add: slot_def)
  next
    case False
    then show thesis using that [OF tm(1)] tm b by (simp add: slot_def)
  qed
qed

lemma thread_frame:
  assumes "pl_exec pf T_Signal s = (Inr ok, s')"
  obtains (quiet) "t_taken s = None" "t_sys s' = t_sys s" "slot s' = slot s" "t_objs s' = t_objs s"
      "t_taken s' = fst (sigtimedwait (pl_posix pf) (t_kernel s))"
    | (sent) q tm where "t_taken s = Some q" "t_objs s q = Some tm"
      "sys_exec (pl_lib pf) (Call_SendSignal (tm_label tm)) (t_sys s) = Inr (True, t_sys s')"
      "\<forall>k. k \<noteq> tm_label tm \<longrightarrow> slot s' k = slot s k" "ran (t_objs s') \<subseteq> ran (t_objs s)"
      "tm_type tm = ONE_SHOT \<longrightarrow> slot s' (tm_label tm) = nullptr"
proof (cases "t_taken s")
  case None
  then show thesis using assms quiet
    by (auto simp: pl_exec_def HandleSignals_step_def slot_def fun_eq_iff split: prod.splits)
next
  case (Some q)
  let ?s = "s\<lparr>t_taken := None\<rparr>"
  have "Timer_timerEvent (pl_posix pf) q ?s = (Inr (), s')"
    using assms Some by (auto simp: pl_exec_def HandleSignals_step_def split: prod.splits sum.splits)
  then show thesis
  proof (rule event_frame [where lib = "pl_lib pf"])
    fix tm assume "t_objs ?s q = Some tm"
      "sys_exec (pl_lib pf) (Call_SendSignal (tm_label tm)) (t_sys ?s) = Inr (True, t_sys s')"
      "\<forall>k. k \<noteq> tm_label tm \<longrightarrow> slot s' k = slot ?s k" "ran (t_objs s') \<subseteq> ran (t_objs ?s)"
      "tm_type tm = ONE_SHOT \<longrightarrow> slot s' (tm_label tm) = nullptr"
    then show thesis using sent [OF Some, of tm] by (simp add: slot_def)
  qed
qed

end
