(* ===== verification/TimerLate.thy ===== *)
theory TimerLate
  imports TimerDemo CallFrames
begin

text \<open>
  A schedule of \<^verbatim>\<open>example/timer.cpp\<close> in which thread 2 is about to send \<^verbatim>\<open>DONE\<close> while \<^verbatim>\<open>main\<close> is still
  starting its timers: thread 2 registers, \<^verbatim>\<open>main\<close> starts the timers up to label 45, the last of them
  expires, the signal thread handles it and thread 2 takes the message.
\<close>

section \<open>Steps of a thread that sets itself up\<close>

lemma demo_next:
  assumes "timer_demo_inv owns live armed pending mb p gs" and "inj mb"
    and "good_platform pf owns live armed pending" and "prog_step pf (timer_codes mb) ev p = Inr p'"
  shows "\<exists>gs'. timer_demo_inv owns live armed pending mb p' gs'"
  using assms(1-3) by (cases rule: demo_event [where ev = ev]) (use assms(4) in auto)

lemma demo_moves:
  assumes inv: "timer_demo_inv owns live armed pending mb p gs" and mb: "inj mb"
    and pf: "good_platform pf owns live armed pending"
    and ev: "ev \<noteq> Run 0" "ev = Signal_Thread \<Longrightarrow> \<not> gone (pr_pcs p 2) \<and>
      (\<forall>q. t_taken (pr_sys p) = Some q \<longrightarrow> t_objs (pr_sys p) q \<noteq> None)"
  shows "\<exists>p' gs'. prog_step pf (timer_codes mb) ev p = Inr p' \<and> timer_demo_inv owns live armed pending mb p' gs'"
  using inv mb pf
proof (cases rule: demo_event [where ev = ev])
  case (moved p' gs')
  then show ?thesis by blast
next
  case (failed e)
  then show ?thesis using ev by (auto simp: timer_fault_def)
qed

text \<open>Schedules one after the other.\<close>

lemma timer_run_append:
  "timer_run pf mb es p = Inr q \<Longrightarrow> timer_run pf mb fs q = Inr r \<Longrightarrow> timer_run pf mb (es @ fs) p = Inr r"
  by (simp add: timer_run_def prog_run_append)

lemma timer_run_one: "timer_run pf mb [ev] p = prog_step pf (timer_codes mb) ev p"
  by (simp add: timer_run_def and_then_def split: sum.split)

lemma setup_step:
  assumes "i < 3" and "pr_pcs p i = Setup (c # cs)"
  shows "prog_step pf (timer_codes mb) (Run i) p = pr_call pf i c (Setup cs) p"
  using assms by (simp add: thread_step_def)

section \<open>Thread 2\<close>

abbreviation queues :: "('r, 'k, 'e) prog \<Rightarrow> mbox \<Rightarrow> Message Queue option" where
  "queues p \<equiv> w_queues (s_world (t_sys (pr_sys p)))"

lemma register_queues:
  "sys_exec lib (Call_Register m l) s = Inr (ok, s') \<Longrightarrow> w_queues (s_world s') = w_queues (s_world s)"
  by (auto simp: Mailbox_RegisterForLabel_def on_data_def and_then_eq_Inr split: prod.splits)

lemma new_queue: "sys_exec lib (Call_New m n) s = Inr (ok, s') \<Longrightarrow> w_queues (s_world s') m = Some (Queue_new n)"
  by (auto simp: Mailbox_new_def)

lemma mail_rest:
  "pl_exec pf (T_Mail c) s = (Inr ok, s') \<Longrightarrow>
     t_kernel s' = t_kernel s \<and> t_data s' = t_data s \<and> t_objs s' = t_objs s \<and> t_taken s' = t_taken s"
  by (auto simp: pl_exec_mail split: sum.splits prod.splits)

text \<open>What the start of the threads leaves alone.\<close>

definition same_timers :: "('r, 'k) tsys \<Rightarrow> ('r, 'k) tsys \<Rightarrow> bool" where
  "same_timers s s' \<longleftrightarrow> t_kernel s' = t_kernel s \<and> t_data s' = t_data s \<and> t_objs s' = t_objs s \<and> t_taken s' = t_taken s"

lemma registers_run:
  assumes "timer_demo_inv owns live armed pending mb p gs" and mb: "inj mb"
    and pf: "good_platform pf owns live armed pending"
    and "pr_pcs p 2 = Setup (map (\<lambda>l. T_Mail (Call_Register (mb 2) l)) ls)"
  shows "\<exists>q hs. timer_run pf mb (replicate (length ls) (Run 2)) p = Inr q \<and>
    timer_demo_inv owns live armed pending mb q hs \<and> pr_pcs q = (pr_pcs p)(2 := Setup []) \<and>
    queues q = queues p \<and> same_timers (pr_sys p) (pr_sys q)"
  using assms(1,4)
proof (induction ls arbitrary: p gs)
  case Nil
  then show ?case by (auto simp: timer_run_def same_timers_def fun_upd_idem)
next
  case (Cons l ls)
  let ?c = "T_Mail (Call_Register (mb 2) l)" and ?cs = "map (\<lambda>l. T_Mail (Call_Register (mb 2) l)) ls"
  have step: "prog_step pf (timer_codes mb) (Run 2) p = pr_call pf 2 ?c (Setup ?cs) p"
    using Cons.prems(2) by (intro setup_step) simp_all
  from demo_moves [OF Cons.prems(1) mb pf, of "Run 2"] obtain p' gs' where
      p': "pr_call pf 2 ?c (Setup ?cs) p = Inr p'" and inv': "timer_demo_inv owns live armed pending mb p' gs'"
    unfolding step by auto
  then obtain r s' where s': "pl_exec pf ?c (pr_sys p) = (Inr r, s')"
      "p' = pr_goto 2 (Setup ?cs) (p\<lparr>pr_sys := s'\<rparr>)" unfolding call_eq by blast
  note m = mail_frame [OF s'(1)] mail_rest [OF s'(1)]
  have "pr_pcs p' 2 = Setup ?cs" using s'(2) by simp
  from Cons.IH [OF inv' this] obtain q hs where q: "timer_run pf mb (replicate (length ls) (Run 2)) p' = Inr q"
      "timer_demo_inv owns live armed pending mb q hs" "pr_pcs q = (pr_pcs p')(2 := Setup [])"
      "queues q = queues p'" "same_timers (pr_sys p') (pr_sys q)" by blast
  have "timer_run pf mb (replicate (length (l # ls)) (Run 2)) p = Inr q"
    using q(1) step p' by (simp add: timer_run_def)
  then show ?case
    using q(2-) s'(2) m register_queues [OF conjunct1 [OF m(1)]] by (intro exI [of _ q] exI [of _ hs]) (simp add: same_timers_def)
qed

lemma thread2_ready:
  assumes inv: "timer_demo_inv owns live armed pending mb p gs" and mb: "inj mb"
    and pf: "good_platform pf owns live armed pending"
    and pc: "pr_pcs p 2 = Setup (th_setup (timer_thread2 (mb 2)))"
  shows "\<exists>q hs. timer_run pf mb (replicate 45 (Run 2)) p = Inr q \<and>
    timer_demo_inv owns live armed pending mb q hs \<and> pr_pcs q = (pr_pcs p)(2 := Loop) \<and>
    queues q (mb 2) = Some (Queue_new QUEUE_SIZE) \<and> same_timers (pr_sys p) (pr_sys q)"
proof -
  let ?ls = "ONE_SHOT_TIMER # labels_from_5 46 @ [EXIT_THREAD]"
  let ?c = "T_Mail (Call_New (mb 2) QUEUE_SIZE)" and ?cs = "map (\<lambda>l. T_Mail (Call_Register (mb 2) l)) ?ls"
  have len: "length ?ls = 43" by (simp add: labels_from_5_def)
  have step: "prog_step pf (timer_codes mb) (Run 2) p = pr_call pf 2 ?c (Setup ?cs) p"
    using pc by (intro setup_step) (simp_all add: timer_thread2_def)
  from demo_moves [OF inv mb pf, of "Run 2"] obtain p1 g1 where
      p1: "pr_call pf 2 ?c (Setup ?cs) p = Inr p1" and i1: "timer_demo_inv owns live armed pending mb p1 g1"
    unfolding step by auto
  then obtain r s' where s': "pl_exec pf ?c (pr_sys p) = (Inr r, s')"
      "p1 = pr_goto 2 (Setup ?cs) (p\<lparr>pr_sys := s'\<rparr>)" unfolding call_eq by blast
  note m = mail_frame [OF s'(1)] mail_rest [OF s'(1)]
  have new: "queues p1 (mb 2) = Some (Queue_new QUEUE_SIZE)" "same_timers (pr_sys p) (pr_sys p1)"
    using new_queue [OF conjunct1 [OF m(1)]] m(2) s'(2) by (simp_all add: same_timers_def)
  have "pr_pcs p1 2 = Setup ?cs" using s'(2) by simp
  from registers_run [OF i1 mb pf this] obtain p2 g2 where p2:
      "timer_run pf mb (replicate (length ?ls) (Run 2)) p1 = Inr p2"
      "timer_demo_inv owns live armed pending mb p2 g2" "pr_pcs p2 = (pr_pcs p1)(2 := Setup [])"
      "queues p2 = queues p1" "same_timers (pr_sys p1) (pr_sys p2)" by blast
  have last: "prog_step pf (timer_codes mb) (Run 2) p2 = Inr (pr_goto 2 Loop p2)"
    using p2(3) by (simp add: thread_step_def timer_thread2_def)
  from demo_next [OF p2(2) mb pf last] obtain g3 where
      i3: "timer_demo_inv owns live armed pending mb (pr_goto 2 Loop p2) g3" by blast
  have "timer_run pf mb [Run 2] p = Inr p1" "timer_run pf mb [Run 2] p2 = Inr (pr_goto 2 Loop p2)"
    using step p1 last by (simp_all only: timer_run_one)
  from timer_run_append [OF this(1) timer_run_append [OF p2(1) this(2)]]
  have "timer_run pf mb ([Run 2] @ replicate (length ?ls) (Run 2) @ [Run 2]) p = Inr (pr_goto 2 Loop p2)" .
  moreover have "replicate 45 (Run 2) = [Run 2] @ replicate (length ?ls) (Run 2) @ [Run 2]"
    unfolding len by (simp add: numeral_eq_Suc)
  ultimately have "timer_run pf mb (replicate 45 (Run 2)) p = Inr (pr_goto 2 Loop p2)" by (simp only:)
  then show ?thesis using i3 p2 new s'(2)
    by (intro exI [of _ "pr_goto 2 Loop p2"] exI [of _ g3]) (simp add: same_timers_def)
qed

section \<open>The timers\<close>

text \<open>The kernel and the buffer of the demonstration after \<open>n\<close> timers.\<close>

definition timer_room :: "nat \<Rightarrow> ('r, kernel) tsys \<Rightarrow> bool" where
  "timer_room n s \<longleftrightarrow> sk_limit (t_kernel s) = 100 \<and> sk_next (t_kernel s) = n \<and> t_taken s = None \<and>
     (\<forall>i \<ge> n. sk_timers (t_kernel s) i = None) \<and> sk_pending (t_kernel s) = [] \<and>
     (\<exists>tr. td_resources (t_data s) = Some tr \<and> mb_cur (tr_buffer tr) \<le> 4096 + 144 * n \<and>
        mb_end (tr_buffer tr) = 4096 + 65536 * 136)"

lemma start_demo:
  assumes room: "timer_room n s" "n < 100" and slot: "slot s l = nullptr"
    and time: "valid_timespec time" "time \<noteq> timespec_zero"
  obtains s' q where "pl_exec demo_platform (T_Start l time type) s = (Inr True, s')" "timer_room (Suc n) s'"
    "t_sys s' = t_sys s" "slot s' = (slot s)(l := q)"
    "t_objs s' q = Some \<lparr>tm_label = l, tm_timer = n, tm_type = type, tm_spec = timer_spec time type\<rparr>"
    "sk_timers (t_kernel s') n = Some (q, timer_spec time type)"
proof -
  from room(1) obtain tr where tr: "td_resources (t_data s) = Some tr" "mb_cur (tr_buffer tr) \<le> 4096 + 144 * n"
      "mb_end (tr_buffer tr) = 4096 + 65536 * 136" unfolding timer_room_def by blast
  let ?q = "align_up 8 (mb_cur (tr_buffer tr))"
  have q: "mb_cur (tr_buffer tr) \<le> ?q" "?q \<le> mb_cur (tr_buffer tr) + 7" by (auto simp: align_up_def)
  have alloc: "monotonic_allocate (tr_buffer tr) SIZEOF_TIMER ALIGNOF_TIMER =
      (Some ?q, (tr_buffer tr)\<lparr>mb_cur := ?q + 136\<rparr>)"
    using q tr(2,3) room(2) by (simp add: monotonic_allocate_def SIZEOF_TIMER_def ALIGNOF_TIMER_def Let_def max_def)
  let ?tm = "\<lparr>tm_label = l, tm_timer = n, tm_type = type, tm_spec = timer_spec time type\<rparr>"
  let ?k = "(t_kernel s)\<lparr>sk_next := Suc n, sk_timers := (sk_timers (t_kernel s))(n \<mapsto> (?q, timer_spec time type))\<rparr>"
  have "valid_timespec (it_interval (timer_spec time type))" using time(1) by (simp add: timer_spec_def split: TimerType.split)
  moreover have "valid_timespec (it_value (timer_spec time type))" using time(1) by (simp add: timer_spec_def)
  ultimately have new: "Timer_new (kernel_posix True) ?q l time type (t_kernel s) = (Inr ?tm, ?k)"
    using room by (simp add: Timer_new_eq kernel_posix_def kernel_create_def kernel_settime_def timer_room_def Let_def)
  let ?s = "set_resources (tr\<lparr>tr_buffer := (tr_buffer tr)\<lparr>mb_cur := ?q + 136\<rparr>, tr_timers := (tr_timers tr)(l := ?q)\<rparr>) s"
  let ?s2 = "?s\<lparr>t_kernel := ?k, t_objs := (t_objs s)(?q \<mapsto> ?tm)\<rparr>"
  show thesis
  proof (rule that [of ?s2 ?q])
    show "pl_exec demo_platform (T_Start l time type) s = (Inr True, ?s2)"
      using slot tr(1) alloc new
      by (simp add: pl_exec_def demo_platform_def TimerManager_StartTimer_timespec_def
          TimerManagerData_startTimer_def slot_def set_resources_def)
    show "timer_room (Suc n) ?s2" using q tr room by (auto simp: timer_room_def set_resources_def)
  qed (use tr(1) in \<open>simp_all add: set_resources_def slot_def fun_eq_iff\<close>)
qed

definition start_of :: "label \<times> timespec \<times> TimerType \<Rightarrow> tcall" where
  "start_of x = (case x of (l, time, type) \<Rightarrow> T_Start l time type)"

lemma main_start_step:
  assumes inv: "timer_demo_inv std_owns kernel_live kernel_armed sk_pending mb p gs" and mb: "inj mb"
    and pc: "pr_pcs p 0 = Setup (T_Start l time type # cs)" and room: "timer_room n (pr_sys p)" "n < 100"
    and slot: "slot (pr_sys p) l = nullptr" and time: "valid_timespec time" "time \<noteq> timespec_zero"
  obtains p' hs q where "prog_step demo_platform (timer_codes mb) (Run 0) p = Inr p'"
    "timer_demo_inv std_owns kernel_live kernel_armed sk_pending mb p' hs"
    "pr_pcs p' = (pr_pcs p)(0 := Setup cs)" "timer_room (Suc n) (pr_sys p')" "t_sys (pr_sys p') = t_sys (pr_sys p)"
    "slot (pr_sys p') = (slot (pr_sys p))(l := q)"
    "t_objs (pr_sys p') q = Some \<lparr>tm_label = l, tm_timer = n, tm_type = type, tm_spec = timer_spec time type\<rparr>"
    "sk_timers (t_kernel (pr_sys p')) n = Some (q, timer_spec time type)"
proof -
  from start_demo [OF room slot time] obtain s' q where s': "pl_exec demo_platform (T_Start l time type) (pr_sys p) = (Inr True, s')"
      "timer_room (Suc n) s'" "t_sys s' = t_sys (pr_sys p)" "slot s' = (slot (pr_sys p))(l := q)"
      "t_objs s' q = Some \<lparr>tm_label = l, tm_timer = n, tm_type = type, tm_spec = timer_spec time type\<rparr>"
      "sk_timers (t_kernel s') n = Some (q, timer_spec time type)" .
  let ?p' = "pr_goto 0 (Setup cs) (p\<lparr>pr_sys := s'\<rparr>)"
  have step: "prog_step demo_platform (timer_codes mb) (Run 0) p = Inr ?p'"
    using setup_step [of 0 p] pc s'(1) by (simp add: pr_call_def)
  from demo_next [OF inv mb timer_demo_platform step] obtain hs where
      "timer_demo_inv std_owns kernel_live kernel_armed sk_pending mb ?p' hs" by blast
  then show thesis using that [OF step] s'(2-) by simp
qed

lemma starts_run:
  assumes "timer_demo_inv std_owns kernel_live kernel_armed sk_pending mb p gs" and mb: "inj mb"
    and "pr_pcs p 0 = Setup (map start_of xs @ rest)" and "timer_room n (pr_sys p)" and "n + length xs \<le> 100"
    and "distinct (map fst xs)"
    and "\<forall>x \<in> set xs. slot (pr_sys p) (fst x) = nullptr \<and> valid_timespec (fst (snd x)) \<and>
      fst (snd x) \<noteq> timespec_zero"
  shows "\<exists>q hs. timer_run demo_platform mb (replicate (length xs) (Run 0)) p = Inr q \<and>
    timer_demo_inv std_owns kernel_live kernel_armed sk_pending mb q hs \<and>
    pr_pcs q = (pr_pcs p)(0 := Setup rest) \<and> timer_room (n + length xs) (pr_sys q) \<and>
    t_sys (pr_sys q) = t_sys (pr_sys p) \<and> (\<forall>l. l \<notin> fst ` set xs \<longrightarrow> slot (pr_sys q) l = slot (pr_sys p) l)"
  using assms(1,3-)
proof (induction xs arbitrary: p gs n)
  case Nil
  then show ?case by (auto simp: timer_run_def fun_upd_idem)
next
  case (Cons x xs)
  obtain l time type where x: "x = (l, time, type)" by (cases x) auto
  have pc: "pr_pcs p 0 = Setup (T_Start l time type # map start_of xs @ rest)"
    using Cons.prems(2) by (simp add: x start_of_def)
  have n: "n < 100" using Cons.prems(4) by simp
  have new: "slot (pr_sys p) l = nullptr" "valid_timespec time" "time \<noteq> timespec_zero"
    using Cons.prems(6) by (simp_all add: x)
  from main_start_step [OF Cons.prems(1) mb pc Cons.prems(3) n new] obtain p' hs q where p':
      "prog_step demo_platform (timer_codes mb) (Run 0) p = Inr p'"
      "timer_demo_inv std_owns kernel_live kernel_armed sk_pending mb p' hs"
      "pr_pcs p' = (pr_pcs p)(0 := Setup (map start_of xs @ rest))" "timer_room (Suc n) (pr_sys p')"
      "t_sys (pr_sys p') = t_sys (pr_sys p)" "slot (pr_sys p') = (slot (pr_sys p))(l := q)" .
  have new': "\<forall>x \<in> set xs. slot (pr_sys p') (fst x) = nullptr \<and> valid_timespec (fst (snd x)) \<and>
      fst (snd x) \<noteq> timespec_zero"
    using Cons.prems(5,6) p'(6) by (force simp: x)
  have rest: "pr_pcs p' 0 = Setup (map start_of xs @ rest)" "Suc n + length xs \<le> 100" "distinct (map fst xs)"
    using p'(3) Cons.prems(4,5) by simp_all
  from Cons.IH [OF p'(2) rest(1) p'(4) rest(2,3) new'] obtain r hs where r:
      "timer_run demo_platform mb (replicate (length xs) (Run 0)) p' = Inr r"
      "timer_demo_inv std_owns kernel_live kernel_armed sk_pending mb r hs"
      "pr_pcs r = (pr_pcs p')(0 := Setup rest)" "timer_room (Suc n + length xs) (pr_sys r)"
      "t_sys (pr_sys r) = t_sys (pr_sys p')" "\<forall>l. l \<notin> fst ` set xs \<longrightarrow> slot (pr_sys r) l = slot (pr_sys p') l"
    by blast
  have "timer_run demo_platform mb (replicate (length (x # xs)) (Run 0)) p = Inr r"
    using r(1) p'(1) by (simp add: timer_run_def)
  then show ?case using r(2-) p'(3,5,6) by (intro exI [of _ r] exI [of _ hs]) (simp add: x)
qed

section \<open>The schedule\<close>

lemma labels_from_5_Suc: "5 \<le> n \<Longrightarrow> labels_from_5 (Suc n) = labels_from_5 n @ [of_nat n]"
  by (simp add: labels_from_5_def)

lemma distinct_labels:
  assumes "n \<le> 46"
  shows "distinct (labels_from_5 n)"
proof -
  have "inj_on (of_nat :: nat \<Rightarrow> label) {5..<n}"
  proof (rule inj_onI)
    fix j k assume jk: "j \<in> {5..<n}" "k \<in> {5..<n}" and eq: "(of_nat j :: label) = of_nat k"
    from jk assms have "j < 46" "k < 46" by simp_all
    then have "unat (of_nat j :: label) = j" "unat (of_nat k :: label) = k" by (simp_all add: unat_of_nat)
    with arg_cong [OF eq, of unat] show "j = k" by (simp only:)
  qed
  then show ?thesis by (simp add: labels_from_5_def distinct_map)
qed

definition first_starts :: "(label \<times> timespec \<times> TimerType) list" where
  "first_starts = (RECURRING_TIMER, \<lparr>tv_sec = 0, tv_nsec = 750 * 1000000\<rparr>, PERIODIC) #
     map (\<lambda>l. (l, msec 100, ONE_SHOT)) (labels_from_5 45)"

definition last_calls :: "mbox \<Rightarrow> tcall list" where
  "last_calls m = [T_Start ONE_SHOT_TIMER (msec 900) ONE_SHOT, T_Mail (Call_Register m DONE)]"

lemma first_starts:
  "th_setup (timer_main m) = map start_of first_starts @ T_Start 45 (msec 100) ONE_SHOT # last_calls m"
  "length first_starts = 41" "distinct (map fst first_starts)" "45 \<notin> fst ` set first_starts"
  "\<forall>x \<in> set first_starts. valid_timespec (fst (snd x)) \<and> fst (snd x) \<noteq> timespec_zero"
proof -
  have 46: "labels_from_5 46 = labels_from_5 45 @ [45]" using labels_from_5_Suc [of 45] by simp
  have keep: "l \<noteq> RECURRING_TIMER \<and> l \<noteq> 45" if "l \<in> set (labels_from_5 45)" for l
    using labels_from_5_keeps [OF that] labels_from_5_last [OF that] by (auto simp: timer_labels word_le_nat_alt)
  show "th_setup (timer_main m) = map start_of first_starts @ T_Start 45 (msec 100) ONE_SHOT # last_calls m"
    by (simp add: timer_main_def 46 first_starts_def last_calls_def start_of_def comp_def)
  show "length first_starts = 41" by (simp add: first_starts_def labels_from_5_def)
  show "distinct (map fst first_starts)"
    using distinct_labels [of 45] keep by (auto simp: first_starts_def comp_def)
  show "45 \<notin> fst ` set first_starts" using keep [of 45] by (auto simp: first_starts_def timer_labels)
  show "\<forall>x \<in> set first_starts. valid_timespec (fst (snd x)) \<and> fst (snd x) \<noteq> timespec_zero"
    using valid_msec [of 100] by (auto simp: first_starts_def valid_timespec_def timespec_zero_def msec_eq NANO_def)
qed

lemma main_starts:
  assumes inv: "timer_demo_inv std_owns kernel_live kernel_armed sk_pending mb p gs" and mb: "inj mb"
    and pc: "pr_pcs p 0 = Setup (th_setup (timer_main (mb 0)))"
    and room: "timer_room 0 (pr_sys p)" and slots: "\<And>l. slot (pr_sys p) l = nullptr"
  obtains q hs a where "timer_run demo_platform mb (replicate 42 (Run 0)) p = Inr q"
    "timer_demo_inv std_owns kernel_live kernel_armed sk_pending mb q hs"
    "pr_pcs q = (pr_pcs p)(0 := Setup (last_calls (mb 0)))" "timer_room 42 (pr_sys q)"
    "t_sys (pr_sys q) = t_sys (pr_sys p)"
    "t_objs (pr_sys q) a = Some \<lparr>tm_label = 45, tm_timer = 41, tm_type = ONE_SHOT, tm_spec = timer_spec (msec 100) ONE_SHOT\<rparr>"
    "sk_timers (t_kernel (pr_sys q)) 41 = Some (a, timer_spec (msec 100) ONE_SHOT)"
proof -
  note f = first_starts(1) [of "mb 0"] first_starts(2-)
  have len: "0 + length first_starts \<le> 100" by (simp add: f(2))
  have ok: "\<forall>x \<in> set first_starts. slot (pr_sys p) (fst x) = nullptr \<and> valid_timespec (fst (snd x)) \<and>
      fst (snd x) \<noteq> timespec_zero"
    using f(5) slots by simp
  from starts_run [OF inv mb pc [unfolded f(1)] room len f(3) ok] obtain p1 g1 where p1:
      "timer_run demo_platform mb (replicate 41 (Run 0)) p = Inr p1"
      "timer_demo_inv std_owns kernel_live kernel_armed sk_pending mb p1 g1"
      "pr_pcs p1 = (pr_pcs p)(0 := Setup (T_Start 45 (msec 100) ONE_SHOT # last_calls (mb 0)))"
      "timer_room 41 (pr_sys p1)" "t_sys (pr_sys p1) = t_sys (pr_sys p)" "slot (pr_sys p1) 45 = slot (pr_sys p) 45"
    using f(2,4) by auto
  have pc1: "pr_pcs p1 0 = Setup (T_Start 45 (msec 100) ONE_SHOT # last_calls (mb 0))" using p1(3) by simp
  have slot: "slot (pr_sys p1) 45 = nullptr" using p1(6) slots by simp
  have time: "valid_timespec (msec 100)" "msec 100 \<noteq> timespec_zero"
    by (rule valid_msec, simp_all) (simp add: msec_eq timespec_zero_def)
  have "(41 :: nat) < 100" by simp
  from main_start_step [OF p1(2) mb pc1 p1(4) this slot time] obtain q hs a where q:
      "prog_step demo_platform (timer_codes mb) (Run 0) p1 = Inr q"
      "timer_demo_inv std_owns kernel_live kernel_armed sk_pending mb q hs"
      "pr_pcs q = (pr_pcs p1)(0 := Setup (last_calls (mb 0)))" "timer_room (Suc 41) (pr_sys q)"
      "t_sys (pr_sys q) = t_sys (pr_sys p1)"
      "t_objs (pr_sys q) a = Some \<lparr>tm_label = 45, tm_timer = 41, tm_type = ONE_SHOT, tm_spec = timer_spec (msec 100) ONE_SHOT\<rparr>"
      "sk_timers (t_kernel (pr_sys q)) 41 = Some (a, timer_spec (msec 100) ONE_SHOT)" .
  have "replicate 42 (Run 0) = replicate 41 (Run 0) @ [Run 0]"
    by (simp add: numeral_eq_Suc)
  moreover have "timer_run demo_platform mb [Run 0] p1 = Inr q" using q(1) by (simp only: timer_run_one)
  ultimately have "timer_run demo_platform mb (replicate 42 (Run 0)) p = Inr q"
    using timer_run_append [OF p1(1)] by simp
  then show thesis using that q(2-) p1(3,5) by simp
qed

text \<open>The timer of label 45 expires and its signal is handled while thread 2 waits in its loop.\<close>

lemma last_timer_fires:
  assumes inv: "timer_demo_inv std_owns kernel_live kernel_armed sk_pending mb p gs" and mb: "inj mb"
    and pc: "pr_pcs p 2 = Loop" and queue: "queues p (mb 2) = Some (Queue_new QUEUE_SIZE)"
    and room: "timer_room 42 (pr_sys p)"
    and tm: "t_objs (pr_sys p) a = Some \<lparr>tm_label = 45, tm_timer = 41, tm_type = ONE_SHOT, tm_spec = x\<rparr>"
    and k: "sk_timers (t_kernel (pr_sys p)) 41 = Some (a, x)" "it_value x \<noteq> timespec_zero"
  obtains q hs ls where "timer_run demo_platform mb [Tick 41, Signal_Thread, Signal_Thread] p = Inr q"
    "timer_demo_inv std_owns kernel_live kernel_armed sk_pending mb q hs"
    "pr_pcs q = pr_pcs p" "waiting (t_sys (pr_sys q)) (mb 2) = 45 # ls"
proof -
  note pf = timer_demo_platform
  have px: "sigtimedwait (pl_posix demo_platform) = kernel_wait" "pl_expire demo_platform = kernel_expire"
    by (simp_all add: demo_platform_def kernel_posix_def)
  let ?s = "(pr_sys p)\<lparr>t_kernel := kernel_expire (t_kernel (pr_sys p)) 41\<rparr>"
  let ?p1 = "p\<lparr>pr_sys := ?s\<rparr>"
  have tick: "prog_step demo_platform (timer_codes mb) (Tick 41) p = Inr ?p1"
    by (simp add: pl_exec_def px)
  from demo_next [OF inv mb pf tick] obtain g1 where
      i1: "timer_demo_inv std_owns kernel_live kernel_armed sk_pending mb ?p1 g1" by blast
  have pend: "fst (kernel_wait (t_kernel ?s)) = Some a" and idle: "t_taken ?s = None"
    using room k by (simp_all add: kernel_expire_def kernel_wait_def timer_room_def)
  from demo_moves [OF i1 mb pf, of Signal_Thread] pc idle obtain p2 g2 where p2:
      "prog_step demo_platform (timer_codes mb) Signal_Thread ?p1 = Inr p2"
      "timer_demo_inv std_owns kernel_live kernel_armed sk_pending mb p2 g2" by auto
  from p2(1) obtain r s2 where s2: "pl_exec demo_platform T_Signal ?s = (Inr r, s2)" "p2 = ?p1\<lparr>pr_sys := s2\<rparr>"
    by (auto split: prod.splits sum.splits)
  have took: "t_taken s2 = Some a" "t_sys s2 = t_sys (pr_sys p)" "t_objs s2 = t_objs (pr_sys p)"
    by (rule thread_frame [OF s2(1)]; use idle pend px(1) in simp)+
  from demo_moves [OF p2(2) mb pf, of Signal_Thread] pc s2(2) took tm obtain q hs where q:
      "prog_step demo_platform (timer_codes mb) Signal_Thread p2 = Inr q"
      "timer_demo_inv std_owns kernel_live kernel_armed sk_pending mb q hs" by auto
  from q(1) obtain r' s' where "pl_exec demo_platform T_Signal (pr_sys p2) = (Inr r', s')" "q = p2\<lparr>pr_sys := s'\<rparr>"
    by (auto split: prod.splits sum.splits)
  then have s': "pl_exec demo_platform T_Signal s2 = (Inr r', s')" "q = p\<lparr>pr_sys := s'\<rparr>" using s2(2) by simp_all
  have sent: "sys_exec (pl_lib demo_platform) (Call_SendSignal 45) (t_sys (pr_sys p)) = Inr (True, t_sys s')"
    by (rule thread_frame [OF s'(1)]) (use took tm in auto)
  have sys: "pr_sys p = over_hidden (left_behind mb (pr_pcs p)) gs" by (rule timer_demo_invD(2) [OF inv])
  have "Some (mb 2) \<in> set (receivers_of (w_data (s_world (t_sys gs))) 45)"
    using seats_kept [OF timer_demo_invD(3) [OF inv], of 2 45] pc by (simp add: abstract_def keeps_def)
  then have "Some (mb 2) \<in> set (registered_for (t_sys (pr_sys p)) 45)" using sys by simp
  from signal_delivers [OF sent this queue] obtain ls where "waiting (t_sys s') (mb 2) = 45 # ls"
    by (auto simp: Queue_new_def QUEUE_SIZE_def)
  moreover have "timer_run demo_platform mb [Tick 41, Signal_Thread, Signal_Thread] p = Inr q"
    using tick p2(1) q(1) by (simp add: timer_run_def and_then_def del: prog_step.simps)
  ultimately show thesis using that q(2) s'(2) by simp
qed

text \<open>Thread 2 takes it, shows it and releases it.\<close>

lemma thread2_takes_45:
  assumes inv: "timer_demo_inv std_owns kernel_live kernel_armed sk_pending mb p gs" and mb: "inj mb"
    and pc: "pr_pcs p 2 = Loop" and waits: "waiting (t_sys (pr_sys p)) (mb 2) = 45 # ls"
  obtains q msg where "timer_run demo_platform mb [Run 2, Run 2, Run 2] p = Inr q"
    "pr_pcs q = (pr_pcs p)(2 := Handling msg [Act (T_Mail (Call_SendSignal DONE))] False)"
proof -
  note pf = timer_demo_platform
  let ?send = "Act (T_Mail (Call_SendSignal DONE))"
  from demo_moves [OF inv mb pf, of "Run 2"] obtain p1 g1 where p1:
      "prog_step demo_platform (timer_codes mb) (Run 2) p = Inr p1"
      "timer_demo_inv std_owns kernel_live kernel_armed sk_pending mb p1 g1" by auto
  have "\<exists>msg. pr_pcs p1 = (pr_pcs p)(2 := Handling msg [Show, Release, ?send] False)"
  proof (cases "pl_exec demo_platform (T_Mail (Call_Receive (mb 2))) (pr_sys p)")
    case (Pair r s')
    then obtain got where got: "pl_exec demo_platform (T_Mail (Call_Receive (mb 2))) (pr_sys p) = (Inr got, s')"
      using p1(1) pc by (cases r) (simp_all add: thread_step_def timer_thread2_def)
    have "got" "m_label (last (s_held (t_sys s'))) = 45"
      using receive_frame [OF conjunct1 [OF mail_frame [OF got]]] waits by (auto split: if_splits)
    moreover have "timer_loop2 45 = ([Show, Release, ?send], False)"
      by (simp add: timer_loop2_def timer_labels)
    ultimately show ?thesis using p1(1) pc got by (auto simp: thread_step_def timer_thread2_def)
  qed
  then obtain msg where msg: "pr_pcs p1 = (pr_pcs p)(2 := Handling msg [Show, Release, ?send] False)" by blast
  from demo_moves [OF p1(2) mb pf, of "Run 2"] obtain p2 g2 where p2:
      "prog_step demo_platform (timer_codes mb) (Run 2) p1 = Inr p2"
      "timer_demo_inv std_owns kernel_live kernel_armed sk_pending mb p2 g2" by auto
  have 2: "pr_pcs p2 = (pr_pcs p1)(2 := Handling msg [Release, ?send] False)"
    using p2(1) msg by (auto simp: thread_step_def)
  from demo_moves [OF p2(2) mb pf, of "Run 2"] obtain p3 where p3:
      "prog_step demo_platform (timer_codes mb) (Run 2) p2 = Inr p3" by auto
  have "pr_pcs p3 = (pr_pcs p2)(2 := Handling msg [?send] False)"
    using p3 2 by (auto simp: thread_step_def call_eq)
  then have "pr_pcs p3 = (pr_pcs p)(2 := Handling msg [?send] False)" using msg 2 by simp
  moreover have "timer_run demo_platform mb [Run 2, Run 2, Run 2] p = Inr p3"
    using p1(1) p2(1) p3 by (simp add: timer_run_def and_then_def del: prog_step.simps)
  ultimately show thesis using that by blast
qed

text \<open>The whole schedule, from the start.\<close>

definition late_schedule :: "event list" where
  "late_schedule = replicate 45 (Run 2) @ replicate 42 (Run 0) @ [Tick 41, Signal_Thread, Signal_Thread] @ [Run 2, Run 2, Run 2]"

lemma done_too_early:
  "\<exists>p msg. timer_run demo_platform demo_mb late_schedule (timer_start demo_mb timer_demo_ready) = Inr p \<and>
     pr_pcs p 2 = Handling msg [Act (T_Mail (Call_SendSignal DONE))] False \<and>
     pr_pcs p 0 = Setup (last_calls (demo_mb 0))"
proof -
  note pf = timer_demo_platform and mb = demo_platform_ok(2)
  let ?p = "timer_start demo_mb timer_demo_ready"
  have start: "pr_sys ?p = timer_demo_ready" "pr_pcs ?p 0 = Setup (th_setup (timer_main (demo_mb 0)))"
      "pr_pcs ?p 2 = Setup (th_setup (timer_thread2 (demo_mb 2)))"
    by (simp_all add: timer_start_def prog_start_def)
  note t = timer_init_timers [OF timer_demo_init(1)]
  from thread2_ready [OF timer_start_inv [OF pf mb timer_demo_ready] mb pf start(3)] obtain p1 g1 where p1:
      "timer_run demo_platform demo_mb (replicate 45 (Run 2)) ?p = Inr p1"
      "timer_demo_inv std_owns kernel_live kernel_armed sk_pending demo_mb p1 g1"
      "pr_pcs p1 = (pr_pcs ?p)(2 := Loop)" "queues p1 (demo_mb 2) = Some (Queue_new QUEUE_SIZE)"
      "same_timers timer_demo_ready (pr_sys p1)" unfolding start(1) by blast
  have room: "timer_room 0 (pr_sys p1)" and slots: "slot (pr_sys p1) l = nullptr" for l
    using p1(5) t(1,3) timer_demo_init(2)
    by (simp_all add: timer_room_def same_timers_def slot_def kernel_new_def TimerResources_new_def
        monotonic_new_def MAX_TIMERS_def SIZEOF_TIMER_def)
  have pc0: "pr_pcs p1 0 = Setup (th_setup (timer_main (demo_mb 0)))" using p1(3) start(2) by simp
  from main_starts [OF p1(2) mb pc0 room slots] obtain p2 g2 a where p2:
      "timer_run demo_platform demo_mb (replicate 42 (Run 0)) p1 = Inr p2"
      "timer_demo_inv std_owns kernel_live kernel_armed sk_pending demo_mb p2 g2"
      "pr_pcs p2 = (pr_pcs p1)(0 := Setup (last_calls (demo_mb 0)))" "timer_room 42 (pr_sys p2)"
      "t_sys (pr_sys p2) = t_sys (pr_sys p1)"
      "t_objs (pr_sys p2) a = Some \<lparr>tm_label = 45, tm_timer = 41, tm_type = ONE_SHOT, tm_spec = timer_spec (msec 100) ONE_SHOT\<rparr>"
      "sk_timers (t_kernel (pr_sys p2)) 41 = Some (a, timer_spec (msec 100) ONE_SHOT)" .
  have loop: "pr_pcs p2 2 = Loop" and queue: "queues p2 (demo_mb 2) = Some (Queue_new QUEUE_SIZE)"
    using p1(3,4) p2(3,5) by simp_all
  have "it_value (timer_spec (msec 100) ONE_SHOT) \<noteq> timespec_zero"
    by (simp add: timer_spec_def msec_eq timespec_zero_def)
  from last_timer_fires [OF p2(2) mb loop queue p2(4,6,7) this] obtain p3 g3 ls where p3:
      "timer_run demo_platform demo_mb [Tick 41, Signal_Thread, Signal_Thread] p2 = Inr p3"
      "timer_demo_inv std_owns kernel_live kernel_armed sk_pending demo_mb p3 g3" "pr_pcs p3 = pr_pcs p2"
      "waiting (t_sys (pr_sys p3)) (demo_mb 2) = 45 # ls" .
  have "pr_pcs p3 2 = Loop" using p3(3) loop by simp
  from thread2_takes_45 [OF p3(2) mb this p3(4)] obtain p4 msg where p4:
      "timer_run demo_platform demo_mb [Run 2, Run 2, Run 2] p3 = Inr p4"
      "pr_pcs p4 = (pr_pcs p3)(2 := Handling msg [Act (T_Mail (Call_SendSignal DONE))] False)" .
  from timer_run_append [OF p1(1) timer_run_append [OF p2(1) timer_run_append [OF p3(1) p4(1)]]]
  have "timer_run demo_platform demo_mb late_schedule ?p = Inr p4" unfolding late_schedule_def .
  moreover have "pr_pcs p4 0 = Setup (last_calls (demo_mb 0))" "pr_pcs p4 2 = Handling msg [Act (T_Mail (Call_SendSignal DONE))] False"
    using p4(2) p3(3) p2(3) by simp_all
  ultimately show ?thesis by blast
qed

end
