(* ===== verification/TimerLost.thy ===== *)
theory TimerLost
  imports TimerLate
begin

text \<open>
  Why \<^verbatim>\<open>example/timer.cpp\<close> can wait for ever: the signal of label 45 that makes thread 2 send \<^verbatim>\<open>DONE\<close>
  exists once, and \<^verbatim>\<open>main\<close> registers for \<^verbatim>\<open>DONE\<close> after it has started the timers.
\<close>

section \<open>One signal of label 45\<close>

fun starts :: "label \<Rightarrow> tcall \<Rightarrow> bool" where
  "starts l (T_Start k time type) \<longleftrightarrow> k = l"
| "starts l c \<longleftrightarrow> False"

fun starts_left :: "label \<Rightarrow> thread_pc \<Rightarrow> nat" where
  "starts_left l (Setup cs) = length (filter (starts l) cs)"
| "starts_left l pc = 0"

fun sends_done :: "thread_pc \<Rightarrow> bool" where
  "sends_done (Handling msg acts brk) \<longleftrightarrow> Act (T_Mail (Call_SendSignal DONE)) \<in> set acts"
| "sends_done pc \<longleftrightarrow> False"

text \<open>
  Where the order to end the program can be: in a timer still to be started, running or pending, in
  thread 2's mailbox or hands, in the mailbox of \<^verbatim>\<open>main\<close>.
\<close>

definition tokens :: "(nat \<Rightarrow> mbox) \<Rightarrow> ('r, 'k) tsys \<Rightarrow> (nat \<Rightarrow> thread_pc) \<Rightarrow> nat" where
  "tokens mb s pcs = starts_left 45 (pcs 0) + of_bool (slot s 45 \<noteq> nullptr) +
     count_list (waiting (t_sys s) (mb 2)) 45 + of_bool (sends_done (pcs 2)) +
     count_list (waiting (t_sys s) (mb 0)) DONE"

definition once ::
  "(nat \<Rightarrow> mbox) \<Rightarrow> ('r, 'k) tsys \<Rightarrow> (nat \<Rightarrow> thread_pc) \<Rightarrow> bool" where
  "once mb s pcs \<longleftrightarrow>
     (\<forall>tm \<in> ran (t_objs s). tm_label tm \<noteq> DONE \<and> (tm_label tm = 45 \<longrightarrow> tm_type tm = ONE_SHOT)) \<and>
     count_list (registered_for (t_sys s) 45) (Some (mb 2)) + of_bool (awaits (mb 2) 45 (pcs 2)) \<le> 1 \<and>
     count_list (registered_for (t_sys s) DONE) (Some (mb 0)) + of_bool (awaits (mb 0) DONE (pcs 0)) \<le> 1 \<and>
     (\<forall>l. l \<noteq> DONE \<longrightarrow> Some (mb 0) \<notin> set (registered_for (t_sys s) l)) \<and>
     set (waiting (t_sys s) (mb 0)) \<subseteq> {DONE}"

text \<open>What a step keeps.\<close>

definition steady ::
  "(nat \<Rightarrow> mbox) \<Rightarrow> ('r, 'k) tsys \<Rightarrow> (nat \<Rightarrow> thread_pc) \<Rightarrow> ('r, 'k) tsys \<Rightarrow> (nat \<Rightarrow> thread_pc) \<Rightarrow> bool" where
  "steady mb s pcs s' pcs' \<longleftrightarrow> once mb s' pcs' \<and> tokens mb s' pcs' \<le> tokens mb s pcs"

lemma label_facts [simp]:
  "DONE \<noteq> 45" "EXIT_THREAD \<noteq> 45" "RECURRING_TIMER \<noteq> 45" "EXIT_THREAD \<noteq> DONE"
  by (simp_all add: timer_labels)

lemma count_replicate: "count_list (replicate k x) y = (if x = y then k else 0)"
  by (induction k) auto

lemma count_add_loop:
  "add_loop (Some m) rs = (ok, rs') \<Longrightarrow>
     count_list rs' (Some k) \<le> count_list rs (Some k) + of_bool (k = m) \<and> set rs' \<subseteq> insert (Some m) (set rs)"
  by (cases rule: add_loop_cases [of rs "Some m"]) auto

lemma obj_slot:
  assumes "timer_demo_inv owns live armed pending mb p gs" and "t_objs (pr_sys p) q = Some tm"
  shows "slot (pr_sys p) (tm_label tm) \<noteq> nullptr"
proof -
  note I = timer_demo_invD [OF assms(1)]
  from I(1) obtain tr where tr: "td_resources (t_data gs) = Some tr"
      "timer_inv live armed pending tr (t_objs gs) (t_kernel gs)"
    by (auto simp: tsys_inv_def)
  then show ?thesis using timer_invD(4) [OF tr(2), of q tm] assms(2) I(2) by (auto simp: slot_def)
qed

section \<open>Calls\<close>

lemma steady_move:
  assumes "once mb s pcs" and "starts_left 45 pc \<le> starts_left 45 (pcs i)"
    and "\<And>l. awaits (mb i) l pc = awaits (mb i) l (pcs i)" and "sends_done pc \<Longrightarrow> sends_done (pcs i)"
  shows "steady mb s pcs s (pcs(i := pc))"
  using assms by (auto simp: steady_def once_def tokens_def of_bool_def)

text \<open>What the position of a thread contributes.\<close>

lemma pcs_less:
  assumes "starts_left 45 pc \<le> starts_left 45 (pcs i)" and "sends_done pc \<Longrightarrow> sends_done (pcs i)"
  shows "starts_left 45 ((pcs(i := pc)) 0) \<le> starts_left 45 (pcs 0)"
    "of_bool (sends_done ((pcs(i := pc)) 2)) \<le> (of_bool (sends_done (pcs 2)) :: nat)"
  using assms by (cases "i = 0"; cases "i = 2"; auto)+

text \<open>A call that only empties a mailbox.\<close>

lemma steady_empty:
  assumes "once mb s pcs" and "registered_for (t_sys s') = registered_for (t_sys s)"
    and "\<And>m. waiting (t_sys s') m = waiting (t_sys s) m \<or> waiting (t_sys s') m = []"
    and "slot s' = slot s" and "t_objs s' = t_objs s"
    and pc: "starts_left 45 pc \<le> starts_left 45 (pcs i)" "sends_done pc \<Longrightarrow> sends_done (pcs i)"
    and "\<And>l. awaits (mb i) l pc = awaits (mb i) l (pcs i)"
  shows "steady mb s pcs s' (pcs(i := pc))"
proof -
  have "set (waiting (t_sys s') (mb 0)) \<subseteq> {DONE}"
    using assms(1) assms(3) [of "mb 0"] by (auto simp: once_def)
  then have "once mb s' (pcs(i := pc))"
    using assms(1,2,5,8) by (auto simp: once_def)
  moreover have "count_list (waiting (t_sys s') (mb 2)) 45 \<le> count_list (waiting (t_sys s) (mb 2)) 45"
      "count_list (waiting (t_sys s') (mb 0)) DONE \<le> count_list (waiting (t_sys s) (mb 0)) DONE"
    using assms(3) [of "mb 2"] assms(3) [of "mb 0"] by auto
  moreover note pcs_less [where pcs = pcs and i = i, OF pc]
  ultimately show ?thesis using assms(4) unfolding steady_def tokens_def by (simp add: add_mono)
qed

text \<open>A signal, with the label \<open>l\<close>.\<close>

lemma steady_signal:
  assumes once: "once mb s pcs" and sent: "sys_exec lib (Call_SendSignal l) (t_sys s) = Inr (ok, t_sys s')"
    and slots: "\<And>k. k \<noteq> l \<Longrightarrow> slot s' k = slot s k" and objs: "ran (t_objs s') \<subseteq> ran (t_objs s)"
    and last: "l = 45 \<Longrightarrow> slot s' l = nullptr \<and> slot s l \<noteq> nullptr"
    and reply: "l = DONE \<Longrightarrow> i = 2 \<and> sends_done (pcs 2) \<and> \<not> sends_done pc"
    and pc: "starts_left 45 pc \<le> starts_left 45 (pcs i)" "sends_done pc \<Longrightarrow> sends_done (pcs i)"
    and await: "\<And>l. awaits (mb i) l pc = awaits (mb i) l (pcs i)"
  shows "steady mb s pcs s' (pcs(i := pc)) \<and>
    (l = DONE \<and> awaits (mb 0) DONE (pcs 0) \<longrightarrow> tokens mb s' (pcs(i := pc)) < tokens mb s pcs)"
proof -
  from signal_frame [OF sent, of "mb 2"] obtain k where k:
      "k \<le> count_list (registered_for (t_sys s) l) (Some (mb 2))"
      "waiting (t_sys s') (mb 2) = waiting (t_sys s) (mb 2) @ replicate k l" by blast
  from signal_frame [OF sent, of "mb 0"] obtain j where j:
      "registered_for (t_sys s') = registered_for (t_sys s)"
      "j \<le> count_list (registered_for (t_sys s) l) (Some (mb 0))"
      "waiting (t_sys s') (mb 0) = waiting (t_sys s) (mb 0) @ replicate j l" by blast
  have "j = 0" if "l \<noteq> DONE"
    using once that j(2) by (auto simp: once_def count_list_0_iff)
  then have j_eq: "l = DONE \<or> j = 0" by blast
  then have "set (waiting (t_sys s') (mb 0)) \<subseteq> {DONE}" using once j(3) by (auto simp: once_def)
  then have "once mb s' (pcs(i := pc))" using once objs await j(1) by (auto simp: once_def)
  moreover have "count_list (waiting (t_sys s') (mb 2)) 45 + of_bool (slot s' 45 \<noteq> nullptr) \<le>
      count_list (waiting (t_sys s) (mb 2)) 45 + of_bool (slot s 45 \<noteq> nullptr)"
  proof (cases "l = 45")
    case True
    then have "k \<le> 1" using k(1) once by (auto simp: once_def)
    then show ?thesis using True last k(2) by (simp add: count_replicate)
  next
    case False
    then show ?thesis using slots [of 45] k(2) by (simp add: count_replicate)
  qed
  moreover have "count_list (waiting (t_sys s') (mb 0)) DONE + of_bool (sends_done ((pcs(i := pc)) 2)) \<le>
      count_list (waiting (t_sys s) (mb 0)) DONE + of_bool (sends_done (pcs 2)) \<and>
    (l = DONE \<and> awaits (mb 0) DONE (pcs 0) \<longrightarrow>
      count_list (waiting (t_sys s') (mb 0)) DONE + of_bool (sends_done ((pcs(i := pc)) 2)) <
      count_list (waiting (t_sys s) (mb 0)) DONE + of_bool (sends_done (pcs 2)))"
  proof (cases "l = DONE")
    case True
    then have "j + of_bool (awaits (mb 0) DONE (pcs 0)) \<le> 1" using j(2) once by (auto simp: once_def)
    then show ?thesis using True reply j(3) by (auto simp: count_replicate)
  next
    case False
    then show ?thesis using j_eq j(3) pcs_less(2) [where pcs = pcs and i = i, OF pc] by (simp add: count_replicate)
  qed
  moreover note pcs_less(1) [where pcs = pcs and i = i, OF pc]
  ultimately show ?thesis unfolding steady_def tokens_def by linarith
qed

lemma steady_register:
  assumes once: "once mb s pcs" and mb: "inj mb"
    and call: "sys_exec lib (Call_Register (mb i) l) (t_sys s) = Inr (ok, t_sys s')"
      "slot s' = slot s" "t_objs s' = t_objs s"
    and pc: "starts_left 45 pc \<le> starts_left 45 (pcs i)" "sends_done pc \<Longrightarrow> sends_done (pcs i)"
    and reg: "i = 0 \<Longrightarrow> l = DONE \<and> awaits (mb 0) DONE (pcs 0) \<and> \<not> awaits (mb 0) DONE pc"
      "i = 2 \<Longrightarrow> l = 45 \<Longrightarrow> awaits (mb 2) 45 (pcs 2) \<and> \<not> awaits (mb 2) 45 pc"
      "i = 2 \<Longrightarrow> awaits (mb 2) 45 pc \<Longrightarrow> awaits (mb 2) 45 (pcs 2)"
  shows "steady mb s pcs s' (pcs(i := pc))"
proof -
  let ?rs = "registered_for (t_sys s) l"
  note f = register_frame [OF call(1)]
  obtain b rs' where a: "add_loop (Some (mb i)) ?rs = (b, rs')" by fastforce
  note c = count_add_loop [OF a]
  have "count_list (registered_for (t_sys s') 45) (Some (mb 2)) + of_bool (awaits (mb 2) 45 ((pcs(i := pc)) 2)) \<le> 1"
    using once f c [of "mb 2"] reg(2,3) inj_eq [OF mb, of 2 i]
    by (auto simp: once_def a of_bool_def split: if_splits)
  moreover have "count_list (registered_for (t_sys s') DONE) (Some (mb 0)) + of_bool (awaits (mb 0) DONE ((pcs(i := pc)) 0)) \<le> 1"
    using once f c [of "mb 0"] reg(1) inj_eq [OF mb, of 0 i]
    by (auto simp: once_def a of_bool_def split: if_splits)
  moreover have "Some (mb 0) \<notin> set (registered_for (t_sys s') k)" if "k \<noteq> DONE" for k
    using that once f c [of "mb 0"] reg(1) inj_eq [OF mb, of 0 i]
    by (auto simp: once_def a split: if_splits)
  ultimately have "once mb s' (pcs(i := pc))" using once f call(3) by (auto simp: once_def)
  moreover note pcs_less [where pcs = pcs and i = i, OF pc]
  ultimately show ?thesis using f call(2) by (auto simp: steady_def tokens_def split: if_splits)
qed

lemma steady_unregister:
  assumes once: "once mb s pcs"
    and call: "sys_exec lib (Call_Unregister (mb i) l) (t_sys s) = Inr (ok, t_sys s')"
      "slot s' = slot s" "t_objs s' = t_objs s"
    and l: "l \<noteq> 45" "l \<noteq> DONE" and pc: "pcs i = Finish (c # cs)" "pc = Finish cs"
  shows "steady mb s pcs s' (pcs(i := pc))"
proof -
  note f = unregister_frame [OF call(1)]
  have "Some (mb 0) \<notin> set (registered_for (t_sys s') k)"
    if "Some (mb 0) \<notin> set (registered_for (t_sys s) k)" for k
    using that f by (cases "k = l") auto
  then show ?thesis using once f l call(2,3) pc by (auto simp: steady_def once_def tokens_def)
qed

lemma steady_timer:
  assumes once: "once mb s pcs" and s: "t_sys s' = t_sys s"
    and objs: "\<And>tm. tm \<in> ran (t_objs s') \<Longrightarrow> tm \<in> ran (t_objs s) \<or> tm_label tm \<noteq> DONE \<and> (tm_label tm = 45 \<longrightarrow> tm_type tm = ONE_SHOT)"
    and tok: "starts_left 45 pc + of_bool (slot s' 45 \<noteq> nullptr) \<le> starts_left 45 (pcs 0) + of_bool (slot s 45 \<noteq> nullptr)"
    and pc: "\<And>l. awaits (mb 0) l pc = awaits (mb 0) l (pcs 0)"
  shows "steady mb s pcs s' (pcs(0 := pc))"
proof -
  have "once mb s' (pcs(0 := pc))" using once objs pc s by (auto simp: once_def)
  then show ?thesis using tok s by (simp add: steady_def tokens_def)
qed

section \<open>Steps\<close>

lemma distinct_setup2: "distinct (th_setup (timer_thread2 m))"
proof -
  let ?ls = "ONE_SHOT_TIMER # labels_from_5 46 @ [EXIT_THREAD]"
  have "ONE_SHOT_TIMER \<notin> set (labels_from_5 46)" "EXIT_THREAD \<notin> set (labels_from_5 46)"
    using labels_from_5_keeps [of _ 46] by (fastforce simp: timer_labels)+
  then have "distinct ?ls" using distinct_labels [of 46] by (simp add: timer_labels)
  moreover have "inj_on (\<lambda>l. T_Mail (Call_Register m l)) (set ?ls)" by (rule inj_onI) simp
  moreover have "th_setup (timer_thread2 m) =
      T_Mail (Call_New m QUEUE_SIZE) # map (\<lambda>l. T_Mail (Call_Register m l)) ?ls"
    by (simp add: timer_thread2_def)
  moreover have "T_Mail (Call_New m QUEUE_SIZE) \<notin> set (map (\<lambda>l. T_Mail (Call_Register m l)) ?ls)" by auto
  ultimately show ?thesis by (simp only: distinct.simps distinct_map simp_thms)
qed

lemma register_once:
  assumes "i \<in> threads" and "suffix (T_Mail (Call_Register (mb i) l) # cs) (th_setup (timer_codes mb ! i))"
    and "i \<noteq> 1"
  shows "T_Mail (Call_Register (mb i) l) \<notin> set cs"
proof (cases "i = 0")
  case True
  obtain xs where x: "th_setup (timer_main (mb 0)) = xs @ T_Mail (Call_Register (mb 0) l) # cs"
    using assms(2) True by (auto simp: suffix_def)
  have "length (filter (\<lambda>c. \<exists>l. c = T_Mail (Call_Register (mb 0) l)) (th_setup (timer_main (mb 0)))) = 1"
    by (simp add: timer_main_def filter_map comp_def)
  then show ?thesis using True by (auto simp: x filter_empty_conv)
next
  case False
  then have "distinct (th_setup (timer_codes mb ! i))"
    using assms(1,3) distinct_setup2 by (auto simp: threads_def)
  then show ?thesis using assms(2) by (auto simp: suffix_def)
qed

lemma steady_setup:
  assumes i: "i \<in> threads" and once: "once mb (pr_sys p) (pr_pcs p)" and mb: "inj mb"
    and pc: "pr_pcs p i = Setup (c # cs)" and suf: "suffix (c # cs) (th_setup (timer_codes mb ! i))"
    and step: "pr_call pf i c (Setup cs) p = Inr p'"
  shows "steady mb (pr_sys p) (pr_pcs p) (pr_sys p') (pr_pcs p')"
proof -
  from step obtain r s' where s': "pl_exec pf c (pr_sys p) = (Inr r, s')"
      "p' = pr_goto i (Setup cs) (p\<lparr>pr_sys := s'\<rparr>)" unfolding call_eq by blast
  from i suf show ?thesis
  proof (cases rule: setup_call)
    case new
    then have c: "sys_exec (pl_lib pf) (Call_New (mb i) QUEUE_SIZE) (t_sys (pr_sys p)) = Inr (r, t_sys s')"
        "slot s' = slot (pr_sys p)" "t_objs s' = t_objs (pr_sys p)"
      using mail_frame [OF s'(1) [unfolded new(2)]] by simp_all
    from new_frame [OF c(1)] show ?thesis using once c new pc
      by (simp add: s'(2)) (rule steady_empty, simp_all)
  next
    case (register l)
    then have c: "sys_exec (pl_lib pf) (Call_Register (mb i) l) (t_sys (pr_sys p)) = Inr (r, t_sys s')"
        "slot s' = slot (pr_sys p)" "t_objs s' = t_objs (pr_sys p)"
      using mail_frame [OF s'(1) [unfolded register(1)]] by simp_all
    have "i \<noteq> 1 \<Longrightarrow> T_Mail (Call_Register (mb i) l) \<notin> set cs"
      using register_once [OF i] suf register(1) by simp
    moreover have "i = 0 \<Longrightarrow> l = DONE" using register(2) by (auto simp: keeps_def leaves_def)
    ultimately show ?thesis using pc register(1)
      by (simp add: s'(2)) (rule steady_register [OF once mb c], auto)
  next
    case (start l time type)
    note f = start_frame [OF s'(1) [unfolded start(2)]]
    show ?thesis using f start pc
      by (simp add: s'(2)) (rule steady_timer [OF once], auto)
  qed
qed

lemma steady_receive:
  assumes once: "once mb s pcs" and mb: "inj mb" and pc: "pcs i = Loop"
    and call: "pl_exec pf (T_Mail (Call_Receive (mb i))) s = (Inr True, s')"
    and handle: "th_handle (timer_codes mb ! i) (m_label msg) = (acts, brk)" and i: "i \<in> threads"
    and msg: "msg = last (s_held (t_sys s'))"
  shows "steady mb s pcs s' (pcs(i := Handling msg acts brk))"
proof -
  note m = mail_frame [OF call]
  from m receive_frame [of "pl_lib pf" "mb i" "t_sys s" True "t_sys s'"] have f:
      "registered_for (t_sys s') = registered_for (t_sys s)"
      "waiting (t_sys s) (mb i) = m_label msg # waiting (t_sys s') (mb i)"
      "\<And>k. k \<noteq> mb i \<Longrightarrow> waiting (t_sys s') k = waiting (t_sys s) k" by (auto simp: msg)
  have box: "set (waiting (t_sys s') k) \<subseteq> set (waiting (t_sys s) k)"
      "count_list (waiting (t_sys s') k) x \<le> count_list (waiting (t_sys s) k) x" for k x
    using f(2) f(3) [of k] by (cases "k = mb i"; auto)+
  have "once mb s' (pcs(i := Handling msg acts brk))"
    using once m f(1) box(1) [of "mb 0"] pc by (auto simp: once_def)
  moreover have "count_list (waiting (t_sys s') (mb 2)) 45 + of_bool (sends_done ((pcs(i := Handling msg acts brk)) 2)) \<le>
      count_list (waiting (t_sys s) (mb 2)) 45 + of_bool (sends_done (pcs 2))"
  proof (cases "i = 2")
    case True
    have "sends_done (Handling msg acts brk) \<Longrightarrow> m_label msg = 45"
      using handle True by (auto simp: timer_thread2_def timer_loop2_def split: if_splits)
    then show ?thesis using True f(2) by (auto simp: of_bool_def)
  next
    case False
    then show ?thesis using box(2) by simp
  qed
  moreover have "starts_left 45 ((pcs(i := Handling msg acts brk)) 0) \<le> starts_left 45 (pcs 0)" by simp
  ultimately show ?thesis using m box(2) [of "mb 0" DONE] unfolding steady_def tokens_def by simp
qed

lemma steady_finish:
  assumes i: "i \<in> threads" and once: "once mb (pr_sys p) (pr_pcs p)" and mb: "inj mb"
    and pc: "pr_pcs p i = Finish (c # cs)" and suf: "suffix (c # cs) (th_finish (timer_codes mb ! i))"
    and step: "pr_call pf i c (Finish cs) p = Inr p'"
  shows "steady mb (pr_sys p) (pr_pcs p) (pr_sys p') (pr_pcs p')"
proof -
  from step obtain r s' where s': "pl_exec pf c (pr_sys p) = (Inr r, s')"
      "p' = pr_goto i (Finish cs) (p\<lparr>pr_sys := s'\<rparr>)" unfolding call_eq by blast
  from i suf show ?thesis
  proof (cases rule: finish_call)
    case signal
    note m = mail_frame [OF s'(1) [unfolded signal(2)]]
    show ?thesis using pc by (simp add: s'(2)) (rule steady_signal [OF once conjunct1 [OF m], THEN conjunct1], use m in auto)
  next
    case (unregister l)
    note m = mail_frame [OF s'(1) [unfolded unregister(2)]]
    have "l \<noteq> 45" "l \<noteq> DONE" using unregister(3) by (auto simp: leaves_def timer_labels)
    with m pc show ?thesis by (simp add: s'(2)) (rule steady_unregister [OF once conjunct1 [OF m]], auto)
  next
    case (register l)
    note m = mail_frame [OF s'(1) [unfolded register(2)]]
    show ?thesis using m pc register
      by (simp add: s'(2)) (rule steady_register [OF once mb], auto)
  qed
qed

lemma steady_action:
  assumes i: "i \<in> threads" and once: "once mb (pr_sys p) (pr_pcs p)"
    and pc: "pr_pcs p i = Handling msg (a # acts) brk"
    and suf: "suffix (a # acts) (fst (th_handle (timer_codes mb ! i) (m_label msg)))"
    and step: "action_step pf (timer_codes mb ! i) i msg a (Handling msg acts brk) p = Inr p'"
  shows "steady mb (pr_sys p) (pr_pcs p) (pr_sys p') (pr_pcs p')"
proof -
  let ?pc = "Handling msg acts brk"
  from i suf show ?thesis
  proof (cases rule: handle_call)
    case shown
    then have "pr_sys p' = pr_sys p" "pr_pcs p' = (pr_pcs p)(i := ?pc)" using step by auto
    then show ?thesis using steady_move [OF once, of ?pc i] pc by simp
  next
    case release
    then obtain k r s' where s': "pl_exec pf (T_Mail (Call_Release k)) (pr_sys p) = (Inr r, s')"
        "p' = pr_goto i ?pc (p\<lparr>pr_sys := s'\<rparr>)" using step by (auto simp: call_eq)
    note m = mail_frame [OF s'(1)]
    show ?thesis using m release_frame [OF conjunct1 [OF m]] pc
      by (simp add: s'(2)) (rule steady_empty [OF once], auto)
  next
    case cancel
    then obtain r s' where s': "pl_exec pf (T_Cancel RECURRING_TIMER) (pr_sys p) = (Inr r, s')"
        "p' = pr_goto i ?pc (p\<lparr>pr_sys := s'\<rparr>)" using step by (auto simp: call_eq)
    have "slot s' 45 = slot (pr_sys p) 45" using cancel_frame [OF s'(1)] label_facts(3) by metis
    then show ?thesis using cancel_frame [OF s'(1)] pc cancel(1)
      by (simp add: s'(2)) (rule steady_timer [OF once], auto)
  next
    case signal
    then obtain r s' where s': "pl_exec pf (T_Mail (Call_SendSignal DONE)) (pr_sys p) = (Inr r, s')"
        "p' = pr_goto i ?pc (p\<lparr>pr_sys := s'\<rparr>)" using step by (auto simp: call_eq)
    note m = mail_frame [OF s'(1)]
    show ?thesis using pc signal(1)
      by (simp add: s'(2)) (rule steady_signal [OF once conjunct1 [OF m], THEN conjunct1], use m signal in auto)
  qed
qed

lemma steady_close:
  assumes i: "i \<in> threads" and once: "once mb (pr_sys p) (pr_pcs p)" and pc: "pr_pcs p i = Closing (c # cs)"
    and suf: "suffix (c # cs) (th_close (timer_codes mb ! i))" and step: "pr_call pf i c (Closing cs) p = Inr p'"
  shows "steady mb (pr_sys p) (pr_pcs p) (pr_sys p') (pr_pcs p')"
proof -
  have c: "c = T_Mail (Call_Destroy (mb i))" using suf by (auto simp: thread_code [OF i] suffix_Cons)
  from step obtain r s' where s': "pl_exec pf c (pr_sys p) = (Inr r, s')"
      "p' = pr_goto i (Closing cs) (p\<lparr>pr_sys := s'\<rparr>)" unfolding call_eq by blast
  note m = mail_frame [OF s'(1) [unfolded c]]
  show ?thesis using m destroy_frame [OF conjunct1 [OF m]] pc
    by (simp add: s'(2)) (rule steady_empty [OF once], auto)
qed

lemma steady_thread:
  assumes inv: "timer_demo_inv owns live armed pending mb p gs" and i: "i \<in> threads"
    and once: "once mb (pr_sys p) (pr_pcs p)" and mb: "inj mb"
    and step: "thread_step pf (timer_codes mb ! i) i p = Inr p'"
  shows "steady mb (pr_sys p) (pr_pcs p) (pr_sys p') (pr_pcs p')"
proof -
  have move: "steady mb (pr_sys p) (pr_pcs p) (pr_sys p) ((pr_pcs p)(i := pc))"
    if "starts_left 45 pc \<le> starts_left 45 (pr_pcs p i)" "\<And>l. awaits (mb i) l pc = awaits (mb i) l (pr_pcs p i)"
      "sends_done pc \<Longrightarrow> sends_done (pr_pcs p i)" for pc
    by (rule steady_move [OF once that])
  note same = move [OF order_refl refl, simplified]
  note code = timer_demo_invD(5) [OF inv i]
  show ?thesis
  proof (cases "pr_pcs p i" rule: thread_pc_cases)
    case ready
    then show ?thesis using step thread_code(2) [OF i] move [of Loop] by (auto simp: thread_step_def)
  next
    case (starting c cs)
    with step code steady_setup [OF i once mb starting] show ?thesis by (simp add: thread_step_def)
  next
    case looping
    show ?thesis
    proof (cases "pl_exec pf (T_Mail (Call_Receive (mb i))) (pr_sys p)")
      case (Pair r s')
      show ?thesis
      proof (cases "r = Inr True")
        case True
        obtain acts brk where h: "th_handle (timer_codes mb ! i) (m_label (last (s_held (t_sys s')))) = (acts, brk)"
          by fastforce
        then have "p' = pr_goto i (Handling (last (s_held (t_sys s'))) acts brk) (p\<lparr>pr_sys := s'\<rparr>)"
          using step looping Pair True thread_code(1) [OF i] by (simp add: thread_step_def)
        then show ?thesis using steady_receive [OF once mb looping Pair [unfolded True] h i refl] by simp
      next
        case False
        then have "p' = p"
          using step looping Pair thread_code(1) [OF i] by (auto simp: thread_step_def split: sum.splits if_splits)
        then show ?thesis using same by simp
      qed
    qed
  next
    case (handling msg acts brk)
    show ?thesis
    proof (cases acts)
      case Nil
      then show ?thesis using step handling move [of Loop] move [of "Finish (th_finish (timer_codes mb ! i))"]
        by (auto simp: thread_step_def split: if_splits)
    next
      case (Cons a as)
      with step code handling steady_action [OF i once, of msg a as brk pf p'] show ?thesis
        by (simp add: thread_step_def)
    qed
  next
    case finished
    then show ?thesis using step move [of Joining] by (auto simp: thread_step_def)
  next
    case (finishing c cs)
    with step code steady_finish [OF i once mb finishing] show ?thesis by (simp add: thread_step_def)
  next
    case joining
    then show ?thesis using step same move [of "Closing (th_close (timer_codes mb ! i))"]
      by (auto simp: thread_step_def split: if_splits)
  next
    case closed
    then show ?thesis using step move [of Returned] by (auto simp: thread_step_def)
  next
    case (closing c cs)
    with step code steady_close [OF i once closing] show ?thesis by (simp add: thread_step_def)
  next
    case returned
    then show ?thesis using step same by (simp add: thread_step_def)
  qed
qed

lemma steady_event:
  assumes inv: "timer_demo_inv owns live armed pending mb p gs" and once: "once mb (pr_sys p) (pr_pcs p)"
    and mb: "inj mb" and step: "prog_step pf (timer_codes mb) ev p = Inr p'"
  shows "steady mb (pr_sys p) (pr_pcs p) (pr_sys p') (pr_pcs p')"
proof (cases ev)
  case (Run i)
  show ?thesis
  proof (cases "i \<in> threads")
    case True
    then have "i < 3" by (auto simp: threads_def)
    then show ?thesis using steady_thread [OF inv True once mb] step Run by simp
  next
    case False
    then have "\<not> i < 3" by (auto simp: threads_def)
    then show ?thesis using step Run once by (simp add: steady_def)
  qed
next
  case (Tick n)
  then obtain r s' where "pl_exec pf (T_Expire n) (pr_sys p) = (Inr r, s')" "p' = p\<lparr>pr_sys := s'\<rparr>"
    using step by (auto split: prod.splits sum.splits)
  with expire_frame [OF this(1)] once show ?thesis by (simp add: steady_def once_def tokens_def)
next
  case Signal_Thread
  then obtain r s' where s': "pl_exec pf T_Signal (pr_sys p) = (Inr r, s')" "p' = p\<lparr>pr_sys := s'\<rparr>"
    using step by (auto split: prod.splits sum.splits)
  show ?thesis
  proof (cases rule: thread_frame [OF s'(1)])
    case 1
    then show ?thesis using once s'(2) by (simp add: steady_def once_def tokens_def)
  next
    case (2 q tm)
    note 2 = 2(2-)
    have "tm_label tm \<noteq> DONE" "tm_label tm = 45 \<Longrightarrow> tm_type tm = ONE_SHOT" using once 2(1) by (auto simp: once_def ran_def)
    then have "steady mb (pr_sys p) (pr_pcs p) s' ((pr_pcs p)(0 := pr_pcs p 0))"
      by (intro steady_signal [OF once 2(2), THEN conjunct1]) (use 2 obj_slot [OF inv 2(1)] in auto)
    then show ?thesis using s'(2) by simp
  qed
qed

lemma lost_token:
  assumes once: "once mb (pr_sys p) (pr_pcs p)"
    and pc: "pr_pcs p 2 = Handling msg (Act (T_Mail (Call_SendSignal DONE)) # acts) brk"
    and code: "code_pc (timer_codes mb ! 2) (pr_pcs p 2)" and await: "awaits (mb 0) DONE (pr_pcs p 0)"
    and step: "prog_step pf (timer_codes mb) (Run 2) p = Inr p'"
  shows "tokens mb (pr_sys p') (pr_pcs p') < tokens mb (pr_sys p) (pr_pcs p)"
proof -
  from code pc have suf: "suffix (Act (T_Mail (Call_SendSignal DONE)) # acts) (fst (th_handle (timer_codes mb ! 2) (m_label msg)))"
    by simp
  have acts: "acts = []"
    by (rule handle_call [OF threads_simps(4) suf]) simp_all
  from step pc obtain r s' where s': "pl_exec pf (T_Mail (Call_SendSignal DONE)) (pr_sys p) = (Inr r, s')"
      "p' = pr_goto 2 (Handling msg acts brk) (p\<lparr>pr_sys := s'\<rparr>)"
    by (auto simp: thread_step_def call_eq)
  note m = mail_frame [OF s'(1)]
  have "steady mb (pr_sys p) (pr_pcs p) s' ((pr_pcs p)(2 := Handling msg acts brk)) \<and>
      (DONE = DONE \<and> awaits (mb 0) DONE (pr_pcs p 0) \<longrightarrow>
       tokens mb s' ((pr_pcs p)(2 := Handling msg acts brk)) < tokens mb (pr_sys p) (pr_pcs p))"
    by (rule steady_signal [OF once conjunct1 [OF m]]) (use m pc acts in auto)
  then show ?thesis using await s'(2) by simp
qed

section \<open>The start\<close>

lemma waiting_view:
  "waiting y m = (case a_queues (abstract y) m of None \<Rightarrow> [] | Some v \<Rightarrow> map fst v)"
  by (simp add: waiting_def abstract_def view_def view_msg_def comp_def split: option.split)

lemma starts_left_main: "starts_left 45 (Setup (th_setup (timer_main m))) = 1"
proof -
  have "length (filter (starts 45) (map (\<lambda>x. T_Start x t type) ls)) = count_list ls 45" for ls t type
    by (induction ls) auto
  moreover have "count_list (labels_from_5 46) 45 = 1"
    using distinct_labels [of 46] labels_from_5_all [of 45] by (simp add: count_distinct)
  ultimately show ?thesis by (simp add: timer_main_def timer_labels)
qed

lemma start_once:
  assumes pf: "good_platform pf owns live armed pending" and mb: "inj mb"
    and s: "timer_ready pf live armed pending (mb 0) s"
  shows "once mb s (pr_pcs (timer_start mb s))" "tokens mb s (pr_pcs (timer_start mb s)) = 1"
proof -
  note r = timer_ready_inv [OF pf s]
  from s obtain base mem k where "timer_main_init pf (Some (base, \<lambda>_. nullptr)) (mb 0) (process_new mem k) = Inr (True, s)"
    by (auto simp: timer_ready_def)
  note t = timer_init_timers [OF this]
  have reg: "registered_for (t_sys s) l = [None, None, None]" for l
    using r(2) by (simp add: abstract_def fun_eq_iff)
  have empty: "waiting (t_sys s) m = []" for m by (simp add: waiting_view r(3))
  have pcs: "pr_pcs (timer_start mb s) 0 = Setup (th_setup (timer_main (mb 0)))"
      "pr_pcs (timer_start mb s) 2 = Setup (th_setup (timer_thread2 (mb 2)))"
    by (simp_all add: timer_start_def prog_start_def timer_codes_def)
  show "once mb s (pr_pcs (timer_start mb s))" by (simp add: once_def reg empty t(2))
  show "tokens mb s (pr_pcs (timer_start mb s)) = 1"
    by (simp add: tokens_def pcs starts_left_main empty slot_def t(1) TimerResources_new_def del: starts_left.simps)
qed

section \<open>The runs\<close>

lemma once_run:
  assumes "timer_demo_inv owns live armed pending mb p gs" and mb: "inj mb"
    and pf: "good_platform pf owns live armed pending" and "once mb (pr_sys p) (pr_pcs p)"
    and "timer_run pf mb es p = Inr q"
  shows "\<exists>hs. timer_demo_inv owns live armed pending mb q hs \<and> steady mb (pr_sys p) (pr_pcs p) (pr_sys q) (pr_pcs q)"
  using assms(1,4,5)
proof (induction es arbitrary: p gs)
  case Nil
  then show ?case by (auto simp: timer_run_def steady_def)
next
  case (Cons ev es)
  then obtain p' where p': "prog_step pf (timer_codes mb) ev p = Inr p'" "timer_run pf mb es p' = Inr q"
    by (auto simp: timer_run_def and_then_eq_Inr)
  note s = steady_event [OF Cons.prems(1,2) mb p'(1)]
  from demo_next [OF Cons.prems(1) mb pf p'(1)] obtain gs' where
      "timer_demo_inv owns live armed pending mb p' gs'" by blast
  from Cons.IH [OF this _ p'(2)] s show ?case by (fastforce simp: steady_def)
qed

text \<open>\<^verbatim>\<open>main\<close> has not come past its loop.\<close>

fun in_loop :: "thread_pc \<Rightarrow> bool" where
  "in_loop (Setup cs) \<longleftrightarrow> True"
| "in_loop Loop \<longleftrightarrow> True"
| "in_loop pc \<longleftrightarrow> False"

lemma stuck_step:
  assumes "in_loop (pr_pcs p 0)" and empty: "waiting (t_sys (pr_sys p)) (mb 0) = []"
    and step: "prog_step pf (timer_codes mb) ev p = Inr p'"
  shows "in_loop (pr_pcs p' 0)"
proof -
  have main: "in_loop (pr_pcs p' 0)" if run: "thread_step pf (timer_codes mb ! 0) 0 p = Inr p'"
  proof (cases "pr_pcs p 0" rule: thread_pc_cases)
    case ready
    then show ?thesis using run thread_code(2) [of 0] by (auto simp: thread_step_def)
  next
    case (starting c cs)
    then show ?thesis using run by (auto simp: thread_step_def call_eq)
  next
    case looping
    have "\<not> ok" if "pl_exec pf (T_Mail (Call_Receive (mb 0))) (pr_sys p) = (Inr ok, s')" for ok s'
      using receive_frame [OF conjunct1 [OF mail_frame [OF that]]] empty by (auto split: if_splits)
    then show ?thesis using run looping thread_code(1) [of 0]
      by (auto simp: thread_step_def timer_main_def split: prod.splits sum.splits if_splits)
  qed (use assms(1) in auto)
  show ?thesis
  proof (cases ev)
    case (Run i)
    show ?thesis
    proof (cases "i = 0")
      case True
      then show ?thesis using main step Run by simp
    next
      case False
      then show ?thesis using thread_other [of pf _ i p p' 0] step Run assms(1) by (auto split: if_splits)
    qed
  qed (use step assms(1) in \<open>auto split: prod.splits sum.splits\<close>)
qed

lemma no_token:
  assumes "once mb s pcs" and "tokens mb s pcs = 0"
  shows "waiting (t_sys s) (mb 0) = []"
proof -
  have "set (waiting (t_sys s) (mb 0)) \<subseteq> {DONE}" "DONE \<notin> set (waiting (t_sys s) (mb 0))"
    using assms by (auto simp: once_def tokens_def count_list_0_iff)
  then show ?thesis by (cases "waiting (t_sys s) (mb 0)") simp_all
qed

lemma stuck_run:
  assumes "timer_demo_inv owns live armed pending mb p gs" and mb: "inj mb"
    and pf: "good_platform pf owns live armed pending" and "once mb (pr_sys p) (pr_pcs p)"
    and "tokens mb (pr_sys p) (pr_pcs p) = 0" and "in_loop (pr_pcs p 0)" and "timer_run pf mb es p = Inr q"
  shows "in_loop (pr_pcs q 0) \<and> waiting (t_sys (pr_sys q)) (mb 0) = []"
  using assms(1,4-)
proof (induction es arbitrary: p gs)
  case Nil
  then show ?case using no_token [OF Nil.prems(2,3)] by (auto simp: timer_run_def)
next
  case (Cons ev es)
  then obtain p' where p': "prog_step pf (timer_codes mb) ev p = Inr p'" "timer_run pf mb es p' = Inr q"
    by (auto simp: timer_run_def and_then_eq_Inr)
  note s = steady_event [OF Cons.prems(1,2) mb p'(1)]
  from stuck_step [OF Cons.prems(4) no_token [OF Cons.prems(2,3)] p'(1)] have "in_loop (pr_pcs p' 0)" .
  moreover from demo_next [OF Cons.prems(1) mb pf p'(1)] obtain gs' where
      "timer_demo_inv owns live armed pending mb p' gs'" by blast
  ultimately show ?case using Cons.IH [OF _ _ _ _ p'(2)] s Cons.prems(3) by (fastforce simp: steady_def)
qed

text \<open>
  C37. The order to end the program \<^verbatim>\<open>example/timer.cpp\<close> can be lost: if thread 2 sends \<^verbatim>\<open>DONE\<close> (it has
  received the signal of the last one-shot timer) before \<^verbatim>\<open>main\<close>, which starts its timers first, has
  registered for \<^verbatim>\<open>DONE\<close>, then under every schedule from there on that does not end
  in a fault \<^verbatim>\<open>main\<close> never leaves its loop: its mailbox stays empty and the program does not end.
\<close>
theorem timer_done_lost:
  assumes "good_platform pf owns live armed pending" and "inj mb"
    and "timer_ready pf live armed pending (mb 0) s"
    and "timer_run pf mb es (timer_start mb s) = Inr p"
    and "pr_pcs p 2 = Handling msg (Act (T_Mail (Call_SendSignal DONE)) # acts) brk"
    and "pr_pcs p 0 = Setup cs" and "T_Mail (Call_Register (mb 0) DONE) \<in> set cs"
    and "timer_run pf mb (Run 2 # fs) p = Inr q"
  shows "(pr_pcs q 0 = Loop \<or> (\<exists>cs. pr_pcs q 0 = Setup cs)) \<and> waiting (t_sys (pr_sys q)) (mb 0) = []"
proof -
  have start: "pr_sys (timer_start mb s) = s" by (simp add: timer_start_def prog_start_def)
  note o1 = start_once [OF assms(1-3)]
  from once_run [OF timer_start_inv [OF assms(1-3)] assms(2,1) _ assms(4)] o1 start obtain gs where
      p: "timer_demo_inv owns live armed pending mb p gs" "once mb (pr_sys p) (pr_pcs p)"
      "tokens mb (pr_sys p) (pr_pcs p) \<le> 1"
    by (auto simp: steady_def)
  obtain p' where p': "prog_step pf (timer_codes mb) (Run 2) p = Inr p'" "timer_run pf mb fs p' = Inr q"
    using assms(8) by (auto simp: timer_run_def and_then_eq_Inr)
  have "tokens mb (pr_sys p') (pr_pcs p') < tokens mb (pr_sys p) (pr_pcs p)"
    using assms(6,7) by (intro lost_token [OF p(2) assms(5) timer_demo_invD(5) [OF p(1)] _ p'(1)]) auto
  with p(3) have zero: "tokens mb (pr_sys p') (pr_pcs p') = 0" by simp
  have once: "once mb (pr_sys p') (pr_pcs p')"
    using steady_event [OF p(1,2) assms(2) p'(1)] by (simp add: steady_def)
  from demo_next [OF p(1) assms(2,1) p'(1)] obtain gs' where
      inv: "timer_demo_inv owns live armed pending mb p' gs'" by blast
  have "pr_pcs p' 0 = pr_pcs p 0"
    using p'(1) assms(5) by (auto simp: thread_step_def call_eq)
  then have "in_loop (pr_pcs p' 0)" using assms(6) by simp
  from stuck_run [OF inv assms(2,1) once zero this p'(2)] show ?thesis by (auto elim: in_loop.elims)
qed

theorem timer_done_lost_witness:
  "\<exists>q. timer_run demo_platform demo_mb (late_schedule @ [Run 2]) (timer_start demo_mb timer_demo_ready) = Inr q \<and>
     (pr_pcs q 0 = Loop \<or> (\<exists>cs. pr_pcs q 0 = Setup cs)) \<and> waiting (t_sys (pr_sys q)) (demo_mb 0) = []"
proof -
  note pf = timer_demo_platform and mb = demo_platform_ok(2)
  obtain p msg where p: "timer_run demo_platform demo_mb late_schedule (timer_start demo_mb timer_demo_ready) = Inr p"
      "pr_pcs p 2 = Handling msg [Act (T_Mail (Call_SendSignal DONE))] False"
      "pr_pcs p 0 = Setup (last_calls (demo_mb 0))"
    using done_too_early by blast
  from timer_run_inv [OF timer_start_inv [OF pf mb timer_demo_ready] mb pf, of late_schedule] p(1) obtain gs where
      "timer_demo_inv std_owns kernel_live kernel_armed sk_pending demo_mb p gs" by auto
  from demo_moves [OF this mb pf, of "Run 2"] obtain q where q:
      "prog_step demo_platform (timer_codes demo_mb) (Run 2) p = Inr q" by auto
  have "T_Mail (Call_Register (demo_mb 0) DONE) \<in> set (last_calls (demo_mb 0))" by (simp add: last_calls_def)
  moreover have one: "timer_run demo_platform demo_mb [Run 2] p = Inr q" using q by (simp only: timer_run_one)
  ultimately show ?thesis
    using timer_done_lost [OF pf mb timer_demo_ready p] timer_run_append [OF p(1) one] by blast
qed

end
