(* ===== verification/CommandLine.thy ===== *)
theory CommandLine
  imports MailboxData "HOL-Library.Char_ord"
begin

text \<open>
  The command lines of \<^verbatim>\<open>example/mbox.cpp\<close>, \<^verbatim>\<open>sandbox/pool.cpp\<close> and \<^verbatim>\<open>sandbox/queue.cpp\<close>: the loops over
  \<^verbatim>\<open>getopt\<close>. What \<^verbatim>\<open>getopt\<close> returns, option letters with their arguments up to \<^verbatim>\<open>EOF\<close>, is an
  argument of the model; the numbers are read by \<^verbatim>\<open>std::stoul\<close> and \<^verbatim>\<open>std::stoi\<close>.
\<close>

section \<open>Numbers\<close>

definition is_space :: "char \<Rightarrow> bool" where
  "is_space c \<longleftrightarrow> c = CHR '' '' \<or> (9 \<le> (of_char c :: nat) \<and> (of_char c :: nat) \<le> 13)"

definition is_digit :: "char \<Rightarrow> bool" where
  "is_digit c \<longleftrightarrow> 48 \<le> (of_char c :: nat) \<and> (of_char c :: nat) \<le> 57"

definition digit :: "char \<Rightarrow> nat" where
  "digit c = of_char c - 48"

text \<open>A sign and the digits that follow, after white space; \<open>None\<close>: no number.\<close>

definition read_decimal :: "string \<Rightarrow> (bool \<times> nat) option" where
  "read_decimal str =
     (let s = dropWhile is_space str;
          neg = (s \<noteq> [] \<and> hd s = CHR ''-'');
          ds = takeWhile is_digit (if s \<noteq> [] \<and> (hd s = CHR ''-'' \<or> hd s = CHR ''+'') then tl s else s)
      in if ds = [] then None else Some (neg, foldl (\<lambda>n c. 10 * n + digit c) 0 ds))"

datatype conversion_error = invalid_argument | out_of_range

text \<open>\<^verbatim>\<open>strtoul\<close> negates after reading, modulo \<open>2 ^ 64\<close>.\<close>

definition stoul :: "string \<Rightarrow> conversion_error + 64 word" where
  "stoul str =
     (case read_decimal str of
        None \<Rightarrow> Inl invalid_argument
      | Some (neg, n) \<Rightarrow>
          if n < 2 ^ 64 then Inr (if neg then - of_nat n else of_nat n) else Inl out_of_range)"

definition stoi :: "string \<Rightarrow> conversion_error + 32 word" where
  "stoi str =
     (case read_decimal str of
        None \<Rightarrow> Inl invalid_argument
      | Some (neg, n) \<Rightarrow>
          let i = (if neg then - int n else int n)
          in if - (2 ^ 31) \<le> i \<and> i < 2 ^ 31 then Inr (of_int i) else Inl out_of_range)"

section \<open>The loops\<close>

text \<open>How \<^verbatim>\<open>main\<close> gets past its options, or not.\<close>

datatype 'a options_end = Options 'a | Usage_Exit int | Uncaught conversion_error

definition take_number :: "conversion_error + 'n \<Rightarrow> ('n \<Rightarrow> 'a options_end) \<Rightarrow> 'a options_end" where
  "take_number x k = (case x of Inl e \<Rightarrow> Uncaught e | Inr n \<Rightarrow> k n)"

record mbox_options =
  smallSize :: size_t
  smallCap :: size_t
  largeSize :: size_t
  largeCap :: size_t

definition mbox_defaults :: mbox_options where
  "mbox_defaults = \<lparr>smallSize = 256, smallCap = 256, largeSize = 2048, largeCap = 32\<rparr>"

fun mbox_getopt :: "(char \<times> string) list \<Rightarrow> mbox_options \<Rightarrow> mbox_options options_end" where
  "mbox_getopt [] opts = Options opts"
| "mbox_getopt ((c, optarg) # rest) opts =
     (if c = CHR ''s'' then take_number (stoul optarg) (\<lambda>n. mbox_getopt rest (opts\<lparr>smallSize := n\<rparr>))
      else if c = CHR ''S'' then take_number (stoul optarg) (\<lambda>n. mbox_getopt rest (opts\<lparr>smallCap := n\<rparr>))
      else if c = CHR ''l'' then take_number (stoul optarg) (\<lambda>n. mbox_getopt rest (opts\<lparr>largeSize := n\<rparr>))
      else if c = CHR ''L'' then take_number (stoul optarg) (\<lambda>n. mbox_getopt rest (opts\<lparr>largeCap := n\<rparr>))
      else if c = CHR ''?'' then Usage_Exit 1
      else mbox_getopt rest opts)"

text \<open>\<^verbatim>\<open>spdlog\<close>'s levels are the numbers 0 to 6; the casts do not check.\<close>

record pool_options =
  storageSize :: size_t
  capacity :: size_t
  elementSize :: size_t
  po_log :: "32 word"

definition pool_defaults :: pool_options where
  "pool_defaults = \<lparr>storageSize = 16384, capacity = 16, elementSize = 16, po_log = 0\<rparr>"

fun pool_getopt :: "(char \<times> string) list \<Rightarrow> pool_options \<Rightarrow> pool_options options_end" where
  "pool_getopt [] opts = Options opts"
| "pool_getopt ((c, optarg) # rest) opts =
     (if c = CHR ''s'' then take_number (stoul optarg) (\<lambda>n. pool_getopt rest (opts\<lparr>storageSize := n\<rparr>))
      else if c = CHR ''c'' then take_number (stoul optarg) (\<lambda>n. pool_getopt rest (opts\<lparr>capacity := n\<rparr>))
      else if c = CHR ''e'' then take_number (stoul optarg) (\<lambda>n. pool_getopt rest (opts\<lparr>elementSize := n\<rparr>))
      else if c = CHR ''l'' then take_number (stoul optarg) (\<lambda>n. pool_getopt rest (opts\<lparr>po_log := ucast n\<rparr>))
      else if c = CHR ''?'' then Usage_Exit 1
      else pool_getopt rest opts)"

record queue_options =
  qo_storageSize :: size_t
  qo_count :: size_t
  queueSize :: size_t
  qo_log :: "32 word"

definition queue_defaults :: queue_options where
  "queue_defaults = \<lparr>qo_storageSize = 12228, qo_count = 10, queueSize = 5, qo_log = 0\<rparr>"

fun queue_getopt :: "(char \<times> string) list \<Rightarrow> queue_options \<Rightarrow> queue_options options_end" where
  "queue_getopt [] opts = Options opts"
| "queue_getopt ((c, optarg) # rest) opts =
     (if c = CHR ''s'' then take_number (stoul optarg) (\<lambda>n. queue_getopt rest (opts\<lparr>qo_storageSize := n\<rparr>))
      else if c = CHR ''c'' then take_number (stoul optarg) (\<lambda>n. queue_getopt rest (opts\<lparr>qo_count := n\<rparr>))
      else if c = CHR ''q'' then take_number (stoul optarg) (\<lambda>n. queue_getopt rest (opts\<lparr>queueSize := n\<rparr>))
      else if c = CHR ''l'' then take_number (stoi optarg) (\<lambda>n. queue_getopt rest (opts\<lparr>qo_log := n\<rparr>))
      else if c = CHR ''?'' then Usage_Exit 1
      else queue_getopt rest opts)"

section \<open>Reading numbers back\<close>

fun decimal :: "nat \<Rightarrow> string" where
  "decimal n = (if n < 10 then [] else decimal (n div 10)) @ [char_of (48 + n mod 10)]"

declare decimal.simps [simp del]

lemma digit_char: "k < 10 \<Longrightarrow> is_digit (char_of (48 + k)) \<and> digit (char_of (48 + k)) = (k :: nat)"
  by (simp add: is_digit_def digit_def)

lemma decimal_digits: "list_all is_digit (decimal n)"
  by (induction n rule: decimal.induct) (subst decimal.simps, simp add: digit_char)

lemma decimal_value: "foldl (\<lambda>n c. 10 * n + digit c) 0 (decimal n) = n"
proof (induction n rule: decimal.induct)
  case (1 n)
  then show ?case by (subst decimal.simps) (auto simp: digit_char)
qed

lemma decimal_not_Nil: "decimal n \<noteq> []"
  by (subst decimal.simps) simp

lemma digit_not_sign: "is_digit c \<Longrightarrow> \<not> is_space c \<and> c \<noteq> CHR ''-'' \<and> c \<noteq> CHR ''+''"
  by (auto simp: is_digit_def is_space_def)

lemma read_decimal_decimal: "read_decimal (decimal n) = Some (False, n)"
proof -
  obtain c cs where d: "decimal n = c # cs" using decimal_not_Nil by (cases "decimal n") auto
  have "list_all is_digit (c # cs)" using decimal_digits [of n] by (simp add: d)
  then have "dropWhile is_space (c # cs) = c # cs" "takeWhile is_digit (c # cs) = c # cs"
      "c \<noteq> CHR ''-''" "c \<noteq> CHR ''+''"
    using digit_not_sign [of c] by (auto simp: list_all_iff takeWhile_eq_all_conv)
  then show ?thesis using decimal_value [of n] by (simp add: read_decimal_def d Let_def)
qed

lemma read_decimal_minus: "read_decimal (CHR ''-'' # decimal n) = Some (True, n)"
proof -
  have sign: "\<not> is_space (CHR ''-'')" by (simp add: is_space_def)
  have digits: "takeWhile is_digit (decimal n) = decimal n"
    using decimal_digits [of n] by (simp only: takeWhile_eq_all_conv list_all_iff)
  show ?thesis by (simp add: read_decimal_def Let_def sign digits decimal_value decimal_not_Nil)
qed

lemma stoul_decimal: "n < 2 ^ 64 \<Longrightarrow> stoul (decimal n) = Inr (of_nat n)"
  by (simp add: stoul_def read_decimal_decimal)

lemma stoi_decimal: "n < 2 ^ 31 \<Longrightarrow> stoi (decimal n) = Inr (of_nat n)"
  by (simp add: stoi_def read_decimal_decimal)

section \<open>Reading options\<close>

text \<open>The last value given for an option, or its default.\<close>

definition chosen :: "char \<Rightarrow> (char \<times> nat) list \<Rightarrow> 'a::len word \<Rightarrow> 'a word" where
  "chosen c vs x = last (x # map (\<lambda>v. of_nat (snd v)) (filter (\<lambda>v. fst v = c) vs))"

lemma chosen_simps [simp]:
  "chosen c [] x = x" "chosen c ((b, n) # vs) x = chosen c vs (if b = c then of_nat n else x)"
  by (simp_all add: chosen_def)

lemma options_eta:
  "opts = \<lparr>smallSize = smallSize opts, smallCap = smallCap opts, largeSize = largeSize opts, largeCap = largeCap opts\<rparr>"
  "opts' = \<lparr>storageSize = storageSize opts', capacity = capacity opts', elementSize = elementSize opts', po_log = po_log opts'\<rparr>"
  "opts'' = \<lparr>qo_storageSize = qo_storageSize opts'', qo_count = qo_count opts'', queueSize = queueSize opts'', qo_log = qo_log opts''\<rparr>"
  by simp_all

definition typed :: "(char \<times> nat) list \<Rightarrow> (char \<times> string) list" where
  "typed vs = map (\<lambda>(c, n). (c, decimal n)) vs"

lemma typed_simps [simp]: "typed [] = []" "typed ((c, n) # vs) = (c, decimal n) # typed vs"
  by (simp_all add: typed_def)

definition typable :: "(char \<times> nat) list \<Rightarrow> bool" where
  "typable vs \<longleftrightarrow> list_all (\<lambda>(c, n). c \<noteq> CHR ''?'' \<and> n < 2 ^ 64) vs"

lemma typable_simps [simp]:
  "typable []" "typable ((c, n) # vs) \<longleftrightarrow> c \<noteq> CHR ''?'' \<and> n < 2 ^ 64 \<and> typable vs"
  by (simp_all add: typable_def)

lemma mbox_getopt_typed:
  "typable vs \<Longrightarrow> mbox_getopt (typed vs @ rest) opts = mbox_getopt rest
     \<lparr>smallSize = chosen CHR ''s'' vs (smallSize opts), smallCap = chosen CHR ''S'' vs (smallCap opts),
      largeSize = chosen CHR ''l'' vs (largeSize opts), largeCap = chosen CHR ''L'' vs (largeCap opts)\<rparr>"
proof (induction vs arbitrary: opts)
  case Nil
  then show ?case by (simp flip: options_eta(1))
qed (auto simp: take_number_def stoul_decimal)

lemma log_level: "ucast (of_nat n :: 64 word) = (of_nat n :: 32 word)"
  by (rule bit_word_eqI) (auto simp: bit_simps)

lemma pool_getopt_typed:
  "typable vs \<Longrightarrow> pool_getopt (typed vs @ rest) opts = pool_getopt rest
     \<lparr>storageSize = chosen CHR ''s'' vs (storageSize opts), capacity = chosen CHR ''c'' vs (capacity opts),
      elementSize = chosen CHR ''e'' vs (elementSize opts), po_log = chosen CHR ''l'' vs (po_log opts)\<rparr>"
proof (induction vs arbitrary: opts)
  case Nil
  then show ?case by (simp flip: options_eta(2))
qed (auto simp: take_number_def stoul_decimal log_level)

lemma queue_getopt_typed:
  "typable vs \<Longrightarrow> list_all (\<lambda>(c, n). c = CHR ''l'' \<longrightarrow> n < 2 ^ 31) vs \<Longrightarrow>
     queue_getopt (typed vs @ rest) opts = queue_getopt rest
     \<lparr>qo_storageSize = chosen CHR ''s'' vs (qo_storageSize opts), qo_count = chosen CHR ''c'' vs (qo_count opts),
      queueSize = chosen CHR ''q'' vs (queueSize opts), qo_log = chosen CHR ''l'' vs (qo_log opts)\<rparr>"
proof (induction vs arbitrary: opts)
  case Nil
  then show ?case by (simp flip: options_eta(3))
qed (auto simp: take_number_def stoul_decimal stoi_decimal)

text \<open>
  What a program does, after options \<open>vs\<close> it accepts, with an option it does not know, and with an
  option out of \<open>cs\<close> that takes an unsigned number: one that is too big, a negative one, and text that
  is no number.
\<close>

definition checks_options ::
  "((char \<times> string) list \<Rightarrow> 'o \<Rightarrow> 'o options_end) \<Rightarrow> 'o \<Rightarrow> (char \<times> nat) list \<Rightarrow> char list \<Rightarrow> bool"
where
  "checks_options getopt opts vs cs \<longleftrightarrow>
     (\<forall>a rest. getopt (typed vs @ (CHR ''?'', a) # rest) opts = Usage_Exit 1) \<and>
     (\<forall>c \<in> set cs. \<forall>n rest. 2 ^ 64 \<le> n \<longrightarrow>
        getopt (typed vs @ (c, decimal n) # rest) opts = Uncaught out_of_range \<and>
        getopt (typed vs @ (c, CHR ''-'' # decimal n) # rest) opts = Uncaught out_of_range) \<and>
     (\<forall>c \<in> set cs. \<forall>n rest. n < 2 ^ 64 \<longrightarrow>
        getopt (typed vs @ (c, CHR ''-'' # decimal n) # rest) opts =
        getopt (typed vs @ (c, decimal ((2 ^ 64 - n) mod 2 ^ 64)) # rest) opts) \<and>
     (\<forall>c \<in> set cs. \<forall>a rest. read_decimal a = None \<longrightarrow>
        getopt (typed vs @ (c, a) # rest) opts = Uncaught invalid_argument)"

lemma stoul_big:
  "2 ^ 64 \<le> n \<Longrightarrow> stoul (decimal n) = Inl out_of_range"
  "2 ^ 64 \<le> n \<Longrightarrow> stoul (CHR ''-'' # decimal n) = Inl out_of_range"
  "read_decimal a = None \<Longrightarrow> stoul a = Inl invalid_argument"
  by (simp_all add: stoul_def read_decimal_decimal read_decimal_minus)

lemma stoul_minus:
  assumes "n < 2 ^ 64"
  shows "stoul (CHR ''-'' # decimal n) = stoul (decimal ((2 ^ 64 - n) mod 2 ^ 64))"
proof -
  have "(- of_nat n :: 64 word) = of_nat (2 ^ 64) - of_nat n" by simp
  also have "\<dots> = of_nat (2 ^ 64 - n)" using assms by (simp only: of_nat_diff less_imp_le)
  also have "\<dots> = of_nat ((2 ^ 64 - n) mod 2 ^ 64)"
    by (rule word_of_nat_eq_iff [THEN iffD2]) (simp add: take_bit_eq_mod)
  finally show ?thesis using assms by (simp add: stoul_def read_decimal_decimal read_decimal_minus)
qed

lemma stoi_bounds:
  "2 ^ 31 \<le> n \<Longrightarrow> stoi (decimal n) = Inl out_of_range"
  "stoi (CHR ''-'' # decimal n) = (if n \<le> 2 ^ 31 then Inr (- of_nat n) else Inl out_of_range)"
  by (auto simp: stoi_def read_decimal_decimal read_decimal_minus)

lemma mbox_checks: "typable vs \<Longrightarrow> checks_options mbox_getopt opts vs [CHR ''s'', CHR ''S'', CHR ''l'', CHR ''L'']"
  by (simp add: checks_options_def mbox_getopt_typed take_number_def stoul_big stoul_minus)

lemma pool_checks: "typable vs \<Longrightarrow> checks_options pool_getopt opts vs [CHR ''s'', CHR ''c'', CHR ''e'', CHR ''l'']"
  by (simp add: checks_options_def pool_getopt_typed take_number_def stoul_big stoul_minus)

lemma queue_checks:
  "typable ws \<Longrightarrow> list_all (\<lambda>(c, n). c = CHR ''l'' \<longrightarrow> n < 2 ^ 31) ws \<Longrightarrow>
     checks_options queue_getopt opts ws [CHR ''s'', CHR ''c'', CHR ''q'']"
  by (simp add: checks_options_def queue_getopt_typed take_number_def stoul_big stoul_minus)

text \<open>
  C30. Command lines: for numbers in decimal every option has the last value given, or its default,
  in all three programs (the log level of \<^verbatim>\<open>sandbox/queue.cpp\<close> must fit an \<^verbatim>\<open>int\<close>). In each of the three,
  after any such options: \<^verbatim>\<open>-?\<close> or an option \<^verbatim>\<open>getopt\<close> does not know ends the program with status 1; for
  each option that takes an unsigned number, a number of \<open>2 ^ 64\<close> or more ends it with an uncaught
  \<^verbatim>\<open>out_of_range\<close>, text that is no number with an uncaught \<^verbatim>\<open>invalid_argument\<close>, and a negative number is
  taken modulo \<open>2 ^ 64\<close>. The log level of \<^verbatim>\<open>sandbox/queue.cpp\<close> is a signed number: from \<open>- (2 ^ 31)\<close> it
  is taken as it is, beyond the range of \<^verbatim>\<open>int\<close> it ends the program with \<^verbatim>\<open>out_of_range\<close>.
\<close>
theorem options_read:
  assumes "typable vs" and "typable ws" and "list_all (\<lambda>(c, n). c = CHR ''l'' \<longrightarrow> n < 2 ^ 31) ws"
  shows "mbox_getopt (typed vs) mbox_defaults = Options
      \<lparr>smallSize = chosen CHR ''s'' vs 256, smallCap = chosen CHR ''S'' vs 256,
       largeSize = chosen CHR ''l'' vs 2048, largeCap = chosen CHR ''L'' vs 32\<rparr> \<and>
    pool_getopt (typed vs) pool_defaults = Options
      \<lparr>storageSize = chosen CHR ''s'' vs 16384, capacity = chosen CHR ''c'' vs 16,
       elementSize = chosen CHR ''e'' vs 16, po_log = chosen CHR ''l'' vs 0\<rparr> \<and>
    queue_getopt (typed ws) queue_defaults = Options
      \<lparr>qo_storageSize = chosen CHR ''s'' ws 12228, qo_count = chosen CHR ''c'' ws 10,
       queueSize = chosen CHR ''q'' ws 5, qo_log = chosen CHR ''l'' ws 0\<rparr> \<and>
    checks_options mbox_getopt mbox_defaults vs [CHR ''s'', CHR ''S'', CHR ''l'', CHR ''L''] \<and>
    checks_options pool_getopt pool_defaults vs [CHR ''s'', CHR ''c'', CHR ''e'', CHR ''l''] \<and>
    checks_options queue_getopt queue_defaults ws [CHR ''s'', CHR ''c'', CHR ''q''] \<and>
    (\<forall>n \<ge> 2 ^ 31. \<forall>rest.
       queue_getopt (typed ws @ (CHR ''l'', decimal n) # rest) queue_defaults = Uncaught out_of_range) \<and>
    (\<forall>n. queue_getopt (typed ws @ [(CHR ''l'', CHR ''-'' # decimal n)]) queue_defaults =
       (if n \<le> 2 ^ 31 then Options
          \<lparr>qo_storageSize = chosen CHR ''s'' ws 12228, qo_count = chosen CHR ''c'' ws 10,
           queueSize = chosen CHR ''q'' ws 5, qo_log = - of_nat n\<rparr>
        else Uncaught out_of_range))"
  using mbox_checks [OF assms(1)] pool_checks [OF assms(1)] queue_checks [OF assms(2,3)]
    mbox_getopt_typed [OF assms(1), of "[]"] pool_getopt_typed [OF assms(1), of "[]"]
    queue_getopt_typed [OF assms(2,3)] queue_getopt_typed [OF assms(2,3), of "[]"]
  by (simp add: mbox_defaults_def pool_defaults_def queue_defaults_def take_number_def stoi_bounds)

theorem options_read_witness:
  "mbox_getopt (typed [(CHR ''S'', 4), (CHR ''s'', 64), (CHR ''S'', 8)]) mbox_defaults =
     Options \<lparr>smallSize = 64, smallCap = 8, largeSize = 2048, largeCap = 32\<rparr> \<and>
   queue_getopt (typed [(CHR ''l'', 2)]) queue_defaults =
     Options \<lparr>qo_storageSize = 12228, qo_count = 10, queueSize = 5, qo_log = 2\<rparr> \<and>
   queue_getopt [(CHR ''l'', decimal 2), (CHR ''?'', [])] queue_defaults = Usage_Exit 1"
proof -
  have "typable [(CHR ''S'', 4), (CHR ''s'', 64), (CHR ''S'', 8)]" "typable [(CHR ''l'', 2)]"
      "list_all (\<lambda>(c, n). c = CHR ''l'' \<longrightarrow> n < 2 ^ 31) [(CHR ''l'', 2 :: nat)]"
    by simp_all
  from options_read [OF this] show ?thesis by (simp add: checks_options_def)
qed

end
