(* ===== verification/SandboxPool.thy ===== *)
theory SandboxPool
  imports BytePool
begin

text \<open>
  The program \<^verbatim>\<open>sandbox/pool.cpp\<close>: it takes all elements out of a pool, asks for one more and puts
  them back, printing \<^verbatim>\<open>size()\<close> on the way.
\<close>

section \<open>The program\<close>

text \<open>The first loop: the sizes printed, and the array \<^verbatim>\<open>elements\<close>.\<close>

fun pool_fill ::
  "'r pmr \<Rightarrow> nat \<Rightarrow> BytePool \<times> 'r \<Rightarrow> size_t list \<times> DataBlock list \<times> BytePool \<times> 'r" where
  "pool_fill mr 0 (b, r) = ([], [], b, r)"
| "pool_fill mr (Suc k) (b, r) =
     (let (db, b1, r1) = BytePool_alloc mr b r;
          (sizes, dbs, s) = pool_fill mr k (b1, r1)
      in (bp_size b # sizes, db # dbs, s))"

text \<open>The last loop.\<close>

fun pool_drain :: "'r pmr \<Rightarrow> DataBlock list \<Rightarrow> BytePool \<times> 'r \<Rightarrow> size_t list \<times> BytePool \<times> 'r" where
  "pool_drain mr [] (b, r) = ([], b, r)"
| "pool_drain mr (db # dbs) (b, r) =
     (let (b1, r1) = BytePool_free mr b r (db_data db);
          (sizes, s) = pool_drain mr dbs (b1, r1)
      in (bp_size b1 # sizes, s))"

record 'r pool_output =
  po_taking :: "size_t list"
  po_left :: size_t
  po_elements :: "DataBlock list"
  po_extra :: DataBlock
  po_returning :: "size_t list"
  po_pool :: BytePool
  po_resource :: 'r

definition pool_main :: "'r pmr \<Rightarrow> size_t \<Rightarrow> size_t \<Rightarrow> 'r \<Rightarrow> 'r pool_output" where
  "pool_main mr elementSize capacity r =
     (let (taking, elements, b, r) = pool_fill mr (unat capacity) (BytePool_new elementSize capacity, r);
          left = bp_size b;
          (blk, b, r) = BytePool_alloc mr b r;
          (returning, b, r) = pool_drain mr elements (b, r)
      in \<lparr>po_taking = taking, po_left = left, po_elements = elements, po_extra = blk,
          po_returning = returning, po_pool = b, po_resource = r\<rparr>)"

text \<open>The resource \<^verbatim>\<open>main\<close> builds: a pool over a logging resource over \<^verbatim>\<open>storageSize\<close> bytes at \<open>base\<close>.\<close>

definition pool_main_resource :: "addr \<Rightarrow> size_t \<Rightarrow> monotonic diag sync_pool" where
  "pool_main_resource base storageSize =
     sync_pool_new (DiagResource_new ''Monotonic'' (monotonic_new base storageSize))"

definition pool_main_pmr :: "monotonic diag sync_pool pmr" where
  "pool_main_pmr = sync_pool_pmr (DiagResource_pmr monotonic_pmr)"

section \<open>The loops\<close>

definition datas :: "DataBlock list \<Rightarrow> addr list" where
  "datas dbs = filter (\<lambda>p. p \<noteq> nullptr) (map db_data dbs)"

lemma datas_simps [simp]:
  "datas [] = []" "datas (db # dbs) = (if db_data db \<noteq> nullptr then db_data db # datas dbs else datas dbs)"
  "datas (xs @ ys) = datas xs @ datas ys"
  by (simp_all add: datas_def)

lemma pool_state_size: "pool_state_inv owns n c (b, r, out) \<Longrightarrow> unat (bp_size b) + length out = unat c"
  by (auto simp: pool_state_inv_def pool_inv_def distinct_card)

context pmr_resource begin

lemma alloc_step:
  assumes "pool_state_inv owns n c (b, r, out)" and "BytePool_alloc mr b r = (db, b', r')"
  shows "pool_state_inv owns n c (b', r', out @ datas [db])"
  using pool_step_inv [OF assms(1), of Pool_alloc] assms(2) by (simp split: if_split_asm)

lemma free_step:
  assumes "pool_state_inv owns n c (b, r, datas [db] @ out)" and "BytePool_free mr b r (db_data db) = (b', r')"
  shows "pool_state_inv owns n c (b', r', out)"
proof (cases "db_data db = nullptr")
  case True
  then show ?thesis using assms by (simp add: BytePool_free_def)
next
  case False
  then show ?thesis using pool_step_inv [OF assms(1), of "Pool_free 0"] assms(2) by simp
qed

lemma fill_inv:
  "pool_state_inv owns n c (b, r, out) \<Longrightarrow> pool_fill mr k (b, r) = (sizes, dbs, b', r') \<Longrightarrow>
     pool_state_inv owns n c (b', r', out @ datas dbs) \<and> length dbs = k \<and> length sizes = k \<and>
     (\<forall>i < k. unat (sizes ! i) + length out + length (datas (take i dbs)) = unat c)"
proof (induction k arbitrary: b r out sizes dbs)
  case (Suc k)
  obtain db b1 r1 where a: "BytePool_alloc mr b r = (db, b1, r1)" by (metis prod_cases3)
  obtain sizes1 dbs1 s where f: "pool_fill mr k (b1, r1) = (sizes1, dbs1, s)" by (metis prod_cases3)
  from Suc.prems(2) a f have eq: "sizes = bp_size b # sizes1" "dbs = db # dbs1" "s = (b', r')" by auto
  note IH = Suc.IH [OF alloc_step [OF Suc.prems(1) a] f [unfolded eq(3)]]
  have "unat (sizes ! i) + length out + length (datas (take i dbs)) = unat c" if "i < Suc k" for i
    using that IH pool_state_size [OF Suc.prems(1)] by (cases i) (auto simp: eq split: if_splits)
  then show ?case using IH by (auto simp: eq)
qed simp

lemma fill_serves:
  "pool_state_inv owns n c (b, r, out) \<Longrightarrow> pool_stock mr b r k \<Longrightarrow>
     pool_fill mr k (b, r) = (sizes, dbs, s) \<Longrightarrow> length (datas dbs) = k"
proof (induction k arbitrary: b r out sizes dbs s)
  case (Suc k)
  obtain db b1 r1 where a: "BytePool_alloc mr b r = (db, b1, r1)" by (metis prod_cases3)
  obtain sizes1 dbs1 s1 where f: "pool_fill mr k (b1, r1) = (sizes1, dbs1, s1)" by (metis prod_cases3)
  have i: "bp_eltSize b = n" "pool_inv b (set out)" "owns r (out_blocks (unat n) out)"
    using Suc.prems(1) by (simp_all add: pool_state_inv_def)
  have "set out \<subseteq> dom (out_blocks (unat n) out)" by simp
  from i(3,2) this a show ?case
  proof (cases rule: pool_alloc_owned)
    case exhausted
    then show ?thesis using Suc.prems(2) by blast
  next
    case (block p)
    then have "db_data db \<noteq> nullptr" "pool_stock mr b1 r1 k" using Suc.prems(2) by simp_all
    then show ?thesis using Suc.IH [OF alloc_step [OF Suc.prems(1) a] _ f] Suc.prems(3) a f by auto
  qed
qed simp

lemma drain_inv:
  "pool_state_inv owns n c (b, r, datas dbs @ rest) \<Longrightarrow> pool_drain mr dbs (b, r) = (sizes, b', r') \<Longrightarrow>
     pool_state_inv owns n c (b', r', rest) \<and> length sizes = length dbs \<and>
     (\<forall>i < length dbs. unat (sizes ! i) + length (datas (drop (Suc i) dbs)) + length rest = unat c)"
proof (induction dbs arbitrary: b r sizes)
  case (Cons db dbs)
  obtain b1 r1 where a: "BytePool_free mr b r (db_data db) = (b1, r1)" by fastforce
  obtain sizes1 s where f: "pool_drain mr dbs (b1, r1) = (sizes1, s)"
    by (cases "pool_drain mr dbs (b1, r1)")
  from Cons.prems(2) a f have eq: "sizes = bp_size b1 # sizes1" "s = (b', r')" by auto
  have "pool_state_inv owns n c (b, r, datas [db] @ (datas dbs @ rest))" using Cons.prems(1) by (simp split: if_splits)
  note step = free_step [OF this a]
  note IH = Cons.IH [OF step f [unfolded eq(2)]]
  have "unat (sizes ! i) + length (datas (drop (Suc i) (db # dbs))) + length rest = unat c"
    if "i < Suc (length dbs)" for i
    using that IH pool_state_size [OF step] by (cases i) (auto simp: eq)
  then show ?case using IH by (auto simp: eq)
qed simp

end

section \<open>What the program prints\<close>

lemma all_less_subtract:
  fixes f g :: "nat \<Rightarrow> nat"
  shows "\<forall>i < n. f i + g i = n \<Longrightarrow> \<forall>i < n. f i = n - g i"
  by (metis diff_add_inverse2)

lemma all_less_subtract2:
  fixes f g :: "nat \<Rightarrow> nat"
  shows "\<forall>i < n. f i + g i + k = n \<Longrightarrow> \<forall>i < n. f i = n - g i - k"
  by (metis add_implies_diff diff_diff_left group_cancel.add1)

text \<open>
  C39. Over any memory resource: the elements the program takes are distinct; the sizes it prints are
  the capacity less the elements that are out; if the resource can serve the whole capacity the
  sizes go down to 0 and the extra \<^verbatim>\<open>alloc\<close> gives null; and at the end the pool is full again,
  apart from the extra element in case \<^verbatim>\<open>alloc\<close> had failed before and gave one after all.
\<close>
theorem pool_program:
  fixes mr :: "'r pmr"
  assumes "pmr_resource mr owns" and "owns r Map.empty" and "pool_main mr n c r = out"
  shows "length (po_elements out) = unat c \<and> distinct (datas (po_elements out)) \<and>
    (\<forall>i < unat c. unat (po_taking out ! i) = unat c - length (datas (take i (po_elements out)))) \<and>
    (serves mr n (unat c) r \<longrightarrow> po_left out = 0 \<and> po_extra out = DataBlock_null) \<and>
    (\<forall>i < unat c. unat (po_returning out ! i) =
       unat c - length (datas (drop (Suc i) (po_elements out))) - length (datas [po_extra out])) \<and>
    unat (bp_size (po_pool out)) + length (datas [po_extra out]) = unat c"
proof -
  let ?b = "BytePool_new n c"
  have start: "pool_state_inv owns n c (?b, r, [])"
    using assms(2) by (simp add: pool_state_inv_def BytePool_new_def pool_inv_def)
  obtain s1 els b1 r1 where f: "pool_fill mr (unat c) (?b, r) = (s1, els, b1, r1)" by (metis prod_cases4)
  obtain blk b2 r2 where a: "BytePool_alloc mr b1 r1 = (blk, b2, r2)" by (metis prod_cases3)
  obtain s3 b3 r3 where d: "pool_drain mr els (b2, r2) = (s3, b3, r3)" by (metis prod_cases3)
  have out: "out = \<lparr>po_taking = s1, po_left = bp_size b1, po_elements = els, po_extra = blk,
      po_returning = s3, po_pool = b3, po_resource = r3\<rparr>"
    using assms(3) by (simp add: pool_main_def f a d Let_def)
  from pmr_resource.fill_inv [OF assms(1) start f] have filled:
      "pool_state_inv owns n c (b1, r1, datas els)" "length els = unat c"
      "\<forall>i < unat c. unat (s1 ! i) + length (datas (take i els)) = unat c"
    by simp_all
  have "pool_state_inv owns n c (b2, r2, datas els @ datas [blk])"
    by (rule pmr_resource.alloc_step [OF assms(1) filled(1) a])
  from pmr_resource.drain_inv [OF assms(1) this d] filled(2) have drained:
      "pool_state_inv owns n c (b3, r3, datas [blk])"
      "\<forall>i < unat c. unat (s3 ! i) + length (datas (drop (Suc i) els)) + length (datas [blk]) = unat c"
    by (simp_all del: datas_simps)
  have "distinct (datas els)" using filled(1) by (simp add: pool_state_inv_def)
  moreover have "bp_size b1 = 0 \<and> blk = DataBlock_null" if "serves mr n (unat c) r"
  proof -
    have "pool_stock mr ?b r (unat c)" using that by (simp add: pool_stock_def BytePool_new_def)
    from pmr_resource.fill_serves [OF assms(1) start this f]
    have "unat (bp_size b1) = 0" using pool_state_size [OF filled(1)] by simp
    then have "bp_size b1 = 0" by (simp add: unat_eq_0)
    then show ?thesis using a by (simp add: BytePool_alloc_def)
  qed
  moreover have "unat (bp_size b3) + length (datas [blk]) = unat c"
    by (rule pool_state_size [OF drained(1)])
  moreover have "\<forall>i < unat c. unat (s1 ! i) = unat c - length (datas (take i els))"
    "\<forall>i < unat c. unat (s3 ! i) = unat c - length (datas (drop (Suc i) els)) - length (datas [blk])"
    by (rule all_less_subtract [OF filled(3)], rule all_less_subtract2 [OF drained(2)])
  ultimately show ?thesis using filled(2) by (simp add: out del: datas_simps)
qed

theorem pool_program_witness:
  "po_left (pool_main pool_main_pmr 16 2 (pool_main_resource 4096 16384)) = 0 \<and>
     po_extra (pool_main pool_main_pmr 16 2 (pool_main_resource 4096 16384)) = DataBlock_null"
proof -
  have owns: "sync_pool_owns (\<lambda>s. monotonic_owns (dg_up s)) (pool_main_resource 4096 16384) Map.empty"
    unfolding pool_main_resource_def
    by (intro sync_pool_new_owns) (simp add: DiagResource_new_def monotonic_new_owns)
  have "serves pool_main_pmr 16 (Suc (Suc 0)) (pool_main_resource 4096 16384)"
    by (simp add: pool_main_pmr_def pool_main_resource_def DiagResource_pmr_def DiagResource_do_allocate_def
        DiagResource_new_def sync_pool_pmr_def sync_pool_new_def monotonic_pmr_def monotonic_new_def
        sync_pool_allocate_def monotonic_allocate_def align_up_def Let_def)
  moreover have "unat (2 :: size_t) = Suc (Suc 0)" by simp
  ultimately have "serves pool_main_pmr 16 (unat (2 :: size_t)) (pool_main_resource 4096 16384)" by metis
  then show ?thesis
    using pool_program [OF diag_res.pmr_resource_axioms owns refl, of 16 2, folded pool_main_pmr_def]
    by blast
qed

end
