(* ===== verification/SandboxQueue.thy ===== *)
theory SandboxQueue
  imports Queue Message "HOL-Library.Sublist"
begin

text \<open>
  The program \<^verbatim>\<open>sandbox/queue.cpp\<close>: it fills a queue with one message too many, then a producer and a
  consumer thread work on it until the producer is done.
\<close>

section \<open>The program\<close>

definition make_message :: "label \<times> size_t \<times> addr \<Rightarrow> Message" where
  "make_message = (\<lambda>(l, n, p). Message_new l n p)"

text \<open>The loop of \<^verbatim>\<open>main\<close>, whose counter is narrowed to a label; the results of \<^verbatim>\<open>emplace\<close>.\<close>

fun queue_fill :: "nat list \<Rightarrow> Message Queue \<Rightarrow> bool list \<times> Message Queue" where
  "queue_fill [] q = ([], q)"
| "queue_fill (i # is) q =
     (let (ok, q1) = Queue_emplace make_message q (of_nat i, 16, nullptr);
          (oks, q2) = queue_fill is q1
      in (ok # oks, q2))"

definition queue_main_fill :: "size_t \<Rightarrow> bool list \<times> Message Queue" where
  "queue_main_fill queueSize = queue_fill [0..<unat (queueSize + 1)] (Queue_new queueSize)"

text \<open>
  The threads: \<open>qd_i\<close> is the producer's counter, a \<^verbatim>\<open>uint32_t\<close>; \<open>qd_msg\<close> the consumer's variable.
  \<open>qd_received\<close> and \<open>qd_errors\<close> are what the two print; \<open>qd_accepted\<close> what \<^verbatim>\<open>emplace\<close> took.
\<close>

datatype consumer_pc = Testing | Popping | Ended

record queue_demo =
  qd_queue :: "Message Queue"
  qd_running :: bool
  qd_pc :: consumer_pc
  qd_msg :: Message
  qd_received :: "Message list"
  qd_i :: "32 word"
  qd_accepted :: "Message list"
  qd_errors :: nat

definition queue_demo_start :: "Message Queue \<Rightarrow> queue_demo" where
  "queue_demo_start q =
     \<lparr>qd_queue = q, qd_running = True, qd_pc = Testing, qd_msg = Message_default, qd_received = [],
      qd_i = 0, qd_accepted = [], qd_errors = 0\<rparr>"

text \<open>One round of \<^verbatim>\<open>producer\<close>; after its loop \<^verbatim>\<open>main\<close> clears \<^verbatim>\<open>running\<close>.\<close>

definition producer_step :: "size_t \<Rightarrow> queue_demo \<Rightarrow> queue_demo" where
  "producer_step cnt s =
     (if unat (qd_i s) < unat cnt then
        (let x = (ucast (qd_i s), ucast (qd_i s + 1), nullptr);
             (ok, q) = Queue_emplace make_message (qd_queue s) x
         in s\<lparr>qd_queue := q, qd_i := qd_i s + 1,
              qd_accepted := qd_accepted s @ (if ok then [make_message x] else []),
              qd_errors := qd_errors s + (if ok then 0 else 1)\<rparr>)
      else s\<lparr>qd_running := False\<rparr>)"

text \<open>
  \<^verbatim>\<open>consumer\<close>: \<^verbatim>\<open>popWait\<close> comes back when there is an element or, with \<open>late\<close>, when 500 ms have
  passed.
\<close>

definition consumer_step :: "bool \<Rightarrow> queue_demo \<Rightarrow> queue_demo" where
  "consumer_step late s =
     (case qd_pc s of
        Testing \<Rightarrow> s\<lparr>qd_pc := if qd_running s then Popping else Ended\<rparr>
      | Popping \<Rightarrow>
          (if Queue_empty (qd_queue s) \<and> \<not> late then s
           else
             (let (ok, msg, q) = Queue_popWait (qd_queue s) (qd_msg s)
              in s\<lparr>qd_queue := q, qd_msg := msg, qd_pc := Testing,
                   qd_received := qd_received s @ (if ok then [msg] else [])\<rparr>))
      | Ended \<Rightarrow> s)"

datatype queue_event = Produce | Consume bool

fun queue_demo_step :: "size_t \<Rightarrow> queue_event \<Rightarrow> queue_demo \<Rightarrow> queue_demo" where
  "queue_demo_step cnt Produce s = producer_step cnt s"
| "queue_demo_step cnt (Consume late) s = consumer_step late s"

definition queue_demo_run :: "size_t \<Rightarrow> queue_event list \<Rightarrow> queue_demo \<Rightarrow> queue_demo" where
  "queue_demo_run cnt es s = fold (queue_demo_step cnt) es s"

section \<open>Filling the queue\<close>

lemma fill_room:
  "length (q_queue q) + length is \<le> unat (q_capacity q) \<Longrightarrow>
     queue_fill is q = (replicate (length is) True,
       q\<lparr>q_queue := q_queue q @ map (\<lambda>i. make_message (of_nat i, 16, nullptr)) is\<rparr>)"
  by (induction "is" arbitrary: q) (simp_all add: Queue_emplace_def)

lemma fill_append:
  "queue_fill (is @ js) q =
     (let (oks, q1) = queue_fill is q; (oks', q2) = queue_fill js q1 in (oks @ oks', q2))"
  by (induction "is" arbitrary: q) (simp_all split: prod.split)

text \<open>What \<^verbatim>\<open>main\<close> leaves in the queue: with the greatest \<^verbatim>\<open>size_t\<close> its bound wraps to 0.\<close>

definition filled :: "size_t \<Rightarrow> Message list" where
  "filled queueSize =
     (if queueSize = - 1 then [] else map (\<lambda>i. make_message (of_nat i, 16, nullptr)) [0..<unat queueSize])"

lemma main_fill:
  "queue_main_fill queueSize =
     (if queueSize = - 1 then [] else replicate (unat queueSize) True @ [False],
      \<lparr>q_queue = filled queueSize, q_capacity = queueSize\<rparr>)"
proof (cases "queueSize = - 1")
  case True
  then show ?thesis by (simp add: queue_main_fill_def filled_def Queue_new_def)
next
  case False
  then have "queueSize + 1 \<noteq> 0" by (metis eq_neg_iff_add_eq_0)
  then have "unat (queueSize + 1) = Suc (unat queueSize)" by (simp add: unatSuc add.commute)
  then show ?thesis using False
    by (simp add: queue_main_fill_def fill_append fill_room Queue_new_def Queue_emplace_def filled_def)
qed

section \<open>The threads\<close>

text \<open>What the producer offers with its counter at \<open>k\<close>.\<close>

definition offer_of :: "nat \<Rightarrow> Message" where
  "offer_of k = make_message (of_nat k, of_nat (k + 1), nullptr)"

definition queue_demo_inv :: "size_t \<Rightarrow> Message list \<Rightarrow> queue_demo \<Rightarrow> bool" where
  "queue_demo_inv cnt xs s \<longleftrightarrow>
     qd_received s @ q_queue (qd_queue s) = xs @ qd_accepted s \<and>
     (qd_pc s = Ended \<longrightarrow> \<not> qd_running s) \<and>
     (unat cnt < 2 ^ 32 \<longrightarrow> unat (qd_i s) \<le> unat cnt \<and>
        length (qd_accepted s) + qd_errors s = unat (qd_i s) \<and>
        subseq (qd_accepted s) (map offer_of [0..<unat (qd_i s)])) \<and>
     (2 ^ 32 \<le> unat cnt \<longrightarrow> qd_running s)"

lemma counter_step:
  fixes i :: "32 word"
  assumes "unat i < unat cnt" and "unat (cnt :: size_t) < 2 ^ 32"
  shows "unat (i + 1) = Suc (unat i)" and "make_message (ucast i, ucast (i + 1), nullptr) = offer_of (unat i)"
proof -
  from assms have "Suc (unat i) < 2 ^ 32" by linarith
  then show 1: "unat (i + 1) = Suc (unat i)"
    by (simp add: unat_word_ariths)
  have "ucast (i + 1) = (of_nat (unat (i + 1)) :: 64 word)" by (simp only: of_nat_unat)
  then have "ucast (i + 1) = (of_nat (unat i + 1) :: 64 word)" by (simp only: 1 Suc_eq_plus1)
  moreover have "ucast i = (of_nat (unat i) :: 16 word)" by (simp only: of_nat_unat)
  ultimately show "make_message (ucast i, ucast (i + 1), nullptr) = offer_of (unat i)"
    by (simp only: offer_of_def)
qed

lemma producer_inv:
  assumes "queue_demo_inv cnt xs s"
  shows "queue_demo_inv cnt xs (producer_step cnt s)"
proof (cases "unat (qd_i s) < unat cnt")
  case True
  let ?x = "(ucast (qd_i s), ucast (qd_i s + 1), nullptr)"
  obtain ok q where e: "Queue_emplace make_message (qd_queue s) ?x = (ok, q)" by fastforce
  note q = Queue_push_items [OF e [unfolded Queue_emplace_push]]
  show ?thesis
  proof (cases "unat cnt < 2 ^ 32")
    case small: True
    note c = counter_step [OF True small]
    have "subseq (qd_accepted s @ (if ok then [make_message ?x] else []))
        (map offer_of [0..<unat (qd_i s)] @ [offer_of (unat (qd_i s))])"
      using assms small by (auto simp: queue_demo_inv_def c(2) intro: subseq_rev_drop_many)
    then show ?thesis using assms True small q c(1)
      by (auto simp: queue_demo_inv_def producer_step_def e Let_def simp flip: append_assoc)
  next
    case False
    then show ?thesis using assms True q
      by (auto simp: queue_demo_inv_def producer_step_def e Let_def simp flip: append_assoc)
  qed
next
  case False
  have "unat (qd_i s) < 2 ^ 32" using unsigned_less [of "qd_i s"] by simp
  with False assms show ?thesis by (auto simp: queue_demo_inv_def producer_step_def)
qed

lemma consumer_inv: "queue_demo_inv cnt xs s \<Longrightarrow> queue_demo_inv cnt xs (consumer_step late s)"
  by (cases "q_queue (qd_queue s)")
    (auto simp: queue_demo_inv_def consumer_step_def Queue_popWait_def Queue_empty_def split: consumer_pc.splits)

lemma queue_demo_run_inv:
  "queue_demo_inv cnt xs s \<Longrightarrow> queue_demo_inv cnt xs (queue_demo_run cnt es s)"
  unfolding queue_demo_run_def
proof (induction es arbitrary: s)
  case (Cons e es)
  then show ?case by (cases e) (simp_all add: producer_inv consumer_inv)
qed simp

text \<open>The producer's rounds: as many as the count, and then \<^verbatim>\<open>running\<close> is cleared.\<close>

definition produced :: "size_t \<Rightarrow> nat \<Rightarrow> queue_demo \<Rightarrow> bool" where
  "produced cnt k s \<longleftrightarrow> unat (qd_i s) = min k (unat cnt) \<and> (qd_running s \<longleftrightarrow> k \<le> unat cnt)"

lemma produced_step:
  assumes "unat cnt < 2 ^ 32" and "produced cnt k s"
  shows "produced cnt (if e = Produce then Suc k else k) (queue_demo_step cnt e s)"
proof (cases e)
  case Produce
  show ?thesis
  proof (cases "unat (qd_i s) < unat cnt")
    case True
    from counter_step(1) [OF this assms(1)] True assms(2) Produce show ?thesis
      by (simp add: produced_def producer_step_def Let_def split: prod.split)
  next
    case False
    then show ?thesis using assms(2) Produce by (auto simp: produced_def producer_step_def)
  qed
next
  case (Consume late)
  then show ?thesis using assms(2)
    by (simp add: produced_def consumer_step_def Let_def split: consumer_pc.split prod.split)
qed

lemma produced_run:
  "unat cnt < 2 ^ 32 \<Longrightarrow> produced cnt k s \<Longrightarrow>
     produced cnt (k + count_list es Produce) (queue_demo_run cnt es s)"
  unfolding queue_demo_run_def
proof (induction es arbitrary: s k)
  case (Cons e es)
  from Cons.IH [OF Cons.prems(1) produced_step [OF Cons.prems, of e]] show ?case by (cases "e = Produce") simp_all
qed simp

text \<open>The steps of the consumer to its end, once \<^verbatim>\<open>running\<close> is cleared.\<close>

fun steps_left :: "consumer_pc \<Rightarrow> nat" where
  "steps_left Ended = 0"
| "steps_left Testing = 1"
| "steps_left Popping = 2"

lemma ending_step:
  "\<not> qd_running s \<Longrightarrow> \<not> qd_running (queue_demo_step cnt e s) \<and>
     steps_left (qd_pc (queue_demo_step cnt e s)) \<le> steps_left (qd_pc s) - (if e = Consume True then 1 else 0)"
  by (cases e) (auto simp: producer_step_def consumer_step_def Let_def split: consumer_pc.split prod.split)

lemma ending_run:
  "\<not> qd_running s \<Longrightarrow>
     steps_left (qd_pc (queue_demo_run cnt es s)) \<le> steps_left (qd_pc s) - count_list es (Consume True)"
  unfolding queue_demo_run_def
proof (induction es arbitrary: s)
  case (Cons e es)
  from ending_step [OF Cons.prems, of cnt e] Cons.IH [of "queue_demo_step cnt e s"]
  show ?case by (auto split: if_splits)
qed simp

lemma consumer_ends:
  assumes "\<not> qd_running s" and "2 \<le> count_list es (Consume True)"
  shows "qd_pc (queue_demo_run cnt es s) = Ended"
proof -
  have "steps_left (qd_pc s) \<le> 2" by (cases "qd_pc s") simp_all
  with ending_run [OF assms(1), of cnt es] assms(2)
  have "steps_left (qd_pc (queue_demo_run cnt es s)) = 0" by linarith
  then show ?thesis by (cases "qd_pc (queue_demo_run cnt es s)") simp_all
qed

text \<open>
  C40. Where the storage suffices for the deque: only the last of the first \<open>queueSize + 1\<close> messages is
  refused (a size of \<open>2 ^ 64 - 1\<close> makes the bound wrap, and none is offered); whatever the two threads
  do, what the consumer receives is, in order, the messages of the fill and then what the producer
  got accepted, up to what is still in the queue; every message of the producer is accepted or
  reported as an error. The threads end, for a count below \<open>2 ^ 32\<close>: \<^verbatim>\<open>running\<close> is cleared exactly when
  the producer has come to its loop once more than the count says, with its counter at the count,
  and then the consumer ends within two of its steps, provided \<^verbatim>\<open>popWait\<close> comes back when its time is
  over, whatever else is done in between. With a count of \<open>2 ^ 32\<close> or more the 32-bit counter
  of the producer never gets there: \<^verbatim>\<open>running\<close> stays set, the consumer does not end, and the program
  does not end.
\<close>
theorem queue_program:
  assumes "queue_main_fill queueSize = (oks, q)" and "queue_demo_run cnt es (queue_demo_start q) = s"
  shows "oks = (if queueSize = - 1 then [] else replicate (unat queueSize) True @ [False]) \<and>
    qd_received s @ q_queue (qd_queue s) =
      (if queueSize = - 1 then [] else map (\<lambda>i. make_message (of_nat i, 16, nullptr)) [0..<unat queueSize]) @
      qd_accepted s \<and>
    (unat cnt < 2 ^ 32 \<longrightarrow> subseq (qd_accepted s) (map offer_of [0..<unat (qd_i s)]) \<and>
      length (qd_accepted s) + qd_errors s = unat (qd_i s) \<and>
      unat (qd_i s) = min (count_list es Produce) (unat cnt) \<and>
      (qd_running s \<longleftrightarrow> count_list es Produce \<le> unat cnt)) \<and>
    (\<forall>es'. \<not> qd_running s \<and> 2 \<le> count_list es' (Consume True) \<longrightarrow>
      qd_pc (queue_demo_run cnt es' s) = Ended) \<and>
    (qd_pc s = Ended \<longrightarrow> \<not> qd_running s) \<and>
    (2 ^ 32 \<le> unat cnt \<longrightarrow> qd_running s)"
proof -
  have q: "oks = (if queueSize = - 1 then [] else replicate (unat queueSize) True @ [False])"
      "q_queue q = filled queueSize"
    using main_fill [of queueSize] assms(1) by auto
  have "queue_demo_inv cnt (filled queueSize) (queue_demo_start q)"
    by (simp add: queue_demo_inv_def queue_demo_start_def q)
  from queue_demo_run_inv [OF this, of es] have "queue_demo_inv cnt (filled queueSize) s" by (simp add: assms(2))
  moreover have "produced cnt 0 (queue_demo_start q)"
    by (simp add: produced_def queue_demo_start_def)
  then have "produced cnt (count_list es Produce) s" if "unat cnt < 2 ^ 32"
    using produced_run [OF that, of 0 _ es] assms(2) by fastforce
  ultimately show ?thesis using q(1) consumer_ends [of s _ cnt]
    by (simp add: queue_demo_inv_def produced_def filled_def)
qed

theorem queue_program_witness:
  "\<exists>oks q. queue_main_fill 1 = (oks, q) \<and> oks = [True, False] \<and>
     \<not> qd_running (queue_demo_run 1 [Consume False, Consume False, Produce, Produce] (queue_demo_start q)) \<and>
     qd_pc (queue_demo_run 1 [Consume True, Consume True]
       (queue_demo_run 1 [Consume False, Consume False, Produce, Produce] (queue_demo_start q))) = Ended"
proof -
  obtain oks q where f: "queue_main_fill 1 = (oks, q)" by fastforce
  have c: "2 \<le> count_list [Consume True, Consume True] (Consume True)" by simp
  from queue_program [OF f refl, of 1 "[Consume False, Consume False, Produce, Produce]"] f c
  show ?thesis by (intro exI [of _ oks] exI [of _ q]) simp
qed

end
