(* ===== verification/Spec2Isabelle.thy ===== *)
theory Spec2Isabelle
  imports MailboxMisuse SendInterleaved TimerProps TimerSpec QueueMonitor PoolConcurrency MboxProps TimerLost CommandLine SandboxPool
    SandboxQueue
begin

text \<open>
  msglib, a C++ library of mailboxes and timers for the threads of one process, and the programs
  under \<^verbatim>\<open>example/\<close> and \<^verbatim>\<open>sandbox/\<close>.

  \<^bold>\<open>The program.\<close> A thread owns a \<^verbatim>\<open>Mailbox\<close> and registers it for labels (16-bit numbers, at most three
  mailboxes a label). \<^verbatim>\<open>SendMessage\<close> copies an object into one block of memory for every mailbox
  registered for the label and puts a \<^verbatim>\<open>Message\<close> with the block's address into its queue;
  \<^verbatim>\<open>SendSignal\<close> puts a message without a block. \<^verbatim>\<open>Receive\<close> takes the next message, \<^verbatim>\<open>ReleaseMessage\<close>
  (or a \<^verbatim>\<open>MessageGuard\<close>) gives its block back. The blocks come from two \<^verbatim>\<open>BytePool\<close>s over one buffer
  allocated by \<^verbatim>\<open>Initialize\<close>. \<^verbatim>\<open>TimerManager\<close> runs at most one POSIX timer a label; a thread of its
  own waits for \<^verbatim>\<open>SIGRTMIN\<close> and sends the mailbox signal of the timer's label.

  \<^bold>\<open>Theories and code\<close> (paths under \<^verbatim>\<open>src/include/msglib/\<close> unless given in full).
  \<^item> Prelude: machine types, faults, memory with \<^verbatim>\<open>memcpy\<close>, sequencing of calls that can fault.
  \<^item> MemoryResource: \<^verbatim>\<open>std::pmr::memory_resource\<close> as a record of its virtual functions, the contract
    (locale \<open>pmr_resource\<close>), the standard resources the code wires together, and
    \<^verbatim>\<open>sandbox/DiagResource.h\<close>.
  \<^item> BytePool, PoolConcurrency: \<^verbatim>\<open>detail/BytePool.h\<close>, one call at a time and by several threads.
  \<^item> Receiver, Message, Queue: \<^verbatim>\<open>detail/Receiver.h\<close>, \<^verbatim>\<open>Message.h\<close>, \<^verbatim>\<open>detail/Queue.h\<close>. QueueMonitor: the
    calls of several threads on a queue, with mutex, condition variable, spurious wakeups and
    time-outs as a step relation.
  \<^item> MailboxData, Mailbox: \<^verbatim>\<open>detail/MailboxData.h\<close>, \<^verbatim>\<open>Mailbox.h\<close>. The record \<open>world\<close> holds the static
    \<^verbatim>\<open>s_mailboxData\<close>, the queues of the mailboxes that exist, and the memory.
  \<^item> MailboxInv, WorldInv, SendSpec, MailboxSystem, SystemSpec, MailboxProps, MailboxMisuse: the calls
    of a program as one transition function \<open>sys_exec\<close>, the discipline \<open>call_ok\<close>, the invariant
    \<open>sys_inv\<close>, the abstract publish/subscribe machine \<open>pubsub_step\<close>, the properties, and what happens
    outside the discipline. SendInterleaved: the sends round by round, among the calls of other
    threads that do not take the mutex.
  \<^item> TimeConv, Timer: \<^verbatim>\<open>detail/TimeConv.h\<close>, \<^verbatim>\<open>detail/TimerManagerData.h\<close>, \<^verbatim>\<open>TimerManager.h\<close>, \<^verbatim>\<open>Msglib.h\<close>.
    PosixTimers: what the code relies on of POSIX timers (locale \<open>posix_timers\<close>; whether a pending
    signal outlives its timer is left open, as POSIX does) and two kernels that provide it, one of
    either kind. TimerSystem, TimerProps: mailbox calls,
    timers, expiries and steps of the signal thread (it takes a signal, then handles it) in any order,
    and their properties. TimerSpec:
    the abstract machine of bus, timers and due labels (\<open>timed_step\<close>) that they refine.
  \<^item> Programs, ProgramInv: programs of several threads over the library and their schedules.
    MboxExample, MboxInv, MboxLive, MboxProps: \<^verbatim>\<open>src/example/mbox.cpp\<close>. TimerExample, TimerInv,
    TimerDemo, CallFrames (what single calls leave alone), TimerLate (a schedule), TimerLost:
    \<^verbatim>\<open>src/example/timer.cpp\<close>. SandboxPool, SandboxQueue: \<^verbatim>\<open>src/sandbox/pool.cpp\<close>,
    \<^verbatim>\<open>src/sandbox/queue.cpp\<close>. CommandLine: the options of the programs, with what \<^verbatim>\<open>getopt\<close> returns
    as the argument.

  A C++ class is a record with the source's members, a member function a function on the state that
  keeps the function's name after the class's. What is undefined in C++ or ends the caller is a
  \<open>fault\<close>: a null pointer, a destroyed mailbox or timer, the second lock of a mutex, an exception.

  \<^bold>\<open>What the lemmas show.\<close> The pools: what is out is distinct, disjoint and counted, over any memory
  resource. The queue: bounded, in order, mutual exclusion, no lost wakeup, progress. The mailboxes:
  every disciplined call returns, keeps the invariant and is a step of the abstract machine; what
  the two sends promise, among other threads' calls too; no block is lost unless a queue overflows or a mailbox is destroyed with
  unread messages. The timers: slots, objects and kernel timers correspond, whatever the order of
  starts, cancels, expiries and signals and whatever the kernel does with the signals of deleted
  timers, in programs that cancel no timer whose signal is pending or taken and not handled (\<open>tcall_ok\<close>);
  a cancel between the two steps of the signal thread makes it use the destroyed timer
  (\<open>cancelled_timer_dangles\<close>), and where the kernel keeps the signals of deleted timers so does one
  before them. The examples: no schedule of
  \<^verbatim>\<open>mbox.cpp\<close> faults, its threads show what was sent, and it can come to its end; the schedules of
  \<^verbatim>\<open>timer.cpp\<close> that can fault, and those in which its \<^verbatim>\<open>DONE\<close> is lost and it never ends (\<open>tokens\<close>
  counts where the order to end can be).
  The error properties say where the code breaks: a full queue loses blocks, calls before
  \<^verbatim>\<open>Initialize\<close>, destroyed mailboxes that are registered, sizes over 16 bits, signals of
  cancelled timers, times that \<^verbatim>\<open>timer_settime\<close> refuses, timers that are never given back.

  \<^bold>\<open>Bounds and fuel.\<close> Integers have the widths of the code (labels and \<^verbatim>\<open>m_size\<close> 16 bits, \<^verbatim>\<open>size_t\<close> 64,
  \<^verbatim>\<open>intmax_t\<close> and \<^verbatim>\<open>time_t\<close> signed 64 with overflow as \<open>None\<close>). Addresses are natural numbers. The only
  fuel is the number of rounds of the signal thread (\<open>HandleSignals_loop\<close>): as many as signals are
  pending are enough. The buffer of the timers has 65536 times 136 bytes, the size of a \<^verbatim>\<open>Timer\<close> on
  x86-64 Linux. The conversion of durations is shown for clocks of up to nine billion ticks a second.
  Progress proofs use the measures \<open>work\<close> (QueueMonitor), \<open>rank\<close> and \<open>weight\<close> (MboxLive).

  \<^bold>\<open>Assumptions.\<close> A call of \<^verbatim>\<open>Mailbox\<close> or \<^verbatim>\<open>TimerManager\<close> is one step: each holds its mutex for the part
  that touches shared state; the queues, which have their own, are shown linear in QueueMonitor, and
  \<^verbatim>\<open>free\<close>, which is called without one, is exact in PoolConcurrency. A send need not be one step:
  SendInterleaved lets \<^verbatim>\<open>Receive\<close>, \<^verbatim>\<open>ReleaseMessage\<close>, creation and destruction of mailboxes come
  between the rounds of its loop and shows that it is a step of the bus all the same; a round, which
  takes a block and puts one message into one queue, is one step there.
  The signal thread waits without the mutex and handles a signal with it, so a round of it is two steps.
  The slots \<^verbatim>\<open>m_timers\<close>, which the code does not initialize, happen to be null when the process starts
  (\<open>tsys_new\<close>); without that the first \<^verbatim>\<open>StartTimer\<close> reads an indeterminate pointer. A run of timer calls
  (\<open>tsys_run\<close>) stops at the first exception, so programs that catch one of \<^verbatim>\<open>StartTimer\<close> and go on are
  covered up to there.
  The POSIX functions and the addresses \<^verbatim>\<open>make_unique\<close> returns are parameters. Sleeps promise
  nothing: every schedule is possible.

  \<^bold>\<open>Not modelled.\<close> Durations with a floating-point representation; failure of the allocator behind the
  \<^verbatim>\<open>std::deque\<close> of a queue (and with it the storage and the resources \<^verbatim>\<open>sandbox/queue.cpp\<close> sets up for it); the constructor of \<^verbatim>\<open>MessageGuard\<close>, which stores two references; the
  lifetime of the reference \<^verbatim>\<open>cancelTimer\<close> takes to a label in the object it destroys; log output
  other than what a program shows of its messages; tests, build files and scripts.
\<close>

end
